(* ===== verification/Ipfs_Prelude.thy ===== *)
theory Ipfs_Prelude
  imports Main "HOL-Library.AList" "HOL-Library.Multiset"
begin

text \<open>
  Shared vocabulary of the development.

  \<^item> Hash maps (\<open>HashMap\<close>, \<open>AHashMap\<close>) are association lists with distinct keys. A lookup is
    \<^const>\<open>map_of\<close>, \<open>insert\<close> is \<^const>\<open>AList.update\<close> and \<open>remove\<close> is \<^const>\<open>AList.delete\<close>. The
    position of an entry in the list stands for the unspecified iteration order of the
    hash map, so no theorem of the development depends on it.
  \<^item> Hash sets are HOL sets.
  \<^item> A panic of the Rust code (a failed \<open>assert!\<close>, an integer overflow under overflow
    checks, an \<open>expect\<close> on \<open>None\<close>) is a value of the type \<open>panic\<close>; an operation that can
    panic returns a sum with the panic on the left.
  \<^item> The locale \<open>component\<close> is the contract of a stateful component: its initial states satisfy
    an invariant and every operation keeps it. Every component with an invariant
    interprets it.
\<close>

section \<open>Hash maps\<close>

type_synonym ('k, 'v) hmap = "('k \<times> 'v) list"

abbreviation hkeys :: "('k, 'v) hmap \<Rightarrow> 'k list" where
  "hkeys m \<equiv> map fst m"

abbreviation hvalues :: "('k, 'v) hmap \<Rightarrow> 'v list" where
  "hvalues m \<equiv> map snd m"

definition hmap_ok :: "('k, 'v) hmap \<Rightarrow> bool" where
  "hmap_ok m \<longleftrightarrow> distinct (hkeys m)"

text \<open>The \<open>entry(k).or_default()\<close> idiom: read the value or a default, change it, store it back.\<close>

definition hmodify :: "'k \<Rightarrow> 'v \<Rightarrow> ('v \<Rightarrow> 'v) \<Rightarrow> ('k, 'v) hmap \<Rightarrow> ('k, 'v) hmap" where
  "hmodify k d f m = AList.update k (f (case map_of m k of None \<Rightarrow> d | Some v \<Rightarrow> v)) m"

named_theorems hmap \<open>equations and closure rules of hash maps\<close>

lemma hmap_ok_Nil [simp, hmap]: "hmap_ok []"
  by (simp add: hmap_ok_def)

lemma hmap_ok_Cons [simp, hmap]: "hmap_ok ((k, v) # m) \<longleftrightarrow> k \<notin> fst ` set m \<and> hmap_ok m"
  by (simp add: hmap_ok_def)

lemma hmap_ok_update [simp, intro, hmap]: "hmap_ok m \<Longrightarrow> hmap_ok (AList.update k v m)"
  by (simp add: hmap_ok_def distinct_update)

lemma hmap_ok_delete [simp, intro, hmap]: "hmap_ok m \<Longrightarrow> hmap_ok (AList.delete k m)"
  by (simp add: hmap_ok_def distinct_delete)

lemma hmap_ok_modify [simp, intro, hmap]: "hmap_ok m \<Longrightarrow> hmap_ok (hmodify k d f m)"
  by (simp add: hmodify_def)

lemmas map_of_hmap [simp, hmap] = update_conv' delete_conv'

lemma map_of_hmodify [simp, hmap]:
  "map_of (hmodify k d f m) = (map_of m)(k \<mapsto> f (case map_of m k of None \<Rightarrow> d | Some v \<Rightarrow> v))"
  by (simp add: hmodify_def)

lemma hmap_in_set_iff: "hmap_ok m \<Longrightarrow> (k, v) \<in> set m \<longleftrightarrow> map_of m k = Some v"
  by (simp add: hmap_ok_def)

lemma hmap_value_iff: "hmap_ok m \<Longrightarrow> v \<in> snd ` set m \<longleftrightarrow> (\<exists>k. map_of m k = Some v)"
  by (force simp: hmap_in_set_iff [symmetric])

lemma hmap_key_iff: "k \<in> fst ` set m \<longleftrightarrow> (\<exists>v. map_of m k = Some v)"
  by (metis domD domI dom_map_of_conv_image_fst)

lemma set_hmap_ok: "hmap_ok m \<Longrightarrow> set m = {(k, v). map_of m k = Some v}"
  by (auto simp: hmap_in_set_iff)

text \<open>Removing a key present in the map removes exactly its entry.\<close>

lemma delete_Some_mset:
  "hmap_ok m \<Longrightarrow> map_of m k = Some v \<Longrightarrow> mset m = add_mset (k, v) (mset (AList.delete k m))"
proof (induction m)
  case (Cons p m)
  obtain k' v' where p: "p = (k', v')" by (cases p)
  show ?case
  proof (cases "k' = k")
    case True
    with Cons.prems p have "k \<notin> fst ` set m" "v = v'" by simp_all
    with True p show ?thesis by simp
  next
    case False
    with Cons p show ?thesis by simp
  qed
qed simp

lemma delete_Some_length:
  "hmap_ok m \<Longrightarrow> map_of m k = Some v \<Longrightarrow> length m = Suc (length (AList.delete k m))"
  using delete_Some_mset [THEN arg_cong [where f = size]] by fastforce

lemma update_new_eq: "map_of m k = None \<Longrightarrow> AList.update k v m = m @ [(k, v)]"
  by (induction m) auto

lemma update_Some_mset:
  "hmap_ok m \<Longrightarrow> map_of m k = Some v \<Longrightarrow>
   mset (AList.update k w m) = add_mset (k, w) (mset (AList.delete k m))"
proof (induction m)
  case (Cons p m)
  obtain k' v' where p: "p = (k', v')" by (cases p)
  show ?case
  proof (cases "k' = k")
    case True
    with Cons.prems p have "k \<notin> fst ` set m" by simp
    with True p show ?thesis by simp
  next
    case False
    with Cons p show ?thesis by simp
  qed
qed simp

lemma length_update_Some: "map_of m k = Some v \<Longrightarrow> length (AList.update k w m) = length m"
  by (induction m) auto

lemma map_of_fold_delete [simp, hmap]:
  "map_of (fold AList.delete ks m) k = (if k \<in> set ks then None else map_of m k)"
  by (induction ks arbitrary: m) auto

lemma hmap_ok_fold_delete [simp, intro, hmap]: "hmap_ok m \<Longrightarrow> hmap_ok (fold AList.delete ks m)"
  by (induction ks arbitrary: m) auto

lemma map_of_map_values [hmap]: "map_of (map (\<lambda>(k, v). (k, f v)) m) k = map_option f (map_of m k)"
  by (simp add: map_of_map)

lemma hmap_ok_map_values [hmap]: "hmap_ok (map (\<lambda>(k, v). (k, f v)) m) \<longleftrightarrow> hmap_ok m"
  by (simp add: hmap_ok_def case_prod_unfold comp_def)

lemma finite_dom_map_of_hmap [simp]: "finite (dom (map_of m))"
  by (rule finite_dom_map_of)

lemma length_hmap_card: "hmap_ok m \<Longrightarrow> length m = card (dom (map_of m))"
  by (metis hmap_ok_def card_length dom_map_of_conv_image_fst distinct_card length_map set_map)

section \<open>Panics and results\<close>

datatype panic = Overflow | AssertFailed | ExpectFailed | OutOfRange

type_synonym 'a checked = "panic + 'a"

text \<open>Subtraction on \<open>usize\<close> and \<open>u64\<close> under overflow checks.\<close>

definition checked_sub :: "nat \<Rightarrow> nat \<Rightarrow> nat checked" where
  "checked_sub a b = (if b \<le> a then Inr (a - b) else Inl Overflow)"

lemma checked_sub_Inr [simp]: "b \<le> a \<Longrightarrow> checked_sub a b = Inr (a - b)"
  by (simp add: checked_sub_def)

lemma checked_sub_Inl [simp]: "a < b \<Longrightarrow> checked_sub a b = Inl Overflow"
  by (simp add: checked_sub_def)

text \<open>The \<open>?\<close> operator: continue with the value or return the error.\<close>

definition rbind :: "'e + 'a \<Rightarrow> ('a \<Rightarrow> 'e + 'b) \<Rightarrow> 'e + 'b" where
  "rbind r f = (case r of Inl e \<Rightarrow> Inl e | Inr x \<Rightarrow> f x)"

lemma rbind_simps [simp]: "rbind (Inl e) f = Inl e" "rbind (Inr x) f = f x"
  by (simp_all add: rbind_def)

lemma rbind_Inr_iff: "rbind r f = Inr y \<longleftrightarrow> (\<exists>x. r = Inr x \<and> f x = Inr y)"
  by (cases r) simp_all

lemma rbind_Inl_iff: "rbind r f = Inl e \<longleftrightarrow> r = Inl e \<or> (\<exists>x. r = Inr x \<and> f x = Inl e)"
  by (cases r) simp_all

section \<open>Components and their invariants\<close>

locale component =
  fixes is_init :: "'s \<Rightarrow> bool"
    and step :: "'op \<Rightarrow> 's \<Rightarrow> 's"
    and inv :: "'s \<Rightarrow> bool"
  assumes init_inv: "is_init s \<Longrightarrow> inv s"
    and step_inv: "inv s \<Longrightarrow> inv (step x s)"
begin

lemma run_inv: "inv s \<Longrightarrow> inv (fold step xs s)"
  by (induction xs arbitrary: s) (simp_all add: step_inv)

lemma reachable_inv: "is_init s \<Longrightarrow> inv (fold step xs s)"
  by (rule run_inv) (rule init_inv)

end

end
