(* ===== verification/Wantlist.thy ===== *)
theory Wantlist
  imports Ipfs_Prelude
begin

text \<open>
  The client wantlist (\<open>client/wantlist.rs\<close>) and the two server ledgers built on it
  (\<open>server/ledger.rs\<close>, \<open>server/peer_ledger.rs\<close>).

  A wantlist is a hash map from cids to entries and a cache of its entries sorted by
  descending priority. The cache is filled by \<open>entries\<close> and must be cleared by every
  operation that changes the map; \<open>Wantlist_inv\<close> states that agreement. The abstract
  contract of the wantlist is the map itself with one rule for adding: a want-block replaces a
  want-have, and nothing replaces a want-block. The locale \<open>want_store\<close> is that contract,
  the ledger's lemmas are proved from it.
\<close>

section \<open>Data\<close>

datatype WantType = WantType_Block | WantType_Have

record 'cid Entry =
  e_cid :: 'cid
  e_priority :: int
  e_want_type :: WantType

definition Entry_new :: "'cid \<Rightarrow> int \<Rightarrow> WantType \<Rightarrow> 'cid Entry" where
  "Entry_new c p t = \<lparr>e_cid = c, e_priority = p, e_want_type = t\<rparr>"

record 'cid Wantlist =
  wl_set :: "('cid, 'cid Entry) hmap"
  wl_cached :: "'cid Entry list"

definition Wantlist_default :: "'cid Wantlist" where
  "Wantlist_default = \<lparr>wl_set = [], wl_cached = []\<rparr>"

section \<open>Operations\<close>

definition Wantlist_len :: "'cid Wantlist \<Rightarrow> nat" where
  "Wantlist_len wl = length (wl_set wl)"

definition Wantlist_is_empty :: "'cid Wantlist \<Rightarrow> bool" where
  "Wantlist_is_empty wl \<longleftrightarrow> wl_set wl = []"

definition Wantlist_clear :: "'cid Wantlist \<Rightarrow> 'cid Wantlist" where
  "Wantlist_clear wl = wl\<lparr>wl_set := [], wl_cached := []\<rparr>"

definition Wantlist_add ::
  "'cid \<Rightarrow> int \<Rightarrow> WantType \<Rightarrow> 'cid Wantlist \<Rightarrow> bool \<times> 'cid Wantlist" where
  "Wantlist_add c p t wl =
     (case map_of (wl_set wl) c of
        None \<Rightarrow>
          (True, wl\<lparr>wl_cached := [], wl_set := AList.update c (Entry_new c p t) (wl_set wl)\<rparr>)
      | Some e \<Rightarrow>
          (if e_want_type e = WantType_Block \<or> t = WantType_Have then (False, wl)
           else (True, wl\<lparr>wl_set := AList.update c (Entry_new c p t) (wl_set wl), wl_cached := []\<rparr>)))"

definition Wantlist_remove :: "'cid \<Rightarrow> 'cid Wantlist \<Rightarrow> 'cid Entry option \<times> 'cid Wantlist" where
  "Wantlist_remove c wl =
     (map_of (wl_set wl) c, wl\<lparr>wl_cached := [], wl_set := AList.delete c (wl_set wl)\<rparr>)"

definition Wantlist_get :: "'cid Wantlist \<Rightarrow> 'cid \<Rightarrow> 'cid Entry option" where
  "Wantlist_get wl c = map_of (wl_set wl) c"

definition Wantlist_contains :: "'cid Wantlist \<Rightarrow> 'cid \<Rightarrow> bool" where
  "Wantlist_contains wl c \<longleftrightarrow> map_of (wl_set wl) c \<noteq> None"

definition Wantlist_remove_type ::
  "'cid \<Rightarrow> WantType \<Rightarrow> 'cid Wantlist \<Rightarrow> 'cid Entry option \<times> 'cid Wantlist" where
  "Wantlist_remove_type c t wl =
     (case map_of (wl_set wl) c of
        None \<Rightarrow> (None, wl)
      | Some e \<Rightarrow>
          (if e_want_type e = WantType_Block \<and> t = WantType_Have then (None, wl)
           else (Some e, wl\<lparr>wl_cached := [], wl_set := AList.delete c (wl_set wl)\<rparr>)))"

text \<open>
  \<open>sort_by_cached_key\<close> is a stable sort, as \<^const>\<open>sort_key\<close> is. The method returns the
  (possibly just rebuilt) cache and the wantlist that now holds it.
\<close>

definition Wantlist_entries :: "'cid Wantlist \<Rightarrow> 'cid Entry list \<times> 'cid Wantlist" where
  "Wantlist_entries wl =
     (let wl' = (if wl_cached wl = []
                 then wl\<lparr>wl_cached := rev (sort_key e_priority (hvalues (wl_set wl)))\<rparr>
                 else wl)
      in (wl_cached wl', wl'))"

text \<open>One turn of the loop of \<open>extend\<close>, on the map of the receiving wantlist.\<close>

definition extend_one ::
  "'cid \<times> 'cid Entry \<Rightarrow> ('cid, 'cid Entry) hmap \<Rightarrow> ('cid, 'cid Entry) hmap" where
  "extend_one ce m =
     (case ce of (c, entry) \<Rightarrow>
        (case map_of m c of
           Some e \<Rightarrow>
             (if e_want_type e = WantType_Block \<or> e_want_type entry = WantType_Have then m
              else AList.update c entry m)
         | None \<Rightarrow> AList.update c entry m))"

definition Wantlist_extend :: "'cid Wantlist \<Rightarrow> 'cid Wantlist \<Rightarrow> 'cid Wantlist" where
  "Wantlist_extend other wl =
     wl\<lparr>wl_cached := [], wl_set := fold extend_one (wl_set other) (wl_set wl)\<rparr>"

section \<open>Ledger and PeerLedger\<close>

record ('cid, 'peer) Ledger =
  ld_partner :: 'peer
  ld_wantlist :: "'cid Wantlist"

definition Ledger_new :: "'peer \<Rightarrow> ('cid, 'peer) Ledger" where
  "Ledger_new p = \<lparr>ld_partner = p, ld_wantlist = Wantlist_default\<rparr>"

definition Ledger_clear_wantlist :: "('cid, 'peer) Ledger \<Rightarrow> ('cid, 'peer) Ledger" where
  "Ledger_clear_wantlist l = l\<lparr>ld_wantlist := Wantlist_clear (ld_wantlist l)\<rparr>"

definition Ledger_wants ::
  "'cid \<Rightarrow> int \<Rightarrow> WantType \<Rightarrow> ('cid, 'peer) Ledger \<Rightarrow> ('cid, 'peer) Ledger" where
  "Ledger_wants c p t l = l\<lparr>ld_wantlist := snd (Wantlist_add c p t (ld_wantlist l))\<rparr>"

definition Ledger_cancel_want ::
  "'cid \<Rightarrow> ('cid, 'peer) Ledger \<Rightarrow> 'cid Entry option \<times> ('cid, 'peer) Ledger" where
  "Ledger_cancel_want c l =
     (let (r, wl) = Wantlist_remove c (ld_wantlist l) in (r, l\<lparr>ld_wantlist := wl\<rparr>))"

definition Ledger_wantlist_get :: "('cid, 'peer) Ledger \<Rightarrow> 'cid \<Rightarrow> 'cid Entry option" where
  "Ledger_wantlist_get l c = Wantlist_get (ld_wantlist l) c"

definition Ledger_entries ::
  "('cid, 'peer) Ledger \<Rightarrow> 'cid Entry list \<times> ('cid, 'peer) Ledger" where
  "Ledger_entries l =
     (let (es, wl) = Wantlist_entries (ld_wantlist l) in (es, l\<lparr>ld_wantlist := wl\<rparr>))"

type_synonym ('cid, 'peer) PeerLedger = "('cid, 'peer set) hmap"

definition PeerLedger_wants ::
  "'peer \<Rightarrow> 'cid \<Rightarrow> ('cid, 'peer) PeerLedger \<Rightarrow> ('cid, 'peer) PeerLedger" where
  "PeerLedger_wants p c cids = hmodify c {} (insert p) cids"

definition PeerLedger_cancel_want ::
  "'peer \<Rightarrow> 'cid \<Rightarrow> ('cid, 'peer) PeerLedger \<Rightarrow> ('cid, 'peer) PeerLedger" where
  "PeerLedger_cancel_want p c cids =
     (case map_of cids c of
        None \<Rightarrow> cids
      | Some peers \<Rightarrow>
          (let peers' = peers - {p}
           in if peers' = {} then AList.delete c cids else AList.update c peers' cids))"

definition PeerLedger_peers :: "('cid, 'peer) PeerLedger \<Rightarrow> 'cid \<Rightarrow> 'peer set option" where
  "PeerLedger_peers cids c = map_of cids c"

section \<open>Invariant\<close>

definition desc_by_priority :: "'cid Entry list \<Rightarrow> bool" where
  "desc_by_priority es \<longleftrightarrow> sorted_wrt (\<lambda>a b. e_priority b \<le> e_priority a) es"

definition keyed :: "('cid, 'cid Entry) hmap \<Rightarrow> bool" where
  "keyed m \<longleftrightarrow> (\<forall>c e. map_of m c = Some e \<longrightarrow> e_cid e = c)"

definition Wantlist_inv :: "'cid Wantlist \<Rightarrow> bool" where
  "Wantlist_inv wl \<longleftrightarrow>
     hmap_ok (wl_set wl) \<and> keyed (wl_set wl) \<and>
     (wl_cached wl = [] \<or>
      desc_by_priority (wl_cached wl) \<and> mset (wl_cached wl) = mset (hvalues (wl_set wl)))"

lemma desc_rev_sort_key: "desc_by_priority (rev (sort_key e_priority es))"
proof -
  have "sorted_wrt (\<le>) (map e_priority (sort_key e_priority es))"
    by (rule sorted_sort_key)
  then show ?thesis
    by (simp add: desc_by_priority_def sorted_wrt_rev sorted_wrt_map)
qed

lemma Wantlist_inv_cleared:
  "Wantlist_inv (wl\<lparr>wl_cached := [], wl_set := m\<rparr>) \<longleftrightarrow> hmap_ok m \<and> keyed m"
  "Wantlist_inv (wl\<lparr>wl_set := m, wl_cached := []\<rparr>) \<longleftrightarrow> hmap_ok m \<and> keyed m"
  by (simp_all add: Wantlist_inv_def)

lemma Wantlist_invD: "Wantlist_inv wl \<Longrightarrow> hmap_ok (wl_set wl)" "Wantlist_inv wl \<Longrightarrow> keyed (wl_set wl)"
  by (simp_all add: Wantlist_inv_def)

lemma keyed_update: "keyed m \<Longrightarrow> e_cid e = c \<Longrightarrow> keyed (AList.update c e m)"
  by (simp add: keyed_def)

lemma keyed_delete: "keyed m \<Longrightarrow> keyed (AList.delete c m)"
  by (simp add: keyed_def)

lemma Wantlist_inv_default [simp]: "Wantlist_inv Wantlist_default"
  by (simp add: Wantlist_inv_def Wantlist_default_def keyed_def)

lemma Wantlist_inv_clear: "Wantlist_inv (Wantlist_clear wl)"
  by (simp add: Wantlist_inv_def Wantlist_clear_def keyed_def)

lemma Wantlist_inv_add: "Wantlist_inv wl \<Longrightarrow> Wantlist_inv (snd (Wantlist_add c p t wl))"
  using Wantlist_invD [of wl]
  by (simp add: Wantlist_add_def Wantlist_inv_cleared Entry_new_def keyed_update split: option.split)

lemma Wantlist_inv_remove: "Wantlist_inv wl \<Longrightarrow> Wantlist_inv (snd (Wantlist_remove c wl))"
  using Wantlist_invD [of wl] by (simp add: Wantlist_remove_def Wantlist_inv_cleared keyed_delete)

lemma Wantlist_inv_remove_type:
  "Wantlist_inv wl \<Longrightarrow> Wantlist_inv (snd (Wantlist_remove_type c t wl))"
  using Wantlist_invD [of wl]
  by (simp add: Wantlist_remove_type_def Wantlist_inv_cleared keyed_delete split: option.split)

lemma Wantlist_inv_entries: "Wantlist_inv wl \<Longrightarrow> Wantlist_inv (snd (Wantlist_entries wl))"
  by (auto simp: Wantlist_inv_def Wantlist_entries_def desc_rev_sort_key)

lemma extend_one_ok:
  "hmap_ok m \<and> keyed m \<Longrightarrow> e_cid e = c \<Longrightarrow> hmap_ok (extend_one (c, e) m) \<and> keyed (extend_one (c, e) m)"
  by (simp add: extend_one_def keyed_update split: option.split)

lemma fold_extend_ok:
  "hmap_ok m \<and> keyed m \<Longrightarrow> \<forall>(c, e) \<in> set ces. e_cid e = c \<Longrightarrow>
   hmap_ok (fold extend_one ces m) \<and> keyed (fold extend_one ces m)"
proof (induction ces arbitrary: m)
  case (Cons ce ces)
  obtain c e where ce: "ce = (c, e)" by (cases ce)
  with Cons.prems have "hmap_ok (extend_one ce m) \<and> keyed (extend_one ce m)"
    by (simp add: extend_one_ok)
  then show ?case using Cons.IH Cons.prems(2) by simp
qed simp

lemma Wantlist_inv_extend:
  assumes "Wantlist_inv wl" and "Wantlist_inv other"
  shows "Wantlist_inv (Wantlist_extend other wl)"
proof -
  have "\<forall>(c, e) \<in> set (wl_set other). e_cid e = c"
    using Wantlist_invD [OF assms(2)] by (auto simp: keyed_def set_hmap_ok)
  with Wantlist_invD [OF assms(1)] show ?thesis
    by (simp add: Wantlist_extend_def Wantlist_inv_cleared fold_extend_ok)
qed

subsection \<open>Operation sequences\<close>

text \<open>
  The operations of the wantlist as data. The argument of \<open>extend\<close> is itself a wantlist
  made by operations.
\<close>

datatype 'cid wl_op =
    WlClear
  | WlAdd 'cid int WantType
  | WlRemove 'cid
  | WlRemoveType 'cid WantType
  | WlEntries
  | WlExtend "'cid wl_op list"

fun wl_step :: "'cid wl_op \<Rightarrow> 'cid Wantlist \<Rightarrow> 'cid Wantlist" where
  "wl_step WlClear wl = Wantlist_clear wl"
| "wl_step (WlAdd c p t) wl = snd (Wantlist_add c p t wl)"
| "wl_step (WlRemove c) wl = snd (Wantlist_remove c wl)"
| "wl_step (WlRemoveType c t) wl = snd (Wantlist_remove_type c t wl)"
| "wl_step WlEntries wl = snd (Wantlist_entries wl)"
| "wl_step (WlExtend ops) wl = Wantlist_extend (fold wl_step ops Wantlist_default) wl"

lemma fold_inv_all:
  "(\<And>x s. x \<in> set xs \<Longrightarrow> P s \<Longrightarrow> P (f x s)) \<Longrightarrow> P s \<Longrightarrow> P (fold f xs s)"
  by (induction xs arbitrary: s) simp_all

lemma wl_step_inv: "Wantlist_inv wl \<Longrightarrow> Wantlist_inv (wl_step x wl)"
proof (induction x wl rule: wl_step.induct)
  case (6 ops wl)
  have "Wantlist_inv (fold wl_step ops Wantlist_default)"
    by (rule fold_inv_all) (use 6 in auto)
  with 6 show ?case by (simp add: Wantlist_inv_extend)
qed (simp_all add: Wantlist_inv_clear Wantlist_inv_add Wantlist_inv_remove
      Wantlist_inv_remove_type Wantlist_inv_entries)

interpretation wl: component "\<lambda>w. w = Wantlist_default" wl_step Wantlist_inv
  by unfold_locales (simp_all add: wl_step_inv)

section \<open>The contract of the wantlist\<close>

text \<open>What is stored when an entry \<open>new\<close> is offered where \<open>old\<close> is stored.\<close>

definition want_join :: "'cid Entry option \<Rightarrow> 'cid Entry option \<Rightarrow> 'cid Entry option" where
  "want_join old new =
     (case (old, new) of
        (None, _) \<Rightarrow> new
      | (Some e, None) \<Rightarrow> Some e
      | (Some e, Some e') \<Rightarrow>
          (if e_want_type e = WantType_Block \<or> e_want_type e' = WantType_Have then Some e else Some e'))"

lemma want_join_simps [simp]: "want_join None n = n" "want_join old None = old"
  by (simp_all add: want_join_def split: option.split)

lemma not_Block_iff: "t \<noteq> WantType_Block \<longleftrightarrow> t = WantType_Have"
  by (cases t) simp_all

text \<open>
  The interface a ledger uses: a store of wants with lookup, add and remove. The three laws say
  what a lookup returns after each operation.
\<close>

locale want_store =
  fixes get :: "'w \<Rightarrow> 'cid \<Rightarrow> 'cid Entry option"
    and add :: "'cid \<Rightarrow> int \<Rightarrow> WantType \<Rightarrow> 'w \<Rightarrow> 'w"
    and remove :: "'cid \<Rightarrow> 'w \<Rightarrow> 'w"
  assumes get_add: "get (add c p t w) = (get w)(c := want_join (get w c) (Some (Entry_new c p t)))"
    and get_remove: "get (remove c w) = (get w)(c := None)"
begin

abbreviation type_of :: "'w \<Rightarrow> 'cid \<Rightarrow> WantType option" where
  "type_of w c \<equiv> map_option e_want_type (get w c)"

lemma type_of_add:
  "type_of (add c p t w) c' =
     (if c' = c then Some (if type_of w c = Some WantType_Block then WantType_Block else t)
      else type_of w c')"
  by (cases t) (auto simp: get_add want_join_def Entry_new_def not_Block_iff split: option.splits)

lemma type_of_adds:
  "type_of (fold (\<lambda>(c, p, t). add c p t) ws w) c =
     (if type_of w c = Some WantType_Block \<or> (\<exists>p. (c, p, WantType_Block) \<in> set ws) then Some WantType_Block
      else if \<exists>p. (c, p, WantType_Have) \<in> set ws then Some WantType_Have
      else type_of w c)"
proof (induction ws arbitrary: w)
  case (Cons x ws)
  obtain c' p t where x: "x = (c', p, t)" by (cases x)
  show ?case
    by (cases t) (auto simp: x Cons.IH type_of_add)
qed simp

lemma block_until_removed:
  "type_of w c = Some WantType_Block \<Longrightarrow>
   get (fold (\<lambda>(c, p, t). add c p t) ws w) c = get w c"
proof (induction ws arbitrary: w)
  case (Cons x ws)
  obtain c' p t where x: "x = (c', p, t)" by (cases x)
  from Cons.prems have "get (add c' p t w) c = get w c"
    by (auto simp: get_add want_join_def split: option.splits)
  then show ?case using Cons by (simp add: x)
qed simp

end

lemma Wantlist_get_add:
  "Wantlist_get (snd (Wantlist_add c p t wl)) =
   (Wantlist_get wl)(c := want_join (Wantlist_get wl c) (Some (Entry_new c p t)))"
  by (auto simp: Wantlist_get_def Wantlist_add_def want_join_def Entry_new_def fun_eq_iff split: option.split)

lemma Wantlist_get_remove:
  "Wantlist_get (snd (Wantlist_remove c wl)) = (Wantlist_get wl)(c := None)"
  by (simp add: Wantlist_get_def Wantlist_remove_def fun_eq_iff)

interpretation wls: want_store Wantlist_get "\<lambda>c p t w. snd (Wantlist_add c p t w)"
  "\<lambda>c w. snd (Wantlist_remove c w)"
  by unfold_locales (rule Wantlist_get_add Wantlist_get_remove)+

interpretation lds: want_store Ledger_wantlist_get Ledger_wants "\<lambda>c l. snd (Ledger_cancel_want c l)"
  by unfold_locales
    (simp_all add: Ledger_wantlist_get_def Ledger_wants_def Ledger_cancel_want_def
      Wantlist_get_add Wantlist_get_remove case_prod_unfold Let_def fun_eq_iff)

lemma extend_one_get:
  "map_of (extend_one (c, e) m) = (map_of m)(c := want_join (map_of m c) (Some e))"
  by (auto simp: extend_one_def want_join_def fun_eq_iff split: option.split)

lemma fold_extend_get:
  "hmap_ok ces \<Longrightarrow> map_of (fold extend_one ces m) c = want_join (map_of m c) (map_of ces c)"
proof (induction ces arbitrary: m)
  case (Cons ce ces)
  obtain c' e where ce: "ce = (c', e)" by (cases ce)
  with Cons.prems have "map_of ces c' = None" "hmap_ok ces"
    by (simp_all add: map_of_eq_None_iff)
  then show ?case by (simp add: ce Cons.IH extend_one_get)
qed simp

lemma Wantlist_entries_contract:
  assumes "Wantlist_inv wl"
  shows "desc_by_priority (fst (Wantlist_entries wl))"
    and "mset (fst (Wantlist_entries wl)) = mset (hvalues (wl_set wl))"
    and "wl_set (snd (Wantlist_entries wl)) = wl_set wl"
  using assms by (auto simp: Wantlist_inv_def Wantlist_entries_def desc_rev_sort_key)

section \<open>Properties\<close>

text \<open>C17: After any sequence of operations on a fresh wantlist, \<open>entries\<close> returns the entries of
  the map, each once, in descending order of priority: the cache is never stale.\<close>

theorem wantlist_entries_correct:
  "let wl = fold wl_step ops Wantlist_default
   in desc_by_priority (fst (Wantlist_entries wl)) \<and>
      mset (fst (Wantlist_entries wl)) = mset (hvalues (wl_set wl))"
  unfolding Let_def
  using Wantlist_entries_contract (1,2) [OF wl.reachable_inv [OF refl, of ops]] by (rule conjI)

text \<open>C21: Merging one wantlist into another gives, for every cid, the join of the two
  entries: the other list's entry is taken where this list has none or upgrades its want-have to a
  want-block, and a want-block is never replaced.\<close>

theorem wantlist_extend_join:
  "let wl = fold wl_step ops Wantlist_default; other = fold wl_step ops' Wantlist_default
   in Wantlist_get (Wantlist_extend other wl) c = want_join (Wantlist_get wl c) (Wantlist_get other c)"
  using wl.reachable_inv [of Wantlist_default ops']
  by (simp add: Let_def Wantlist_get_def Wantlist_extend_def fold_extend_get Wantlist_invD)

text \<open>A ledger that receives a list of wants records for each cid a want-block if any of the
  wants for it is a want-block, a want-have if it was only wanted that way, and nothing if it was not
  wanted: the order in which wants arrive does not matter.\<close>

theorem ledger_wants_type:
  "map_option e_want_type
     (Ledger_wantlist_get (fold (\<lambda>(c, p, t). Ledger_wants c p t) ws (Ledger_new q)) c) =
   (if \<exists>p. (c, p, WantType_Block) \<in> set ws then Some WantType_Block
    else if \<exists>p. (c, p, WantType_Have) \<in> set ws then Some WantType_Have
    else None)"
  by (simp add: lds.type_of_adds)
    (simp add: Ledger_wantlist_get_def Ledger_new_def Wantlist_get_def Wantlist_default_def)

section \<open>The index of wanting peers\<close>

datatype ('cid, 'peer) pl_op = PlWants 'peer 'cid | PlCancel 'peer 'cid

fun pl_step :: "('cid, 'peer) pl_op \<Rightarrow> ('cid, 'peer) PeerLedger \<Rightarrow> ('cid, 'peer) PeerLedger" where
  "pl_step (PlWants p c) l = PeerLedger_wants p c l"
| "pl_step (PlCancel p c) l = PeerLedger_cancel_want p c l"

definition PeerLedger_inv :: "('cid, 'peer) PeerLedger \<Rightarrow> bool" where
  "PeerLedger_inv l \<longleftrightarrow> hmap_ok l \<and> (\<forall>c ps. map_of l c = Some ps \<longrightarrow> ps \<noteq> {})"

definition pl_wanting :: "('cid, 'peer) PeerLedger \<Rightarrow> 'cid \<Rightarrow> 'peer set" where
  "pl_wanting l c = (case PeerLedger_peers l c of None \<Rightarrow> {} | Some ps \<Rightarrow> ps)"

lemma pl_step_inv: "PeerLedger_inv l \<Longrightarrow> PeerLedger_inv (pl_step x l)"
  by (cases x)
    (auto simp: PeerLedger_inv_def PeerLedger_wants_def PeerLedger_cancel_want_def Let_def
      split: option.split if_splits)

interpretation pl: component "\<lambda>l. l = []" pl_step PeerLedger_inv
  by unfold_locales (simp_all add: pl_step_inv, simp add: PeerLedger_inv_def)

text \<open>Whether the last operation on a peer and a cid was a want.\<close>

fun pl_last_wants :: "'peer \<Rightarrow> 'cid \<Rightarrow> ('cid, 'peer) pl_op list \<Rightarrow> bool \<Rightarrow> bool" where
  "pl_last_wants p c [] b = b"
| "pl_last_wants p c (PlWants p' c' # xs) b = pl_last_wants p c xs (c = c' \<and> p = p' \<or> b)"
| "pl_last_wants p c (PlCancel p' c' # xs) b = pl_last_wants p c xs (b \<and> \<not> (c = c' \<and> p = p'))"

lemma pl_wanting_step:
  "pl_wanting (pl_step (PlWants p' c') l) c = (if c = c' then insert p' (pl_wanting l c) else pl_wanting l c)"
  "pl_wanting (pl_step (PlCancel p' c') l) c = (if c = c' then pl_wanting l c - {p'} else pl_wanting l c)"
  by (auto simp: pl_wanting_def PeerLedger_peers_def PeerLedger_wants_def PeerLedger_cancel_want_def Let_def
      split: option.splits)

lemma pl_wanting_run: "p \<in> pl_wanting (fold pl_step xs l) c \<longleftrightarrow> pl_last_wants p c xs (p \<in> pl_wanting l c)"
proof (induction xs arbitrary: l)
  case (Cons x xs)
  show ?case by (cases x) (auto simp: Cons.IH pl_wanting_step simp del: pl_step.simps)
qed simp

text \<open>C22: After any sequence of wants and cancels the peer ledger lists a peer under a cid
  exactly when the last of its operations on that cid was a want, and it keeps an entry for a
  cid only while some peer wants it.\<close>

theorem peer_ledger_correct:
  "let l = fold pl_step xs []
   in (p \<in> pl_wanting l c \<longleftrightarrow> pl_last_wants p c xs False) \<and> PeerLedger_peers l c \<noteq> Some {}"
  using pl.reachable_inv [of "[]" xs]
  by (simp add: Let_def pl_wanting_run)
    (auto simp: pl_wanting_def PeerLedger_peers_def PeerLedger_inv_def)

end
