(* ===== verification/Session_Wants.thy ===== *)
theory Session_Wants
  imports Ipfs_Prelude
begin

text \<open>
  The wants of one bitswap session: the queue of cids not yet sent out
  (\<open>client/session/cid_queue.rs\<close>), the wants that are pending or live
  (\<open>client/session/session_wants.rs\<close>) and the record of want-blocks sent to peers
  (\<open>client/session/sent_want_blocks_tracker.rs\<close>).

  Times are natural numbers; each operation that reads the clock takes the current time as an
  argument. \<open>Instant\<close> subtraction saturates at zero, as subtraction on \<^typ>\<open>nat\<close> does. The two
  subtractions on \<open>usize\<close> are checked.
\<close>

section \<open>CidQueue\<close>

record 'cid CidQueue =
  cq_elements :: "'cid list"
  cq_set :: "'cid set"

definition CidQueue_default :: "'cid CidQueue" where
  "CidQueue_default = \<lparr>cq_elements = [], cq_set = {}\<rparr>"

text \<open>The loop of \<open>pop\<close>: drop elements removed from the set, return the first that is still there.\<close>

fun pop_loop :: "'cid set \<Rightarrow> 'cid list \<Rightarrow> 'cid option \<times> 'cid list" where
  "pop_loop S [] = (None, [])"
| "pop_loop S (el # els) = (if el \<in> S then (Some el, els) else pop_loop S els)"

definition CidQueue_pop :: "'cid CidQueue \<Rightarrow> 'cid option \<times> 'cid CidQueue" where
  "CidQueue_pop q =
     (let (r, els) = pop_loop (cq_set q) (cq_elements q) in (r, q\<lparr>cq_elements := els\<rparr>))"

definition CidQueue_cids :: "'cid CidQueue \<Rightarrow> 'cid list \<times> 'cid CidQueue" where
  "CidQueue_cids q =
     (let els = filter (\<lambda>el. el \<in> cq_set q) (cq_elements q) in (els, q\<lparr>cq_elements := els\<rparr>))"

definition CidQueue_push :: "'cid \<Rightarrow> 'cid CidQueue \<Rightarrow> 'cid CidQueue" where
  "CidQueue_push c q =
     (if c \<in> cq_set q then q
      else q\<lparr>cq_set := insert c (cq_set q), cq_elements := cq_elements q @ [c]\<rparr>)"

definition CidQueue_remove :: "'cid \<Rightarrow> 'cid CidQueue \<Rightarrow> 'cid CidQueue" where
  "CidQueue_remove c q = q\<lparr>cq_set := cq_set q - {c}\<rparr>"

definition CidQueue_has :: "'cid CidQueue \<Rightarrow> 'cid \<Rightarrow> bool" where
  "CidQueue_has q c \<longleftrightarrow> c \<in> cq_set q"

definition CidQueue_len :: "'cid CidQueue \<Rightarrow> nat" where
  "CidQueue_len q = card (cq_set q)"

section \<open>SessionWants\<close>

definition LIVE_WANTS_ORDER_GC_LIMIT :: nat where
  "LIVE_WANTS_ORDER_GC_LIMIT = 32"

record 'cid SessionWants =
  sw_to_fetch :: "'cid CidQueue"
  sw_live_wants :: "('cid, nat) hmap"
  sw_live_wants_order :: "'cid list"
  sw_broadcast_limit :: nat

definition SessionWants_new :: "nat \<Rightarrow> 'cid SessionWants" where
  "SessionWants_new limit =
     \<lparr>sw_to_fetch = CidQueue_default, sw_live_wants = [], sw_live_wants_order = [],
      sw_broadcast_limit = limit\<rparr>"

definition SessionWants_blocks_requested :: "'cid list \<Rightarrow> 'cid SessionWants \<Rightarrow> 'cid SessionWants" where
  "SessionWants_blocks_requested new_wants s =
     s\<lparr>sw_to_fetch := fold CidQueue_push new_wants (sw_to_fetch s)\<rparr>"

text \<open>The wants move from the queue to the live wants: at most \<open>n\<close> turns of the loop.\<close>

fun next_wants_loop ::
  "nat \<Rightarrow> nat \<Rightarrow> 'cid set \<Rightarrow> 'cid SessionWants \<Rightarrow> 'cid set \<times> 'cid SessionWants" where
  "next_wants_loop now 0 live s = (live, s)"
| "next_wants_loop now (Suc n) live s =
     (case CidQueue_pop (sw_to_fetch s) of
        (Some c, q) \<Rightarrow>
          next_wants_loop now n (insert c live)
            (s\<lparr>sw_to_fetch := q, sw_live_wants_order := sw_live_wants_order s @ [c],
               sw_live_wants := AList.update c now (sw_live_wants s)\<rparr>)
      | (None, q) \<Rightarrow> (live, s\<lparr>sw_to_fetch := q\<rparr>))"

definition SessionWants_get_next_wants ::
  "nat \<Rightarrow> 'cid SessionWants \<Rightarrow> ('cid set \<times> 'cid SessionWants) checked" where
  "SessionWants_get_next_wants now s =
     rbind (checked_sub (sw_broadcast_limit s) (length (sw_live_wants s)))
       (\<lambda>to_add. Inr (next_wants_loop now to_add {} s))"

definition wants_sent_one :: "nat \<Rightarrow> 'cid \<Rightarrow> 'cid SessionWants \<Rightarrow> 'cid SessionWants" where
  "wants_sent_one now key s =
     (if map_of (sw_live_wants s) key = None \<and> CidQueue_has (sw_to_fetch s) key
      then s\<lparr>sw_to_fetch := CidQueue_remove key (sw_to_fetch s),
             sw_live_wants_order := sw_live_wants_order s @ [key],
             sw_live_wants := AList.update key now (sw_live_wants s)\<rparr>
      else s)"

definition SessionWants_wants_sent :: "nat \<Rightarrow> 'cid list \<Rightarrow> 'cid SessionWants \<Rightarrow> 'cid SessionWants" where
  "SessionWants_wants_sent now keys s = fold (wants_sent_one now) keys s"

definition SessionWants_is_wanted :: "'cid SessionWants \<Rightarrow> 'cid \<Rightarrow> bool" where
  "SessionWants_is_wanted s key =
     (if map_of (sw_live_wants s) key = None then CidQueue_has (sw_to_fetch s) key else True)"

text \<open>The loop of \<open>blocks_received\<close>: the wanted keys and the total latency so far.\<close>

fun blocks_received_loop ::
  "nat \<Rightarrow> 'cid list \<Rightarrow> 'cid list \<Rightarrow> nat \<Rightarrow> 'cid SessionWants \<Rightarrow> 'cid list \<times> nat \<times> 'cid SessionWants"
where
  "blocks_received_loop now [] wanted latency s = (wanted, latency, s)"
| "blocks_received_loop now (key # keys) wanted latency s =
     (if SessionWants_is_wanted s key
      then blocks_received_loop now keys (wanted @ [key])
             (case map_of (sw_live_wants s) key of
                Some sent_at \<Rightarrow> latency + (now - sent_at) | None \<Rightarrow> latency)
             (s\<lparr>sw_live_wants := AList.delete key (sw_live_wants s),
                sw_to_fetch := CidQueue_remove key (sw_to_fetch s)\<rparr>)
      else blocks_received_loop now keys wanted latency s)"

definition SessionWants_blocks_received ::
  "nat \<Rightarrow> 'cid list \<Rightarrow> 'cid SessionWants \<Rightarrow> (('cid list \<times> nat) \<times> 'cid SessionWants) checked" where
  "SessionWants_blocks_received now keys s =
     (case blocks_received_loop now keys [] 0 s of
        (wanted, latency, s1) \<Rightarrow>
          rbind (checked_sub (length (sw_live_wants_order s1)) (length (sw_live_wants s1)))
            (\<lambda>d. Inr ((wanted, latency),
               if d > LIVE_WANTS_ORDER_GC_LIMIT
               then s1\<lparr>sw_live_wants_order :=
                        filter (\<lambda>key. map_of (sw_live_wants s1) key \<noteq> None) (sw_live_wants_order s1)\<rparr>
               else s1)))"

fun prepare_broadcast_loop ::
  "nat \<Rightarrow> nat \<Rightarrow> 'cid list \<Rightarrow> 'cid set \<Rightarrow> ('cid, nat) hmap \<Rightarrow> 'cid set \<times> ('cid, nat) hmap" where
  "prepare_broadcast_loop now limit [] live m = (live, m)"
| "prepare_broadcast_loop now limit (key # keys) live m =
     (case map_of m key of
        None \<Rightarrow> prepare_broadcast_loop now limit keys live m
      | Some _ \<Rightarrow>
          (let m' = AList.update key now m; live' = insert key live
           in if card live' = limit then (live', m')
              else prepare_broadcast_loop now limit keys live' m'))"

definition SessionWants_prepare_broadcast ::
  "nat \<Rightarrow> 'cid SessionWants \<Rightarrow> 'cid set \<times> 'cid SessionWants" where
  "SessionWants_prepare_broadcast now s =
     (let (live, m) = prepare_broadcast_loop now (sw_broadcast_limit s) (sw_live_wants_order s) {}
                        (sw_live_wants s)
      in (live, s\<lparr>sw_live_wants := m\<rparr>))"

definition SessionWants_cancel_pending :: "'cid list \<Rightarrow> 'cid SessionWants \<Rightarrow> 'cid SessionWants" where
  "SessionWants_cancel_pending keys s = s\<lparr>sw_to_fetch := fold CidQueue_remove keys (sw_to_fetch s)\<rparr>"

text \<open>The random index is an argument; the generator draws it below the number of live wants.\<close>

definition SessionWants_random_live_want :: "nat \<Rightarrow> 'cid SessionWants \<Rightarrow> 'cid option" where
  "SessionWants_random_live_want i s =
     (if sw_live_wants s = [] then None
      else if i < length (sw_live_wants s) then Some (hkeys (sw_live_wants s) ! i) else None)"

definition SessionWants_has_live_wants :: "'cid SessionWants \<Rightarrow> bool" where
  "SessionWants_has_live_wants s \<longleftrightarrow> sw_live_wants s \<noteq> []"

section \<open>SentWantBlocksTracker\<close>

type_synonym ('cid, 'peer) SentWantBlocksTracker = "('peer, 'cid set) hmap"

definition SentWantBlocksTracker_add_sent_want_blocks_to ::
  "'peer \<Rightarrow> 'cid list \<Rightarrow> ('cid, 'peer) SentWantBlocksTracker \<Rightarrow> ('cid, 'peer) SentWantBlocksTracker" where
  "SentWantBlocksTracker_add_sent_want_blocks_to peer keys t = hmodify peer {} (fold insert keys) t"

definition SentWantBlocksTracker_have_sent_want_block_to ::
  "('cid, 'peer) SentWantBlocksTracker \<Rightarrow> 'peer \<Rightarrow> 'cid \<Rightarrow> bool" where
  "SentWantBlocksTracker_have_sent_want_block_to t peer c =
     (case map_of t peer of None \<Rightarrow> False | Some cids \<Rightarrow> c \<in> cids)"

section \<open>The contract of the fetch queue\<close>

text \<open>
  What the session relies on: membership after each operation, and that \<open>pop\<close> returns a
  member. Membership is not changed by \<open>pop\<close>.
\<close>

locale fetch_queue =
  fixes push :: "'cid \<Rightarrow> 'q \<Rightarrow> 'q"
    and pop :: "'q \<Rightarrow> 'cid option \<times> 'q"
    and remove :: "'cid \<Rightarrow> 'q \<Rightarrow> 'q"
    and has :: "'q \<Rightarrow> 'cid \<Rightarrow> bool"
  assumes has_push: "has (push c q) d \<longleftrightarrow> d = c \<or> has q d"
    and has_remove: "has (remove c q) d \<longleftrightarrow> d \<noteq> c \<and> has q d"
    and has_pop: "has (snd (pop q)) d \<longleftrightarrow> has q d"
    and pop_has: "fst (pop q) = Some c \<Longrightarrow> has q c"
begin

lemma has_pushes: "has (fold push cs q) d \<longleftrightarrow> d \<in> set cs \<or> has q d"
  by (induction cs arbitrary: q) (auto simp: has_push)

lemma has_removes: "has (fold remove cs q) d \<longleftrightarrow> d \<notin> set cs \<and> has q d"
  by (induction cs arbitrary: q) (auto simp: has_remove)

end

lemma pop_loop_Some: "pop_loop S els = (Some c, els') \<Longrightarrow> c \<in> S \<and> set els' \<subseteq> set els"
  by (induction els) (auto split: if_splits)

lemma pop_loop_None: "fst (pop_loop S els) = None \<longleftrightarrow> S \<inter> set els = {}"
  by (induction els) auto

lemma CidQueue_pop_set [simp]: "cq_set (snd (CidQueue_pop q)) = cq_set q"
  by (simp add: CidQueue_pop_def split: prod.split)

interpretation cq: fetch_queue CidQueue_push CidQueue_pop CidQueue_remove CidQueue_has
proof unfold_locales
  fix q :: "'a CidQueue" and c
  assume "fst (CidQueue_pop q) = Some c"
  then show "CidQueue_has q c"
    by (auto simp: CidQueue_pop_def CidQueue_has_def split: prod.splits dest: pop_loop_Some)
qed (auto simp: CidQueue_push_def CidQueue_remove_def CidQueue_has_def)

section \<open>Reachable session states\<close>

inductive sw_reach :: "nat \<Rightarrow> 'cid SessionWants \<Rightarrow> bool" for limit where
  new: "sw_reach limit (SessionWants_new limit)"
| requested: "sw_reach limit s \<Longrightarrow> sw_reach limit (SessionWants_blocks_requested ks s)"
| next_wants: "sw_reach limit s \<Longrightarrow> SessionWants_get_next_wants now s = Inr (w, s') \<Longrightarrow> sw_reach limit s'"
| sent: "sw_reach limit s \<Longrightarrow> sw_reach limit (SessionWants_wants_sent now ks s)"
| received: "sw_reach limit s \<Longrightarrow> SessionWants_blocks_received now ks s = Inr (r, s') \<Longrightarrow> sw_reach limit s'"
| broadcast: "sw_reach limit s \<Longrightarrow> sw_reach limit (snd (SessionWants_prepare_broadcast now s))"
| cancel: "sw_reach limit s \<Longrightarrow> sw_reach limit (SessionWants_cancel_pending ks s)"

text \<open>The live wants are a well-formed map and every one of them is recorded in the order.\<close>

definition sw_inv :: "'cid SessionWants \<Rightarrow> bool" where
  "sw_inv s \<longleftrightarrow> hmap_ok (sw_live_wants s) \<and> fst ` set (sw_live_wants s) \<subseteq> set (sw_live_wants_order s)"

lemma sw_inv_alt:
  "sw_inv s \<longleftrightarrow> hmap_ok (sw_live_wants s) \<and> dom (map_of (sw_live_wants s)) \<subseteq> set (sw_live_wants_order s)"
  by (simp add: sw_inv_def dom_map_of_conv_image_fst)

lemma sw_inv_length:
  assumes "sw_inv s"
  shows "length (sw_live_wants s) \<le> length (sw_live_wants_order s)"
proof -
  have "length (sw_live_wants s) = card (dom (map_of (sw_live_wants s)))"
    using assms by (simp add: sw_inv_def length_hmap_card)
  also have "\<dots> \<le> card (set (sw_live_wants_order s))"
    using assms by (simp add: sw_inv_alt card_mono)
  also have "\<dots> \<le> length (sw_live_wants_order s)" by (rule card_length)
  finally show ?thesis .
qed

lemma sw_inv_to_fetch [simp]: "sw_inv (s\<lparr>sw_to_fetch := q\<rparr>) = sw_inv s"
  by (simp add: sw_inv_def)

lemma sw_inv_new_live:
  "sw_inv s \<Longrightarrow>
   sw_inv (s\<lparr>sw_to_fetch := q, sw_live_wants_order := sw_live_wants_order s @ [c],
     sw_live_wants := AList.update c now (sw_live_wants s)\<rparr>)"
  by (auto simp: sw_inv_alt)

lemma sw_inv_next_wants_loop: "sw_inv s \<Longrightarrow> sw_inv (snd (next_wants_loop now n live s))"
  by (induction now n live s rule: next_wants_loop.induct)
    (auto simp: sw_inv_new_live split: prod.split option.split)

lemma sw_inv_wants_sent: "sw_inv s \<Longrightarrow> sw_inv (SessionWants_wants_sent now ks s)"
  unfolding SessionWants_wants_sent_def
  by (induction ks arbitrary: s) (simp_all add: wants_sent_one_def sw_inv_new_live)

lemma sw_inv_received_one:
  "sw_inv s \<Longrightarrow> sw_inv (s\<lparr>sw_live_wants := AList.delete k (sw_live_wants s)\<rparr>)"
  by (auto simp: sw_inv_alt)

lemma sw_inv_received_loop:
  "sw_inv s \<Longrightarrow> blocks_received_loop now ks wanted lat s = (wanted', lat', s') \<Longrightarrow> sw_inv s'"
  by (induction now ks wanted lat s rule: blocks_received_loop.induct)
    (simp_all add: sw_inv_received_one split: if_splits)

lemma sw_inv_gc:
  "sw_inv s \<Longrightarrow>
   sw_inv (s\<lparr>sw_live_wants_order := filter (\<lambda>k. \<exists>t. map_of (sw_live_wants s) k = Some t) (sw_live_wants_order s)\<rparr>)"
  by (auto simp: sw_inv_alt)

lemma prepare_broadcast_loop_map:
  "prepare_broadcast_loop now limit ks live m = (live', m') \<Longrightarrow>
   (hmap_ok m \<longrightarrow> hmap_ok m') \<and> dom (map_of m') = dom (map_of m)"
  by (induction now limit ks live m rule: prepare_broadcast_loop.induct)
    (auto simp: Let_def split: option.splits if_splits)

lemma sw_inv_prepare_broadcast: "sw_inv s \<Longrightarrow> sw_inv (snd (SessionWants_prepare_broadcast now s))"
  using prepare_broadcast_loop_map
    [of now "sw_broadcast_limit s" "sw_live_wants_order s" "{}" "sw_live_wants s"]
  by (simp add: sw_inv_alt SessionWants_prepare_broadcast_def split: prod.split)

lemma sw_reach_inv: "sw_reach limit s \<Longrightarrow> sw_inv s"
proof (induction rule: sw_reach.induct)
  case new
  show ?case by (simp add: sw_inv_def SessionWants_new_def)
next
  case (next_wants s now w s')
  then show ?case
    using sw_inv_next_wants_loop [of s now]
    by (auto simp: SessionWants_get_next_wants_def rbind_Inr_iff) (metis snd_conv)
next
  case (received s now ks r s')
  then show ?case
    by (auto simp: SessionWants_blocks_received_def rbind_Inr_iff split: prod.splits if_splits
        dest: sw_inv_received_loop intro: sw_inv_gc)
next
  case (cancel s ks)
  then show ?case by (simp add: SessionWants_cancel_pending_def)
next
  case (requested s ks)
  then show ?case by (simp add: SessionWants_blocks_requested_def)
qed (simp_all add: sw_inv_wants_sent sw_inv_prepare_broadcast)

section \<open>Functional behaviour\<close>

lemma is_wanted_iff:
  "SessionWants_is_wanted s k \<longleftrightarrow> map_of (sw_live_wants s) k \<noteq> None \<or> k \<in> cq_set (sw_to_fetch s)"
  by (simp add: SessionWants_is_wanted_def CidQueue_has_def)

lemma blocks_received_loop_spec:
  "blocks_received_loop now ks wanted lat s = (wanted', lat', s') \<Longrightarrow>
   \<exists>new. wanted' = wanted @ new \<and> distinct new \<and> set new = {k \<in> set ks. SessionWants_is_wanted s k} \<and>
     (\<forall>k. SessionWants_is_wanted s' k \<longleftrightarrow> SessionWants_is_wanted s k \<and> k \<notin> set ks)"
proof (induction now ks wanted lat s rule: blocks_received_loop.induct)
  case (2 now key keys wanted latency s)
  show ?case
  proof (cases "SessionWants_is_wanted s key")
    case True
    let ?s1 = "s\<lparr>sw_live_wants := AList.delete key (sw_live_wants s),
                sw_to_fetch := CidQueue_remove key (sw_to_fetch s)\<rparr>"
    have one: "SessionWants_is_wanted ?s1 k \<longleftrightarrow> SessionWants_is_wanted s k \<and> k \<noteq> key" for k
      by (auto simp: is_wanted_iff CidQueue_remove_def)
    from 2 True obtain new where
      "wanted' = (wanted @ [key]) @ new" "distinct new"
      "set new = {k \<in> set keys. SessionWants_is_wanted ?s1 k}"
      "\<forall>k. SessionWants_is_wanted s' k \<longleftrightarrow> SessionWants_is_wanted ?s1 k \<and> k \<notin> set keys"
      by fastforce
    with True one show ?thesis by (intro exI [of _ "key # new"]) auto
  next
    case False
    with 2 show ?thesis by fastforce
  qed
qed simp

lemma is_wanted_gc [simp]:
  "SessionWants_is_wanted (s\<lparr>sw_live_wants_order := xs\<rparr>) = SessionWants_is_wanted s"
  by (simp add: is_wanted_iff fun_eq_iff)

lemma next_wants_loop_spec:
  assumes "next_wants_loop now n live s = (live', s')" and "live \<subseteq> dom (map_of (sw_live_wants s))"
  shows "length (sw_live_wants s') \<le> length (sw_live_wants s) + n \<and> live \<subseteq> live' \<and>
    live' \<subseteq> live \<union> cq_set (sw_to_fetch s) \<and>
    dom (map_of (sw_live_wants s')) = dom (map_of (sw_live_wants s)) \<union> live' \<and>
    cq_set (sw_to_fetch s') = cq_set (sw_to_fetch s)"
  using assms
proof (induction now n live s rule: next_wants_loop.induct)
  case (2 now n live s)
  obtain r q where pop: "CidQueue_pop (sw_to_fetch s) = (r, q)" by (cases "CidQueue_pop (sw_to_fetch s)")
  then have q: "cq_set q = cq_set (sw_to_fetch s)" by (metis CidQueue_pop_set snd_conv)
  show ?case
  proof (cases r)
    case None
    with 2 pop q show ?thesis by auto
  next
    case (Some c)
    have c: "c \<in> cq_set (sw_to_fetch s)"
      using cq.pop_has [of "sw_to_fetch s" c] pop Some by (simp add: CidQueue_has_def)
    define s1 where "s1 = s\<lparr>sw_to_fetch := q, sw_live_wants_order := sw_live_wants_order s @ [c],
      sw_live_wants := AList.update c now (sw_live_wants s)\<rparr>"
    have len: "length (sw_live_wants s1) \<le> Suc (length (sw_live_wants s))"
      by (cases "map_of (sw_live_wants s) c") (simp_all add: s1_def update_new_eq length_update_Some)
    have dom: "dom (map_of (sw_live_wants s1)) = insert c (dom (map_of (sw_live_wants s)))"
      and q1: "cq_set (sw_to_fetch s1) = cq_set (sw_to_fetch s)"
      by (simp_all add: s1_def q)
    have "next_wants_loop now n (insert c live) s1 = (live', s')"
      using 2(2) pop Some by (simp add: s1_def)
    moreover have "insert c live \<subseteq> dom (map_of (sw_live_wants s1))"
      unfolding dom using 2(3) by blast
    ultimately show ?thesis
      using 2(1) [OF pop [symmetric] Some, folded s1_def] len dom q1 c by auto
  qed
qed auto

lemma get_next_wants_total:
  assumes "length (sw_live_wants s) \<le> sw_broadcast_limit s"
  shows "\<exists>w s'. SessionWants_get_next_wants now s = Inr (w, s') \<and>
     length (sw_live_wants s') \<le> sw_broadcast_limit s \<and>
     dom (map_of (sw_live_wants s')) = dom (map_of (sw_live_wants s)) \<union> w \<and>
     w \<subseteq> cq_set (sw_to_fetch s) \<and> (\<forall>k. SessionWants_is_wanted s' k \<longleftrightarrow> SessionWants_is_wanted s k)"
proof -
  obtain w s' where loop:
    "next_wants_loop now (sw_broadcast_limit s - length (sw_live_wants s)) {} s = (w, s')"
    by (meson surj_pair)
  from next_wants_loop_spec [OF this] assms show ?thesis
    by (intro exI [of _ w] exI [of _ s'])
      (auto simp: SessionWants_get_next_wants_def loop is_wanted_iff)
qed

lemma prepare_broadcast_loop_spec:
  assumes "prepare_broadcast_loop now limit ks live m = (live', m')"
    and "live \<subseteq> dom (map_of m)" and "dom (map_of m) \<subseteq> live \<union> set ks" and "card live < limit"
  shows "live' \<subseteq> dom (map_of m) \<and> card live' \<le> limit \<and> (card live' = limit \<or> live' = dom (map_of m))"
  using assms
proof (induction now limit ks live m rule: prepare_broadcast_loop.induct)
  case (2 now limit key keys live m)
  show ?case
  proof (cases "map_of m key")
    case None
    from None 2(3-6) have "prepare_broadcast_loop now limit keys live m = (live', m')"
      and "dom (map_of m) \<subseteq> live \<union> set keys" by auto
    with 2(1) [OF None] 2(4,6) show ?thesis by blast
  next
    case (Some t)
    have fin: "finite live"
      using 2(4) finite_subset finite_dom_map_of by blast
    let ?m = "AList.update key now m" and ?live = "insert key live"
    have dom: "dom (map_of ?m) = dom (map_of m)" using Some by auto
    have sub: "?live \<subseteq> dom (map_of m)" using 2(4) Some by blast
    show ?thesis
    proof (cases "card ?live = limit")
      case True
      with 2(3) Some have "live' = ?live" by simp
      with True sub show ?thesis by simp
    next
      case False
      with 2(6) fin have "card ?live < limit" by (simp add: card_insert_if split: if_splits)
      moreover from False 2(3) Some have "prepare_broadcast_loop now limit keys ?live ?m = (live', m')"
        by (simp add: Let_def)
      moreover have "dom (map_of m) \<subseteq> ?live \<union> set keys" using 2(5) by auto
      ultimately show ?thesis using 2(2) [OF Some refl refl False, unfolded dom] sub by blast
    qed
  qed
qed auto

lemma prepare_broadcast_loop_times:
  "prepare_broadcast_loop now limit ks live m = (live', m') \<Longrightarrow>
   \<forall>k \<in> live. map_of m k = Some now \<Longrightarrow> \<forall>k \<in> live'. map_of m' k = Some now"
proof (induction now limit ks live m rule: prepare_broadcast_loop.induct)
  case (2 now limit key keys live m)
  show ?case
  proof (cases "map_of m key")
    case None
    with 2 show ?thesis by simp
  next
    case (Some t)
    have "\<forall>k \<in> insert key live. map_of (AList.update key now m) k = Some now"
      using 2(4) by simp
    with Some 2(2) [OF Some refl refl] 2(3) show ?thesis
      by (auto simp: Let_def split: if_splits)
  qed
qed simp

section \<open>Properties\<close>

text \<open>C19: In every reachable session state, receiving blocks does not panic. It returns each
  received key that was wanted exactly once, and afterwards a key is wanted iff it was wanted and
  was not received.\<close>

theorem blocks_received_correct:
  assumes "sw_reach limit s"
  shows "\<exists>wanted latency s'. SessionWants_blocks_received now keys s = Inr ((wanted, latency), s') \<and>
    distinct wanted \<and> set wanted = {k \<in> set keys. SessionWants_is_wanted s k} \<and>
    (\<forall>k. SessionWants_is_wanted s' k \<longleftrightarrow> SessionWants_is_wanted s k \<and> k \<notin> set keys)"
proof -
  obtain wanted lat s1 where loop: "blocks_received_loop now keys [] 0 s = (wanted, lat, s1)"
    by (metis prod_cases3)
  have "sw_inv s1" using sw_reach_inv [OF assms] loop by (rule sw_inv_received_loop)
  then show ?thesis
    using blocks_received_loop_spec [OF loop]
    by (auto simp: SessionWants_blocks_received_def loop sw_inv_length)
qed

theorem blocks_received_correct_witness:
  "\<exists>wanted latency s'. SessionWants_blocks_received 7 [3, 1, 3, 9]
      (SessionWants_blocks_requested [1, 2, 3] (SessionWants_new 2 :: nat SessionWants)) =
      Inr ((wanted, latency), s') \<and> distinct wanted \<and> set wanted = {1, 3}"
proof -
  let ?s = "SessionWants_blocks_requested [1, 2, 3] (SessionWants_new 2 :: nat SessionWants)"
  have "{k \<in> set [3, 1, 3, 9]. SessionWants_is_wanted ?s k} = {1, 3}"
    by (auto simp: SessionWants_blocks_requested_def SessionWants_new_def CidQueue_default_def
        CidQueue_push_def is_wanted_iff)
  moreover have r: "sw_reach 2 ?s" by (rule sw_reach.requested [OF sw_reach.new])
  ultimately show ?thesis using blocks_received_correct [OF r, of 7 "[3, 1, 3, 9]"] by auto
qed

text \<open>C23: Moving wants from the fetch queue to the live wants panics exactly when more wants are
  already live than the broadcast limit. Otherwise the returned wants were pending, they
  become live next to the ones already live, the live wants stay within the limit, and no
  want is lost or added.\<close>

theorem get_next_wants_correct:
  "if sw_broadcast_limit s < length (sw_live_wants s)
   then SessionWants_get_next_wants now s = Inl Overflow
   else \<exists>w s'. SessionWants_get_next_wants now s = Inr (w, s') \<and>
     length (sw_live_wants s') \<le> sw_broadcast_limit s \<and>
     dom (map_of (sw_live_wants s')) = dom (map_of (sw_live_wants s)) \<union> w \<and>
     w \<subseteq> cq_set (sw_to_fetch s) \<and> (\<forall>k. SessionWants_is_wanted s' k \<longleftrightarrow> SessionWants_is_wanted s k)"
  using get_next_wants_total [of s now] by (simp add: SessionWants_get_next_wants_def)

text \<open>In every reachable state with a positive limit, the wants prepared for a broadcast are live
  wants, as many as the limit allows, and the sent time of each is reset to now.\<close>

theorem prepare_broadcast_correct:
  assumes "sw_reach limit s" and "0 < sw_broadcast_limit s"
  shows "let (live, s') = SessionWants_prepare_broadcast now s
    in live \<subseteq> dom (map_of (sw_live_wants s)) \<and>
       card live = min (sw_broadcast_limit s) (length (sw_live_wants s)) \<and>
       (\<forall>k \<in> live. map_of (sw_live_wants s') k = Some now)"
proof -
  obtain live m where loop: "prepare_broadcast_loop now (sw_broadcast_limit s) (sw_live_wants_order s) {}
    (sw_live_wants s) = (live, m)" by (meson surj_pair)
  have inv: "sw_inv s" using assms(1) by (rule sw_reach_inv)
  then have len: "length (sw_live_wants s) = card (dom (map_of (sw_live_wants s)))"
    by (simp add: sw_inv_def length_hmap_card)
  have spec: "live \<subseteq> dom (map_of (sw_live_wants s)) \<and> card live \<le> sw_broadcast_limit s \<and>
      (card live = sw_broadcast_limit s \<or> live = dom (map_of (sw_live_wants s)))"
    by (rule prepare_broadcast_loop_spec [OF loop]) (use inv assms(2) in \<open>auto simp: sw_inv_alt\<close>)
  then have "card live \<le> length (sw_live_wants s)"
    unfolding len by (simp add: card_mono)
  with spec len have "card live = min (sw_broadcast_limit s) (length (sw_live_wants s))" by auto
  with spec prepare_broadcast_loop_times [OF loop] show ?thesis
    by (simp add: SessionWants_prepare_broadcast_def loop)
qed

theorem prepare_broadcast_correct_witness:
  "card (fst (SessionWants_prepare_broadcast 9
     (SessionWants_wants_sent 4 [1, 2, 3]
       (SessionWants_blocks_requested [1, 2, 3] (SessionWants_new 2 :: nat SessionWants))))) = 2"
proof -
  let ?s = "SessionWants_wants_sent 4 [1, 2, 3]
       (SessionWants_blocks_requested [1, 2, 3] (SessionWants_new 2 :: nat SessionWants))"
  have "0 < sw_broadcast_limit ?s" "min (sw_broadcast_limit ?s) (length (sw_live_wants ?s)) = 2"
    by (simp_all add: SessionWants_wants_sent_def wants_sent_one_def SessionWants_blocks_requested_def
        SessionWants_new_def CidQueue_default_def CidQueue_push_def CidQueue_has_def CidQueue_remove_def)
  moreover have r: "sw_reach 2 ?s" by (rule sw_reach.sent [OF sw_reach.requested [OF sw_reach.new]])
  ultimately show ?thesis
    using prepare_broadcast_correct [OF r, of 9] by (auto simp only: case_prod_unfold Let_def)
qed

text \<open>C24: Wants sent straight to peers are not bounded by the broadcast limit, so a session with the limit 1 has a
  reachable state with more live wants than the limit, in which the next call panics on the subtraction.\<close>

theorem get_next_wants_overflow_reachable:
  "\<exists>s :: nat SessionWants. sw_reach 1 s \<and> SessionWants_get_next_wants now s = Inl Overflow"
proof -
  let ?s = "SessionWants_wants_sent 0 [1, 2] (SessionWants_blocks_requested [1, 2] (SessionWants_new 1 :: nat SessionWants))"
  have "sw_reach 1 ?s" by (rule sw_reach.sent [OF sw_reach.requested [OF sw_reach.new]])
  moreover have "SessionWants_get_next_wants now ?s = Inl Overflow"
    by (simp add: SessionWants_get_next_wants_def SessionWants_wants_sent_def wants_sent_one_def
        SessionWants_blocks_requested_def SessionWants_new_def CidQueue_default_def CidQueue_push_def
        CidQueue_has_def CidQueue_remove_def)
  ultimately show ?thesis by blast
qed

text \<open>A popped cid stays a member of the queue: the queue still reports it, and pushing it
  again does nothing although it is no longer among the elements to pop.\<close>

theorem popped_cid_blocks_push:
  assumes "CidQueue_pop q = (Some c, q')"
  shows "CidQueue_has q' c \<and> CidQueue_push c q' = q'"
  using assms cq.pop_has [of q c] CidQueue_pop_set [of q] by (simp add: CidQueue_has_def CidQueue_push_def)

theorem popped_cid_blocks_push_witness:
  "let (r, q) = CidQueue_pop (CidQueue_push (5::nat) CidQueue_default)
   in r = Some 5 \<and> cq_elements q = [] \<and> CidQueue_has q 5 \<and> CidQueue_push 5 q = q"
proof -
  have pop: "CidQueue_pop (CidQueue_push (5::nat) CidQueue_default) = (Some 5, \<lparr>cq_elements = [], cq_set = {5}\<rparr>)"
    by (simp add: CidQueue_pop_def CidQueue_push_def CidQueue_default_def)
  show ?thesis using popped_cid_blocks_push [OF pop] by (simp add: pop)
qed

end
