(* ===== verification/Block_Presence.thy ===== *)
theory Block_Presence
  imports Ipfs_Prelude
begin

text \<open>
  What peers have said about blocks (\<open>client/block_presence_manager.rs\<close>): a map from cids to a map
  from peers to a flag, true for HAVE and false for DONT_HAVE. A HAVE is never changed back.
  The lock around the map is taken once per call, so each call is one step.
\<close>

type_synonym ('cid, 'peer) presence = "('cid, ('peer, bool) hmap) hmap"

section \<open>Operations\<close>

definition update_block_presence ::
  "'peer \<Rightarrow> bool \<Rightarrow> 'cid \<Rightarrow> ('cid, 'peer) presence \<Rightarrow> ('cid, 'peer) presence" where
  "update_block_presence peer present key m =
     hmodify key []
       (\<lambda>entry. case map_of entry peer of
          Some has \<Rightarrow> (if has then entry else AList.update peer present entry)
        | None \<Rightarrow> AList.update peer present entry) m"

definition BlockPresenceManager_receive_from ::
  "'peer \<Rightarrow> 'cid list \<Rightarrow> 'cid list \<Rightarrow> ('cid, 'peer) presence \<Rightarrow> ('cid, 'peer) presence" where
  "BlockPresenceManager_receive_from peer haves dont_haves m =
     fold (update_block_presence peer False) dont_haves (fold (update_block_presence peer True) haves m)"

definition BlockPresenceManager_peer_has_block ::
  "('cid, 'peer) presence \<Rightarrow> 'peer \<Rightarrow> 'cid \<Rightarrow> bool" where
  "BlockPresenceManager_peer_has_block m peer c =
     (case map_of m c of
        Some l \<Rightarrow> (case map_of l peer of Some have \<Rightarrow> have | None \<Rightarrow> False)
      | None \<Rightarrow> False)"

definition BlockPresenceManager_peer_does_not_have_block ::
  "('cid, 'peer) presence \<Rightarrow> 'peer \<Rightarrow> 'cid \<Rightarrow> bool" where
  "BlockPresenceManager_peer_does_not_have_block m peer c =
     (case map_of m c of
        Some l \<Rightarrow> (case map_of l peer of Some have \<Rightarrow> \<not> have | None \<Rightarrow> False)
      | None \<Rightarrow> False)"

fun all_dont_have_loop :: "('peer, bool) hmap \<Rightarrow> 'peer list \<Rightarrow> bool" where
  "all_dont_have_loop ps [] = True"
| "all_dont_have_loop ps (peer # peers) =
     (case map_of ps peer of
        Some has \<Rightarrow> (if has then False else all_dont_have_loop ps peers)
      | None \<Rightarrow> False)"

definition all_dont_have :: "('cid, 'peer) presence \<Rightarrow> 'peer list \<Rightarrow> 'cid \<Rightarrow> bool" where
  "all_dont_have m peers key =
     (case map_of m key of Some ps \<Rightarrow> all_dont_have_loop ps peers | None \<Rightarrow> False)"

definition BlockPresenceManager_all_peers_do_not_have_block ::
  "('cid, 'peer) presence \<Rightarrow> 'peer list \<Rightarrow> 'cid list \<Rightarrow> 'cid list" where
  "BlockPresenceManager_all_peers_do_not_have_block m peers keys =
     fold (\<lambda>key res. if all_dont_have m peers key then res @ [key] else res) keys []"

definition BlockPresenceManager_remove_keys ::
  "'cid list \<Rightarrow> ('cid, 'peer) presence \<Rightarrow> ('cid, 'peer) presence" where
  "BlockPresenceManager_remove_keys keys m = fold AList.delete keys m"

definition BlockPresenceManager_has_key :: "('cid, 'peer) presence \<Rightarrow> 'cid \<Rightarrow> bool" where
  "BlockPresenceManager_has_key m c \<longleftrightarrow> map_of m c \<noteq> None"

section \<open>What is known\<close>

text \<open>The abstract state: for each cid and peer what was last learnt, if anything.\<close>

definition known :: "('cid, 'peer) presence \<Rightarrow> 'cid \<Rightarrow> 'peer \<Rightarrow> bool option" where
  "known m c p = (case map_of m c of None \<Rightarrow> None | Some l \<Rightarrow> map_of l p)"

lemma has_block_known:
  "BlockPresenceManager_peer_has_block m p c \<longleftrightarrow> known m c p = Some True"
  "BlockPresenceManager_peer_does_not_have_block m p c \<longleftrightarrow> known m c p = Some False"
  by (auto simp: BlockPresenceManager_peer_has_block_def known_def
      BlockPresenceManager_peer_does_not_have_block_def split: option.splits)

lemma known_update:
  "known (update_block_presence p b k m) c q =
     (if c = k \<and> q = p \<and> known m c q \<noteq> Some True then Some b else known m c q)"
  by (auto simp: known_def update_block_presence_def split: option.splits if_splits)

lemma known_updates:
  "known (fold (update_block_presence p b) ks m) c q =
     (if c \<in> set ks \<and> q = p \<and> known m c q \<noteq> Some True then Some b else known m c q)"
  by (induction ks arbitrary: m) (auto simp: known_update)

lemma known_receive_from:
  "known (BlockPresenceManager_receive_from p hs ds m) c q =
     (if q = p \<and> c \<in> set hs then Some True
      else if q = p \<and> c \<in> set ds \<and> known m c q \<noteq> Some True then Some False
      else known m c q)"
  by (auto simp: BlockPresenceManager_receive_from_def known_updates)

lemma known_remove_keys:
  "known (BlockPresenceManager_remove_keys ks m) c q = (if c \<in> set ks then None else known m c q)"
  by (simp add: BlockPresenceManager_remove_keys_def known_def)

lemma all_dont_have_loop_iff: "all_dont_have_loop ps peers \<longleftrightarrow> (\<forall>p \<in> set peers. map_of ps p = Some False)"
  by (induction peers) (auto split: option.splits)

lemma all_peers_filter:
  "BlockPresenceManager_all_peers_do_not_have_block m peers keys = filter (all_dont_have m peers) keys"
proof -
  have "fold (\<lambda>key res. if all_dont_have m peers key then res @ [key] else res) keys acc =
    acc @ filter (all_dont_have m peers) keys" for acc
    by (induction keys arbitrary: acc) simp_all
  then show ?thesis by (simp add: BlockPresenceManager_all_peers_do_not_have_block_def)
qed

text \<open>The messages a fresh manager has received, each a peer with its haves and dont-haves.\<close>

abbreviation receive_all ::
  "('peer \<times> 'cid list \<times> 'cid list) list \<Rightarrow> ('cid, 'peer) presence \<Rightarrow> ('cid, 'peer) presence" where
  "receive_all msgs m \<equiv> fold (\<lambda>(p, hs, ds). BlockPresenceManager_receive_from p hs ds) msgs m"

definition said_have :: "('peer \<times> 'cid list \<times> 'cid list) list \<Rightarrow> 'peer \<Rightarrow> 'cid \<Rightarrow> bool" where
  "said_have msgs q c \<longleftrightarrow> (\<exists>(p, hs, ds) \<in> set msgs. p = q \<and> c \<in> set hs)"

definition said_dont_have :: "('peer \<times> 'cid list \<times> 'cid list) list \<Rightarrow> 'peer \<Rightarrow> 'cid \<Rightarrow> bool" where
  "said_dont_have msgs q c \<longleftrightarrow> (\<exists>(p, hs, ds) \<in> set msgs. p = q \<and> c \<in> set ds)"

lemma said_simps [simp]:
  "\<not> said_have [] q c" "\<not> said_dont_have [] q c"
  "said_have ((p, hs, ds) # msgs) q c \<longleftrightarrow> q = p \<and> c \<in> set hs \<or> said_have msgs q c"
  "said_dont_have ((p, hs, ds) # msgs) q c \<longleftrightarrow> q = p \<and> c \<in> set ds \<or> said_dont_have msgs q c"
  by (auto simp: said_have_def said_dont_have_def)

lemma known_receive_all:
  "known (receive_all msgs m) c q =
     (if known m c q = Some True \<or> said_have msgs q c then Some True
      else if said_dont_have msgs q c then Some False
      else known m c q)"
proof (induction msgs arbitrary: m)
  case (Cons msg msgs)
  obtain p hs ds where "msg = (p, hs, ds)" by (cases msg)
  then show ?case by (simp add: Cons.IH known_receive_from) auto
qed simp

section \<open>Properties\<close>

text \<open>C25: Whatever the order of the messages a fresh manager receives, it reports that a peer has a block
  exactly when one of the peer's messages said HAVE, and that the peer does not have it exactly
  when some message said DONT_HAVE and none said HAVE.\<close>

theorem presence_from_history:
  "let m = receive_all msgs []
   in (BlockPresenceManager_peer_has_block m q c \<longleftrightarrow> said_have msgs q c) \<and>
      (BlockPresenceManager_peer_does_not_have_block m q c \<longleftrightarrow>
        said_dont_have msgs q c \<and> \<not> said_have msgs q c)"
proof -
  have "known [] c q = None" by (simp add: known_def)
  then show ?thesis by (simp add: Let_def has_block_known known_receive_all)
qed

text \<open>The keys reported as exhausted are, in the order asked, the tracked keys for which every one of the
  given peers is known not to have the block.\<close>

theorem all_peers_do_not_have_block_correct:
  "BlockPresenceManager_all_peers_do_not_have_block m peers keys =
   filter (\<lambda>k. BlockPresenceManager_has_key m k \<and>
             list_all (\<lambda>p. BlockPresenceManager_peer_does_not_have_block m p k) peers) keys"
  unfolding all_peers_filter has_block_known list_all_iff
  by (rule filter_cong)
    (auto simp: all_dont_have_def all_dont_have_loop_iff BlockPresenceManager_has_key_def known_def
      split: option.splits)

end
