(* ===== verification/Session_Interest.thy ===== *)
theory Session_Interest
  imports Ipfs_Prelude
begin

text \<open>
  Which sessions want which blocks (\<open>client/session_interest_manager.rs\<close>): a map from cids to a
  map from session ids to a flag. A session listed under a cid is interested in messages about
  it; the flag says whether it still wants the block itself. Blocks are pairs of cid and data
  (\<open>block.rs\<close>).
\<close>

type_synonym ('cid, 'ses) interest = "('cid, ('ses, bool) hmap) hmap"

record ('cid, 'data) Block =
  b_cid :: 'cid
  b_data :: 'data

section \<open>Operations\<close>

definition record_session_interest ::
  "'ses \<Rightarrow> 'cid list \<Rightarrow> ('cid, 'ses) interest \<Rightarrow> ('cid, 'ses) interest" where
  "record_session_interest session keys wants =
     fold (\<lambda>key. hmodify key [] (AList.update session True)) keys wants"

definition remove_session ::
  "'ses \<Rightarrow> ('cid, 'ses) interest \<Rightarrow> 'cid list \<times> ('cid, 'ses) interest" where
  "remove_session session wants =
     (let wants' = map (\<lambda>(key, ws). (key, AList.delete session ws)) wants;
          deleted_keys = map fst (filter (\<lambda>(key, ws). ws = []) wants')
      in (deleted_keys, fold AList.delete deleted_keys wants'))"

definition mark_unwanted :: "'ses \<Rightarrow> 'cid \<Rightarrow> ('cid, 'ses) interest \<Rightarrow> ('cid, 'ses) interest" where
  "mark_unwanted session key wants =
     (case map_of wants key of
        Some ws \<Rightarrow>
          (case map_of ws session of
             Some wanted \<Rightarrow>
               (if wanted then AList.update key (AList.update session False ws) wants else wants)
           | None \<Rightarrow> wants)
      | None \<Rightarrow> wants)"

definition remove_session_wants ::
  "'ses \<Rightarrow> 'cid list \<Rightarrow> ('cid, 'ses) interest \<Rightarrow> ('cid, 'ses) interest" where
  "remove_session_wants session keys wants = fold (mark_unwanted session) keys wants"

text \<open>The loop collects the keys that became empty; they are removed after it.\<close>

fun remove_interested_loop ::
  "'ses \<Rightarrow> 'cid list \<Rightarrow> 'cid list \<Rightarrow> ('cid, 'ses) interest \<Rightarrow> 'cid list \<times> ('cid, 'ses) interest" where
  "remove_interested_loop session [] deleted wants = (deleted, wants)"
| "remove_interested_loop session (key # keys) deleted wants =
     (case map_of wants key of
        Some ws \<Rightarrow>
          (let ws' = AList.delete session ws
           in remove_interested_loop session keys
                (if ws' = [] then deleted @ [key] else deleted) (AList.update key ws' wants))
      | None \<Rightarrow> remove_interested_loop session keys deleted wants)"

definition remove_session_interested ::
  "'ses \<Rightarrow> 'cid list \<Rightarrow> ('cid, 'ses) interest \<Rightarrow> 'cid list \<times> ('cid, 'ses) interest" where
  "remove_session_interested session keys wants =
     (let (deleted_keys, wants') = remove_interested_loop session keys [] wants
      in (deleted_keys, fold AList.delete deleted_keys wants'))"

definition filter_session_interested ::
  "'ses \<Rightarrow> 'cid list list \<Rightarrow> ('cid, 'ses) interest \<Rightarrow> 'cid list list" where
  "filter_session_interested session key_sets wants =
     map (filter (\<lambda>key.
            case map_of wants key of
              Some ws \<Rightarrow> (case map_of ws session of Some wanted \<Rightarrow> wanted | None \<Rightarrow> False)
            | None \<Rightarrow> False)) key_sets"

definition split_wanted_unwanted ::
  "('cid, 'data) Block list \<Rightarrow> ('cid, 'ses) interest \<Rightarrow>
   ('cid, 'data) Block list \<times> ('cid, 'data) Block list" where
  "split_wanted_unwanted blocks wants =
     (let wanted_keys =
            fold (\<lambda>block S.
              case map_of wants (b_cid block) of
                Some ws \<Rightarrow> fold (\<lambda>wanted S. if wanted then insert (b_cid block) S else S) (hvalues ws) S
              | None \<Rightarrow> S) blocks {}
      in (filter (\<lambda>block. b_cid block \<in> wanted_keys) blocks,
          filter (\<lambda>block. b_cid block \<notin> wanted_keys) blocks))"

definition interested_sessions ::
  "'cid list \<Rightarrow> 'cid list \<Rightarrow> 'cid list \<Rightarrow> ('cid, 'ses) interest \<Rightarrow> 'ses set" where
  "interested_sessions blocks haves dont_haves wants =
     fold (\<lambda>key S.
       case map_of wants key of
         Some ws \<Rightarrow> fold insert (hkeys ws) S
       | None \<Rightarrow> S) (blocks @ haves @ dont_haves) {}"

section \<open>The stake of a session in a block\<close>

text \<open>The abstract state: whether a session is interested in a cid and whether it still wants the block.\<close>

definition stake :: "('cid, 'ses) interest \<Rightarrow> 'cid \<Rightarrow> 'ses \<Rightarrow> bool option" where
  "stake w c s = (case map_of w c of None \<Rightarrow> None | Some ws \<Rightarrow> map_of ws s)"

definition interest_inv :: "('cid, 'ses) interest \<Rightarrow> bool" where
  "interest_inv w \<longleftrightarrow> hmap_ok w \<and> (\<forall>c ws. map_of w c = Some ws \<longrightarrow> hmap_ok ws \<and> ws \<noteq> [])"

lemma interest_invD:
  "interest_inv w \<Longrightarrow> hmap_ok w"
  "interest_inv w \<Longrightarrow> map_of w c = Some ws \<Longrightarrow> hmap_ok ws \<and> ws \<noteq> []"
  by (simp_all add: interest_inv_def)

lemma tracked_iff: "interest_inv w \<Longrightarrow> map_of w c \<noteq> None \<longleftrightarrow> (\<exists>s. stake w c s \<noteq> None)"
proof (cases "map_of w c")
  case (Some ws)
  assume "interest_inv w"
  then have "ws \<noteq> []" using Some by (rule interest_invD(2) [THEN conjunct2])
  then obtain s v where "map_of ws s = Some v" by (cases ws) (auto, metis)
  then show ?thesis using Some by (auto simp: stake_def)
qed (simp add: stake_def)

lemma stake_record_one:
  "stake (hmodify k [] (AList.update ses True) w) c s = (if c = k \<and> s = ses then Some True else stake w c s)"
  by (simp add: stake_def split: option.split)

lemma stake_record:
  "stake (record_session_interest ses ks w) c s = (if c \<in> set ks \<and> s = ses then Some True else stake w c s)"
  unfolding record_session_interest_def
  by (induction ks arbitrary: w) (simp_all add: stake_record_one)

lemma stake_mark_unwanted:
  "stake (mark_unwanted ses k w) c s =
     (if c = k \<and> s = ses then map_option (\<lambda>_. False) (stake w c s) else stake w c s)"
  by (cases "c = k"; cases "s = ses") (simp_all add: stake_def mark_unwanted_def split: option.split)

lemma stake_remove_wants:
  "stake (remove_session_wants ses ks w) c s =
     (if c \<in> set ks \<and> s = ses then map_option (\<lambda>_. False) (stake w c s) else stake w c s)"
  unfolding remove_session_wants_def
  by (induction ks arbitrary: w) (simp_all add: stake_mark_unwanted option.map_comp comp_def)

lemma interest_inv_update:
  "interest_inv w \<Longrightarrow> hmap_ok ws \<Longrightarrow> ws \<noteq> [] \<Longrightarrow> interest_inv (AList.update k ws w)"
  by (simp add: interest_inv_def)

lemma interest_inv_record_one: "interest_inv w \<Longrightarrow> interest_inv (hmodify k [] (AList.update ses True) w)"
  by (cases "map_of w k") (simp_all add: hmodify_def interest_inv_update interest_invD)

lemma interest_inv_record: "interest_inv w \<Longrightarrow> interest_inv (record_session_interest ses ks w)"
  unfolding record_session_interest_def
  by (induction ks arbitrary: w) (simp_all add: interest_inv_record_one)

lemma interest_inv_mark_unwanted: "interest_inv w \<Longrightarrow> interest_inv (mark_unwanted ses k w)"
  by (simp add: mark_unwanted_def interest_inv_update interest_invD split: option.split)

lemma interest_inv_remove_wants: "interest_inv w \<Longrightarrow> interest_inv (remove_session_wants ses ks w)"
  unfolding remove_session_wants_def
  by (induction ks arbitrary: w) (simp_all add: interest_inv_mark_unwanted)

lemma fst_remove_session:
  "fst (remove_session ses w) = map fst (filter (\<lambda>(k, ws). AList.delete ses ws = []) w)"
  by (induction w) (auto simp: remove_session_def Let_def)

lemma deleted_keys_iff:
  assumes "interest_inv w"
  shows "k \<in> set (fst (remove_session ses w)) \<longleftrightarrow> (\<exists>ws. map_of w k = Some ws \<and> AList.delete ses ws = [])"
proof -
  have "k \<in> set (fst (remove_session ses w)) \<longleftrightarrow> (\<exists>ws. (k, ws) \<in> set w \<and> AList.delete ses ws = [])"
    unfolding fst_remove_session by force
  then show ?thesis using interest_invD(1) [OF assms] by (simp add: hmap_in_set_iff)
qed

lemma distinct_deleted_keys: "hmap_ok w \<Longrightarrow> distinct (fst (remove_session ses w))"
  by (simp add: fst_remove_session hmap_ok_def distinct_map_filter)

lemma map_of_remove_session:
  "map_of (snd (remove_session ses w)) k =
     (if k \<in> set (fst (remove_session ses w)) then None else map_option (AList.delete ses) (map_of w k))"
  by (simp add: remove_session_def Let_def map_of_map_values)

lemma interest_inv_remove_session:
  assumes "interest_inv w"
  shows "interest_inv (snd (remove_session ses w))"
  unfolding interest_inv_def
proof (intro conjI allI impI)
  show "hmap_ok (snd (remove_session ses w))"
    using interest_invD(1) [OF assms] by (simp add: remove_session_def Let_def hmap_ok_map_values)
  fix c ws assume "map_of (snd (remove_session ses w)) c = Some ws"
  then obtain ws' where "c \<notin> set (fst (remove_session ses w))" "map_of w c = Some ws'"
    "ws = AList.delete ses ws'"
    by (auto simp: map_of_remove_session split: if_splits)
  then show "hmap_ok ws" "ws \<noteq> []"
    using interest_invD(2) [OF assms] deleted_keys_iff [OF assms] by auto
qed

lemma stake_remove_session:
  assumes "interest_inv w"
  shows "stake (snd (remove_session ses w)) c s = (if s = ses then None else stake w c s)"
proof (cases "c \<in> set (fst (remove_session ses w))")
  case True
  then obtain ws where ws: "map_of w c = Some ws" "AList.delete ses ws = []"
    using deleted_keys_iff [OF assms] by blast
  then have "s \<noteq> ses \<Longrightarrow> map_of ws s = None" by (metis map_of.simps(1) map_of_delete)
  with True ws show ?thesis by (simp add: stake_def map_of_remove_session)
next
  case False
  then show ?thesis by (auto simp: stake_def map_of_remove_session split: option.split)
qed

lemma remove_interested_loop_spec:
  "remove_interested_loop ses ks deleted w = (deleted', w') \<Longrightarrow>
   map_of w' c = (if c \<in> set ks then map_option (AList.delete ses) (map_of w c) else map_of w c) \<and>
   (hmap_ok w \<longrightarrow> hmap_ok w') \<and>
   set deleted' = set deleted \<union> {k \<in> set ks. \<exists>ws. map_of w k = Some ws \<and> AList.delete ses ws = []}"
proof (induction ses ks deleted w rule: remove_interested_loop.induct)
  case (2 ses key keys deleted w)
  show ?case
  proof (cases "map_of w key")
    case None
    then have "{k \<in> set (key # keys). \<exists>ws. map_of w k = Some ws \<and> AList.delete ses ws = []} =
        {k \<in> set keys. \<exists>ws. map_of w k = Some ws \<and> AList.delete ses ws = []}" by auto
    then show ?thesis using 2(1) [OF None] 2(3) None by simp
  next
    case (Some ws)
    define ws' where "ws' = AList.delete ses ws"
    let ?D = "\<lambda>w k. \<exists>v. map_of w k = Some v \<and> AList.delete ses v = []"
    have D: "?D (AList.update key ws' w) k \<longleftrightarrow> ?D w k" for k
      using Some by (cases "k = key") (simp_all add: ws'_def delete_idem)
    have IH: "map_of w' c = (if c \<in> set keys then map_option (AList.delete ses) (map_of (AList.update key ws' w) c)
        else map_of (AList.update key ws' w) c)"
      "hmap_ok (AList.update key ws' w) \<longrightarrow> hmap_ok w'"
      "set deleted' = set (if ws' = [] then deleted @ [key] else deleted) \<union>
        {k \<in> set keys. ?D (AList.update key ws' w) k}"
      using 2(2) [OF Some ws'_def] 2(3) Some by (simp_all add: Let_def ws'_def)
    have "map_of w' c = (if c \<in> set (key # keys) then map_option (AList.delete ses) (map_of w c) else map_of w c)"
      using IH(1) Some by (cases "c = key") (simp_all add: ws'_def delete_idem)
    moreover have "set deleted' = set deleted \<union> {k \<in> set (key # keys). ?D w k}"
    proof -
      have "{k \<in> set (key # keys). ?D w k} = (if ws' = [] then {key} else {}) \<union> {k \<in> set keys. ?D w k}"
        using Some by (auto simp: ws'_def)
      then show ?thesis using IH(3) unfolding D by simp
    qed
    ultimately show ?thesis using IH(2) by simp
  qed
qed auto

lemma map_of_remove_interested:
  "map_of (snd (remove_session_interested ses ks w)) c =
     (if c \<in> set (fst (remove_session_interested ses ks w)) then None
      else if c \<in> set ks then map_option (AList.delete ses) (map_of w c) else map_of w c)"
proof -
  obtain d w' where l: "remove_interested_loop ses ks [] w = (d, w')" by (meson surj_pair)
  then show ?thesis
    using remove_interested_loop_spec [OF l, of c] by (simp only: remove_session_interested_def) (simp, blast)
qed

lemma remove_interested_deleted:
  "set (fst (remove_session_interested ses ks w)) =
     {k \<in> set ks. \<exists>ws. map_of w k = Some ws \<and> AList.delete ses ws = []}"
proof -
  obtain d w' where l: "remove_interested_loop ses ks [] w = (d, w')" by (meson surj_pair)
  then show ?thesis
    using remove_interested_loop_spec [OF l] by (simp add: remove_session_interested_def)
qed

lemma interest_inv_remove_interested:
  assumes "interest_inv w"
  shows "interest_inv (snd (remove_session_interested ses ks w))"
  unfolding interest_inv_def
proof (intro conjI allI impI)
  obtain d w' where l: "remove_interested_loop ses ks [] w = (d, w')" by (meson surj_pair)
  then show "hmap_ok (snd (remove_session_interested ses ks w))"
    using remove_interested_loop_spec [OF l] interest_invD(1) [OF assms]
    by (simp add: remove_session_interested_def)
  fix c ws assume c: "map_of (snd (remove_session_interested ses ks w)) c = Some ws"
  then have nd: "c \<notin> set (fst (remove_session_interested ses ks w))"
    by (auto simp: map_of_remove_interested)
  have "hmap_ok ws \<and> ws \<noteq> []"
  proof (cases "c \<in> set ks")
    case True
    with c nd obtain ws' where ws': "map_of w c = Some ws'" "ws = AList.delete ses ws'"
      by (auto simp: map_of_remove_interested)
    with True nd have "ws \<noteq> []" by (simp add: remove_interested_deleted)
    with ws' show ?thesis using interest_invD(2) [OF assms] by simp
  next
    case False
    with c nd have "map_of w c = Some ws" by (simp add: map_of_remove_interested)
    then show ?thesis by (rule interest_invD(2) [OF assms])
  qed
  then show "hmap_ok ws" "ws \<noteq> []" by simp_all
qed

lemma delete_Nil_iff: "AList.delete k m = [] \<longleftrightarrow> fst ` set m \<subseteq> {k}"
  by (induction m) auto

section \<open>Operation sequences\<close>

datatype ('cid, 'ses) si_op =
    SiRecord 'ses "'cid list"
  | SiRemoveSession 'ses
  | SiRemoveWants 'ses "'cid list"
  | SiRemoveInterested 'ses "'cid list"

fun si_step :: "('cid, 'ses) si_op \<Rightarrow> ('cid, 'ses) interest \<Rightarrow> ('cid, 'ses) interest" where
  "si_step (SiRecord s ks) w = record_session_interest s ks w"
| "si_step (SiRemoveSession s) w = snd (remove_session s w)"
| "si_step (SiRemoveWants s ks) w = remove_session_wants s ks w"
| "si_step (SiRemoveInterested s ks) w = snd (remove_session_interested s ks w)"

lemma si_step_inv: "interest_inv w \<Longrightarrow> interest_inv (si_step x w)"
  by (cases x) (simp_all add: interest_inv_record interest_inv_remove_session
      interest_inv_remove_wants interest_inv_remove_interested)

interpretation si: component "\<lambda>w. w = []" si_step interest_inv
  by unfold_locales (simp_all add: si_step_inv, simp add: interest_inv_def)

lemma sole_interest_iff:
  assumes "interest_inv w"
  shows "(\<exists>ws. map_of w k = Some ws \<and> AList.delete ses ws = []) \<longleftrightarrow> {s. stake w k s \<noteq> None} = {ses}"
proof (cases "map_of w k")
  case (Some ws)
  have ne: "ws \<noteq> []" using interest_invD(2) [OF assms Some] by simp
  have "{s. stake w k s \<noteq> None} = fst ` set ws"
    using Some by (simp add: stake_def dom_def flip: dom_map_of_conv_image_fst)
  moreover have "fst ` set ws \<noteq> {}" using ne by simp
  ultimately show ?thesis using Some by (simp add: delete_Nil_iff subset_singleton_iff)
qed (simp add: stake_def)

lemma fold_insert_values: "fold (\<lambda>v S. if v then insert c S else S) vs S = (if True \<in> set vs then insert c S else S)"
  by (induction vs arbitrary: S) auto

lemma True_hvalues_iff: "hmap_ok ws \<Longrightarrow> True \<in> set (hvalues ws) \<longleftrightarrow> (\<exists>s. map_of ws s = Some True)"
  by (simp add: image_iff Bex_def split_paired_Ex) (auto simp: hmap_in_set_iff)

lemma wanted_keys_fold:
  assumes "interest_inv w"
  shows "fold (\<lambda>block S. case map_of w (b_cid block) of
             Some ws \<Rightarrow> fold (\<lambda>v S. if v then insert (b_cid block) S else S) (hvalues ws) S
           | None \<Rightarrow> S) blocks S0 =
         S0 \<union> {c. c \<in> set (map b_cid blocks) \<and> (\<exists>s. stake w c s = Some True)}"
proof (induction blocks arbitrary: S0)
  case (Cons b blocks)
  show ?case
  proof (cases "map_of w (b_cid b)")
    case None
    then show ?thesis by (simp add: Cons.IH) (auto simp: stake_def)
  next
    case (Some ws)
    then have "True \<in> set (hvalues ws) \<longleftrightarrow> (\<exists>s. stake w (b_cid b) s = Some True)"
      using True_hvalues_iff [of ws] interest_invD(2) [OF assms Some] by (simp only: stake_def option.case)
    then show ?thesis using Some by (simp add: Cons.IH fold_insert_values) auto
  qed
qed simp

lemma interested_sessions_fold:
  "fold (\<lambda>key S. case map_of w key of Some ws \<Rightarrow> fold insert (hkeys ws) S | None \<Rightarrow> S) keys S0 =
   S0 \<union> {s. \<exists>c \<in> set keys. stake w c s \<noteq> None}"
proof (induction keys arbitrary: S0)
  case (Cons k keys)
  have "(case map_of w k of Some ws \<Rightarrow> fold insert (hkeys ws) S0 | None \<Rightarrow> S0) = S0 \<union> {s. stake w k s \<noteq> None}"
    by (cases "map_of w k") (auto simp: stake_def union_set_fold [symmetric] dom_def
        simp flip: dom_map_of_conv_image_fst)
  then show ?case by (simp add: Cons.IH) auto
qed simp

lemma interested_sessions_iff:
  "s \<in> interested_sessions blocks haves dont_haves w \<longleftrightarrow>
   (\<exists>c \<in> set (blocks @ haves @ dont_haves). stake w c s \<noteq> None)"
  by (simp only: interested_sessions_def interested_sessions_fold Un_empty_left mem_Collect_eq)

lemma filter_session_interested_iff:
  "filter_session_interested ses key_sets w = map (filter (\<lambda>c. stake w c ses = Some True)) key_sets"
  unfolding filter_session_interested_def
  by (intro map_cong refl filter_cong) (auto simp: stake_def split: option.split)

section \<open>Properties\<close>

text \<open>C26: Shutting a session down returns, each once, the keys in which no other session is interested;
  afterwards the session has no stake in any key, every other stake is as before, and the
  returned keys are no longer tracked.\<close>

theorem remove_session_correct:
  "let w = fold si_step xs []; (deleted, w') = remove_session ses w
   in distinct deleted \<and> set deleted = {k. {s. stake w k s \<noteq> None} = {ses}} \<and>
      (\<forall>c s. stake w' c s = (if s = ses then None else stake w c s)) \<and>
      set deleted \<inter> dom (map_of w') = {}"
proof -
  let ?w = "fold si_step xs []"
  have inv: "interest_inv ?w" by (rule si.reachable_inv) simp
  have "set (fst (remove_session ses ?w)) = {k. {s. stake ?w k s \<noteq> None} = {ses}}"
    by (simp only: set_eq_iff [of _ "{k. _ k}"] deleted_keys_iff [OF inv] sole_interest_iff [OF inv]
        mem_Collect_eq simp_thms)
  then show ?thesis
    using distinct_deleted_keys [OF interest_invD(1) [OF inv]] stake_remove_session [OF inv]
    by (simp add: Let_def case_prod_unfold) (auto simp: map_of_remove_session)
qed

text \<open>C27: Of a list of incoming blocks, the wanted ones are, in their order, those some session still wants,
  and the others are returned as unwanted; so the two lists partition the message. The sessions
  notified of a message are exactly those with a stake in one of its cids.\<close>

theorem split_wanted_unwanted_correct:
  "let w = fold si_step xs []
   in split_wanted_unwanted blocks w =
        (filter (\<lambda>b. \<exists>s. stake w (b_cid b) s = Some True) blocks,
         filter (\<lambda>b. \<nexists>s. stake w (b_cid b) s = Some True) blocks) \<and>
      interested_sessions bs hs ds w = {s. set (bs @ hs @ ds) \<inter> {c. stake w c s \<noteq> None} \<noteq> {}}"
proof -
  let ?w = "fold si_step xs []"
  have inv: "interest_inv ?w" by (rule si.reachable_inv) simp
  have "split_wanted_unwanted blocks ?w =
      (filter (\<lambda>b. \<exists>s. stake ?w (b_cid b) s = Some True) blocks,
       filter (\<lambda>b. \<nexists>s. stake ?w (b_cid b) s = Some True) blocks)"
    by (auto simp: split_wanted_unwanted_def wanted_keys_fold [OF inv] intro!: filter_cong)
  moreover have "interested_sessions bs hs ds ?w = {s. set (bs @ hs @ ds) \<inter> {c. stake ?w c s \<noteq> None} \<noteq> {}}"
    by (intro set_eqI) (simp only: interested_sessions_iff disjoint_iff mem_Collect_eq, blast)
  ultimately show ?thesis by (simp only: Let_def simp_thms)
qed

text \<open>A session that has received a block stays interested in messages about it, as the manager's
  documentation says, yet \<open>filter_session_interested\<close>, documented to keep the keys the session is
  interested in, drops the key.\<close>

theorem filter_drops_received_keys:
  "let w' = remove_session_wants ses [c] (record_session_interest ses [c] w)
   in ses \<in> interested_sessions [] [c] [] w' \<and> filter_session_interested ses [[c]] w' = [[]]"
  by (simp add: Let_def interested_sessions_iff filter_session_interested_iff stake_remove_wants stake_record
      ex_bool_eq)

end
