(* ===== verification/Peer_Want_Manager.thy ===== *)
theory Peer_Want_Manager
  imports Ipfs_Prelude
begin

text \<open>
  The bookkeeping of wants sent to each peer (\<open>client/peer_want_manager.rs\<close>). The state keeps, per
  peer, the want-blocks and want-haves sent to it, a reverse index from cids to the peers wanting
  them, and the broadcast wants. Every operation that talks to message queues returns the calls it
  makes on them; the peers that have a queue are an argument.

  Hash sets the code iterates over are duplicate-free lists; the order of a list stands for the
  iteration order of the set. The counters of \<open>want_peer_counts\<close> feed gauges that are not there
  yet, so their value is not used by the operations.
\<close>

record 'cid PeerWant =
  want_blocks :: "'cid list"
  want_haves :: "'cid list"

record ('cid, 'peer) PeerWantManager =
  peer_wants :: "('peer, 'cid PeerWant) hmap"
  want_peers :: "('cid, 'peer list) hmap"
  broadcast_wants :: "'cid list"

record WantPeerCounts =
  want_block :: nat
  want_have :: nat
  is_broadcast :: bool

text \<open>The calls on the message queue of a peer.\<close>

datatype ('cid, 'peer) queue_call =
    AddBroadcastWantHaves 'peer "'cid list"
  | AddWants 'peer "'cid list" "'cid list"
  | AddCancels 'peer "'cid list"

section \<open>Operations\<close>

definition PeerWantManager_default :: "('cid, 'peer) PeerWantManager" where
  "PeerWantManager_default = \<lparr>peer_wants = [], want_peers = [], broadcast_wants = []\<rparr>"

definition add_peer ::
  "'peer \<Rightarrow> ('cid, 'peer) PeerWantManager \<Rightarrow>
   ('cid, 'peer) PeerWantManager \<times> ('cid, 'peer) queue_call list" where
  "add_peer peer s =
     (if map_of (peer_wants s) peer \<noteq> None then (s, [])
      else (s\<lparr>peer_wants := AList.update peer \<lparr>want_blocks = [], want_haves = []\<rparr> (peer_wants s)\<rparr>,
            if broadcast_wants s \<noteq> [] then [AddBroadcastWantHaves peer (broadcast_wants s)] else []))"

definition reverse_index_remove ::
  "'peer \<Rightarrow> 'cid \<Rightarrow> ('cid, 'peer) PeerWantManager \<Rightarrow> ('cid, 'peer) PeerWantManager" where
  "reverse_index_remove peer cid s =
     (case map_of (want_peers s) cid of
        Some peers \<Rightarrow>
          (let peers' = removeAll peer peers
           in s\<lparr>want_peers := (if peers' = [] then AList.delete cid (want_peers s)
                              else AList.update cid peers' (want_peers s))\<rparr>)
      | None \<Rightarrow> s)"

definition remove_peer ::
  "'peer \<Rightarrow> ('cid, 'peer) PeerWantManager \<Rightarrow> ('cid, 'peer) PeerWantManager" where
  "remove_peer peer s =
     (case map_of (peer_wants s) peer of
        Some pw \<Rightarrow>
          fold (reverse_index_remove peer) (want_haves pw)
            (fold (reverse_index_remove peer) (want_blocks pw)
              (s\<lparr>peer_wants := AList.delete peer (peer_wants s)\<rparr>))
      | None \<Rightarrow> s)"

definition broadcast_want_haves ::
  "'cid list \<Rightarrow> 'peer list \<Rightarrow> ('cid, 'peer) PeerWantManager \<Rightarrow>
   ('cid, 'peer) PeerWantManager \<times> ('cid, 'peer) queue_call list" where
  "broadcast_want_haves haves peer_queues s =
     (let unsent = filter (\<lambda>cid. cid \<notin> set (broadcast_wants s)) haves;
          peer_unsent = (\<lambda>pw. filter (\<lambda>cid. cid \<notin> set (want_blocks pw) \<and> cid \<notin> set (want_haves pw)) unsent)
      in (s\<lparr>broadcast_wants := broadcast_wants s @ unsent\<rparr>,
          concat (map (\<lambda>(peer, pw).
            if peer_unsent pw \<noteq> [] \<and> peer \<in> set peer_queues
            then [AddBroadcastWantHaves peer (peer_unsent pw)] else []) (peer_wants s))))"

text \<open>The two loops of \<open>send_wants\<close>, over the peer's wants, the filtered list and the reverse index.\<close>

definition send_want_block ::
  "'peer \<Rightarrow> 'cid \<Rightarrow> 'cid PeerWant \<times> 'cid list \<times> ('cid, 'peer list) hmap \<Rightarrow>
   'cid PeerWant \<times> 'cid list \<times> ('cid, 'peer list) hmap" where
  "send_want_block peer cid = (\<lambda>(pw, flt, wp).
     if cid \<in> set (want_blocks pw) then (pw, flt, wp)
     else (pw\<lparr>want_haves := removeAll cid (want_haves pw), want_blocks := List.insert cid (want_blocks pw)\<rparr>,
           flt @ [cid], hmodify cid [] (List.insert peer) wp))"

definition send_want_have ::
  "'cid list \<Rightarrow> 'peer \<Rightarrow> 'cid \<Rightarrow> 'cid PeerWant \<times> 'cid list \<times> ('cid, 'peer list) hmap \<Rightarrow>
   'cid PeerWant \<times> 'cid list \<times> ('cid, 'peer list) hmap" where
  "send_want_have broadcasts peer cid = (\<lambda>(pw, flt, wp).
     if cid \<in> set broadcasts then (pw, flt, wp)
     else if cid \<notin> set (want_blocks pw) \<and> cid \<notin> set (want_haves pw)
     then (pw\<lparr>want_haves := List.insert cid (want_haves pw)\<rparr>, flt @ [cid], hmodify cid [] (List.insert peer) wp)
     else (pw, flt, wp))"

definition send_wants ::
  "'peer \<Rightarrow> 'cid list \<Rightarrow> 'cid list \<Rightarrow> ('cid, 'peer) PeerWantManager \<Rightarrow>
   ('cid, 'peer) PeerWantManager \<times> ('cid, 'peer) queue_call list" where
  "send_wants peer blocks haves s =
     (case map_of (peer_wants s) peer of
        Some pw \<Rightarrow>
          (let (pw1, flt_want_blocks, wp1) = fold (send_want_block peer) blocks (pw, [], want_peers s);
               (pw2, flt_want_haves, wp2) = fold (send_want_have (broadcast_wants s) peer) haves (pw1, [], wp1)
           in (s\<lparr>peer_wants := AList.update peer pw2 (peer_wants s), want_peers := wp2\<rparr>,
               if flt_want_blocks \<noteq> [] \<or> flt_want_haves \<noteq> []
               then [AddWants peer flt_want_blocks flt_want_haves] else []))
      | None \<Rightarrow> (s, []))"

text \<open>The body of the macro \<open>send!\<close>: the peer's wants and the set to cancel after the loop.\<close>

definition cancel_one ::
  "'cid list \<Rightarrow> 'cid \<Rightarrow> 'cid PeerWant \<times> 'cid list \<Rightarrow> 'cid PeerWant \<times> 'cid list" where
  "cancel_one broadcasts cid = (\<lambda>(pw, to_cancel).
     if cid \<notin> set (want_blocks pw) \<and> cid \<notin> set (want_haves pw) then (pw, to_cancel)
     else (pw\<lparr>want_blocks := removeAll cid (want_blocks pw), want_haves := removeAll cid (want_haves pw)\<rparr>,
           if cid \<notin> set broadcasts then List.insert cid to_cancel else to_cancel))"

definition send_cancel_peer ::
  "'cid list \<Rightarrow> 'cid list \<Rightarrow> 'cid list \<Rightarrow> 'peer list \<Rightarrow> 'peer \<Rightarrow> 'cid PeerWant \<Rightarrow>
   'cid PeerWant \<times> ('cid, 'peer) queue_call list" where
  "send_cancel_peer broadcasts broadcast_cancels cancels peer_queues peer pw =
     (let (pw', to_cancel) = fold (cancel_one broadcasts) cancels (pw, broadcast_cancels)
      in (pw', if to_cancel \<noteq> [] \<and> peer \<in> set peer_queues then [AddCancels peer to_cancel] else []))"

fun send_cancel_peers ::
  "('peer \<Rightarrow> 'cid PeerWant \<Rightarrow> 'cid PeerWant \<times> ('cid, 'peer) queue_call list) \<Rightarrow> 'peer list \<Rightarrow>
   ('peer, 'cid PeerWant) hmap \<Rightarrow> ('peer, 'cid PeerWant) hmap \<times> ('cid, 'peer) queue_call list" where
  "send_cancel_peers send [] pws = (pws, [])"
| "send_cancel_peers send (peer # peers) pws =
     (case map_of pws peer of
        Some pw \<Rightarrow>
          (let (pw', calls) = send peer pw;
               (pws', calls') = send_cancel_peers send peers (AList.update peer pw' pws)
           in (pws', calls @ calls'))
      | None \<Rightarrow> send_cancel_peers send peers pws)"

definition send_cancels ::
  "'cid list \<Rightarrow> 'peer list \<Rightarrow> ('cid, 'peer) PeerWantManager \<Rightarrow>
   ('cid, 'peer) PeerWantManager \<times> ('cid, 'peer) queue_call list" where
  "send_cancels cancels peer_queues s =
     (if cancels = [] then (s, [])
      else
        (let broadcast_cancels = remdups (filter (\<lambda>cid. cid \<in> set (broadcast_wants s)) cancels);
             send = send_cancel_peer (broadcast_wants s) broadcast_cancels cancels peer_queues;
             cancel_peers =
               (if broadcast_cancels = []
                then remdups (concat (map (\<lambda>cid. case map_of (want_peers s) cid of
                       Some peers \<Rightarrow> peers | None \<Rightarrow> []) cancels))
                else hkeys (peer_wants s));
             (pws, calls) = send_cancel_peers send cancel_peers (peer_wants s)
         in (s\<lparr>peer_wants := pws,
               broadcast_wants := filter (\<lambda>cid. cid \<notin> set broadcast_cancels) (broadcast_wants s),
               want_peers := fold AList.delete cancels (want_peers s)\<rparr>, calls)))"

definition want_peer_counts :: "'cid \<Rightarrow> ('cid, 'peer) PeerWantManager \<Rightarrow> WantPeerCounts" where
  "want_peer_counts cid s =
     fold (\<lambda>peer counts.
       case map_of (peer_wants s) peer of
         Some pw \<Rightarrow>
           (if cid \<in> set (want_blocks pw) then counts\<lparr>want_block := want_block counts + 1\<rparr>
            else if cid \<in> set (want_haves pw) then counts\<lparr>want_have := want_have counts + 1\<rparr>
            else counts)
       | None \<Rightarrow> counts)
       (case map_of (want_peers s) cid of Some peers \<Rightarrow> peers | None \<Rightarrow> [])
       \<lparr>want_block = 0, want_have = 0, is_broadcast = (cid \<in> set (broadcast_wants s))\<rparr>"

definition WantPeerCounts_wanted :: "WantPeerCounts \<Rightarrow> bool" where
  "WantPeerCounts_wanted c \<longleftrightarrow> want_block c > 0 \<or> want_have c > 0 \<or> is_broadcast c"

definition get_want_blocks :: "('cid, 'peer) PeerWantManager \<Rightarrow> 'cid set" where
  "get_want_blocks s = set (concat (map want_blocks (hvalues (peer_wants s))))"

definition get_want_haves :: "('cid, 'peer) PeerWantManager \<Rightarrow> 'cid set" where
  "get_want_haves s = set (concat (map want_haves (hvalues (peer_wants s))) @ broadcast_wants s)"

definition get_wants :: "('cid, 'peer) PeerWantManager \<Rightarrow> 'cid set" where
  "get_wants s = set (broadcast_wants s @ hkeys (want_peers s))"

section \<open>The wants of each peer and the reverse index\<close>

definition sent_block :: "('cid, 'peer) PeerWantManager \<Rightarrow> 'peer \<Rightarrow> 'cid \<Rightarrow> bool" where
  "sent_block s p c = (case map_of (peer_wants s) p of Some pw \<Rightarrow> c \<in> set (want_blocks pw) | None \<Rightarrow> False)"

definition sent_have :: "('cid, 'peer) PeerWantManager \<Rightarrow> 'peer \<Rightarrow> 'cid \<Rightarrow> bool" where
  "sent_have s p c = (case map_of (peer_wants s) p of Some pw \<Rightarrow> c \<in> set (want_haves pw) | None \<Rightarrow> False)"

definition indexed :: "('cid, 'peer list) hmap \<Rightarrow> 'cid \<Rightarrow> 'peer set" where
  "indexed wp c = (case map_of wp c of Some ps \<Rightarrow> set ps | None \<Rightarrow> {})"

definition pw_ok :: "'cid PeerWant \<Rightarrow> bool" where
  "pw_ok pw \<longleftrightarrow> distinct (want_blocks pw) \<and> distinct (want_haves pw) \<and> set (want_blocks pw) \<inter> set (want_haves pw) = {}"

definition index_ok :: "('cid, 'peer list) hmap \<Rightarrow> bool" where
  "index_ok wp \<longleftrightarrow> hmap_ok wp \<and> (\<forall>c ps. map_of wp c = Some ps \<longrightarrow> ps \<noteq> [] \<and> distinct ps)"

definition pwm_inv :: "('cid, 'peer) PeerWantManager \<Rightarrow> bool" where
  "pwm_inv s \<longleftrightarrow> hmap_ok (peer_wants s) \<and> index_ok (want_peers s) \<and> distinct (broadcast_wants s) \<and>
     (\<forall>p pw. map_of (peer_wants s) p = Some pw \<longrightarrow> pw_ok pw) \<and>
     (\<forall>c. indexed (want_peers s) c = {p. sent_block s p c \<or> sent_have s p c})"

named_theorems pwm

lemma pwm_invI:
  assumes "hmap_ok (peer_wants s)" "index_ok (want_peers s)" "distinct (broadcast_wants s)"
    "\<And>p pw. map_of (peer_wants s) p = Some pw \<Longrightarrow> pw_ok pw"
    "\<And>c p. p \<in> indexed (want_peers s) c \<longleftrightarrow> sent_block s p c \<or> sent_have s p c"
  shows "pwm_inv s"
  using assms by (auto simp: pwm_inv_def)

lemma pwm_invD:
  assumes "pwm_inv s"
  shows "hmap_ok (peer_wants s)" "index_ok (want_peers s)" "distinct (broadcast_wants s)"
    "map_of (peer_wants s) p = Some pw \<Longrightarrow> pw_ok pw"
    "indexed (want_peers s) c = {p. sent_block s p c \<or> sent_have s p c}"
  using assms by (auto simp: pwm_inv_def)

lemma sent_peer_wants_cong:
  "peer_wants s = peer_wants s' \<Longrightarrow> sent_block s = sent_block s'"
  "peer_wants s = peer_wants s' \<Longrightarrow> sent_have s = sent_have s'"
  by (simp_all add: fun_eq_iff sent_block_def sent_have_def)

lemma index_ok_empty [simp]: "index_ok []"
  by (simp add: index_ok_def)

lemma indexed_empty [simp]: "indexed [] c = {}"
  by (simp add: indexed_def)

lemma List_insert_not_Nil [simp]: "List.insert x xs \<noteq> []"
  by (cases xs) (simp_all add: List.insert_def)

lemma index_ok_add [pwm]: "index_ok wp \<Longrightarrow> index_ok (hmodify c [] (List.insert p) wp)"
  by (auto simp: index_ok_def split: option.split)

lemma indexed_add [pwm]:
  "indexed (hmodify c [] (List.insert p) wp) c' = (if c' = c then insert p (indexed wp c) else indexed wp c')"
  by (auto simp: indexed_def split: option.split)

lemma indexed_tracked_iff: "index_ok wp \<Longrightarrow> c \<in> set (hkeys wp) \<longleftrightarrow> indexed wp c \<noteq> {}"
  by (auto simp: index_ok_def indexed_def hmap_key_iff split: option.split)

lemma index_ok_delete [pwm]: "index_ok wp \<Longrightarrow> index_ok (fold AList.delete cs wp)"
  by (simp add: index_ok_def)

lemma indexed_delete [pwm]: "indexed (fold AList.delete cs wp) c = (if c \<in> set cs then {} else indexed wp c)"
  by (simp add: indexed_def)

section \<open>Removing a peer\<close>

lemma reverse_index_remove_frame [pwm]:
  "peer_wants (reverse_index_remove p c s) = peer_wants s"
  "broadcast_wants (reverse_index_remove p c s) = broadcast_wants s"
  by (simp_all add: reverse_index_remove_def Let_def split: option.split)

lemma reverse_index_remove_index [pwm]:
  "indexed (want_peers (reverse_index_remove p c s)) c' =
     (if c' = c then indexed (want_peers s) c - {p} else indexed (want_peers s) c')"
proof -
  have "removeAll p ps = [] \<longleftrightarrow> set ps - {p} = {}" for ps
    by (metis set_removeAll set_empty)
  then show ?thesis
    by (auto simp: indexed_def reverse_index_remove_def Let_def split: option.split)
qed

lemma reverse_index_remove_ok [pwm]:
  "index_ok (want_peers s) \<Longrightarrow> index_ok (want_peers (reverse_index_remove p c s))"
  by (auto simp: index_ok_def reverse_index_remove_def Let_def distinct_removeAll split: option.split)

lemma reverse_index_remove_fold:
  "peer_wants (fold (reverse_index_remove p) cs s) = peer_wants s \<and>
   broadcast_wants (fold (reverse_index_remove p) cs s) = broadcast_wants s \<and>
   (index_ok (want_peers s) \<longrightarrow> index_ok (want_peers (fold (reverse_index_remove p) cs s))) \<and>
   indexed (want_peers (fold (reverse_index_remove p) cs s)) c =
     (if c \<in> set cs then indexed (want_peers s) c - {p} else indexed (want_peers s) c)"
  by (induction cs arbitrary: s) (simp_all add: pwm)

lemmas reverse_index_remove_folds [pwm] =
  reverse_index_remove_fold [THEN conjunct1]
  reverse_index_remove_fold [THEN conjunct2, THEN conjunct1]
  reverse_index_remove_fold [THEN conjunct2, THEN conjunct2, THEN conjunct1, rule_format]
  reverse_index_remove_fold [THEN conjunct2, THEN conjunct2, THEN conjunct2]

lemma sent_remove_peer:
  "sent_block (remove_peer p s) q c \<longleftrightarrow> q \<noteq> p \<and> sent_block s q c"
  "sent_have (remove_peer p s) q c \<longleftrightarrow> q \<noteq> p \<and> sent_have s q c"
  by (auto simp: remove_peer_def sent_block_def sent_have_def pwm split: option.splits)

lemma pwm_inv_remove_peer:
  assumes "pwm_inv s"
  shows "pwm_inv (remove_peer p s)"
proof (cases "map_of (peer_wants s) p")
  case None
  then show ?thesis using assms by (simp add: remove_peer_def)
next
  case (Some pw)
  note D = pwm_invD [OF assms]
  show ?thesis
  proof (rule pwm_invI)
    show "hmap_ok (peer_wants (remove_peer p s))" "index_ok (want_peers (remove_peer p s))"
      "distinct (broadcast_wants (remove_peer p s))"
      using D Some by (simp_all add: remove_peer_def pwm)
    show "pw_ok pw'" if "map_of (peer_wants (remove_peer p s)) q = Some pw'" for q pw'
      using that D(4) [of q pw'] Some by (simp add: remove_peer_def pwm split: if_splits)
    show "q \<in> indexed (want_peers (remove_peer p s)) c \<longleftrightarrow>
        sent_block (remove_peer p s) q c \<or> sent_have (remove_peer p s) q c" for c q
      unfolding sent_remove_peer using D(5) [of c] Some
      by (auto simp: remove_peer_def pwm sent_block_def sent_have_def)
  qed
qed

section \<open>Sending wants\<close>

lemma send_want_block_step:
  assumes "send_want_block p c (pw, flt, wp) = (pw', flt', wp')" "pw_ok pw" "index_ok wp"
  shows "pw_ok pw'" "index_ok wp'" "set (want_blocks pw') = insert c (set (want_blocks pw))"
    "set (want_haves pw') = set (want_haves pw) - {c}"
    "flt' = flt @ (if c \<in> set (want_blocks pw) then [] else [c])"
    "indexed wp' k = (if k = c \<and> c \<notin> set (want_blocks pw) then insert p (indexed wp k) else indexed wp k)"
  using assms by (auto simp: send_want_block_def pw_ok_def pwm distinct_removeAll split: if_splits)

lemma send_want_blocks_fold:
  assumes "fold (send_want_block p) cs (pw, flt, wp) = (pw', flt', wp')" "pw_ok pw" "index_ok wp"
  shows "pw_ok pw' \<and> index_ok wp' \<and> set (want_blocks pw') = set (want_blocks pw) \<union> set cs \<and>
    set (want_haves pw') = set (want_haves pw) - set cs \<and>
    (\<exists>new. flt' = flt @ new \<and> distinct new \<and> set new = set cs - set (want_blocks pw)) \<and>
    (\<forall>k. indexed wp' k = indexed wp k \<union> (if k \<in> set cs - set (want_blocks pw) then {p} else {}))"
  using assms
proof (induction cs arbitrary: pw flt wp)
  case (Cons c cs)
  obtain pw1 flt1 wp1 where 1: "send_want_block p c (pw, flt, wp) = (pw1, flt1, wp1)"
    by (metis prod.exhaust)
  note st = send_want_block_step [OF 1 Cons.prems(2,3)]
  have "fold (send_want_block p) cs (pw1, flt1, wp1) = (pw', flt', wp')" using Cons.prems(1) 1 by simp
  from Cons.IH [OF this st(1,2)] obtain new where IH: "pw_ok pw'" "index_ok wp'"
    "set (want_blocks pw') = set (want_blocks pw1) \<union> set cs" "set (want_haves pw') = set (want_haves pw1) - set cs"
    "flt' = flt1 @ new" "distinct new" "set new = set cs - set (want_blocks pw1)"
    "\<And>k. indexed wp' k = indexed wp1 k \<union> (if k \<in> set cs - set (want_blocks pw1) then {p} else {})"
    by blast
  have "flt' = flt @ ((if c \<in> set (want_blocks pw) then [] else [c]) @ new)" using IH(5) st(5) by simp
  moreover have "distinct ((if c \<in> set (want_blocks pw) then [] else [c]) @ new)"
    "set ((if c \<in> set (want_blocks pw) then [] else [c]) @ new) = set (c # cs) - set (want_blocks pw)"
    using IH(6,7) st(3) by auto
  moreover have "indexed wp' k = indexed wp k \<union> (if k \<in> set (c # cs) - set (want_blocks pw) then {p} else {})" for k
    using IH(8) [of k] st(3) st(6) [of k] by auto
  moreover have "set (want_blocks pw') = set (want_blocks pw) \<union> set (c # cs)"
    "set (want_haves pw') = set (want_haves pw) - set (c # cs)" using IH(3,4) st(3,4) by auto
  ultimately show ?case using IH(1,2) by blast
qed auto

lemma send_want_have_step:
  assumes "send_want_have bc p c (pw, flt, wp) = (pw', flt', wp')" "pw_ok pw" "index_ok wp"
  defines "n \<equiv> c \<notin> set bc \<and> c \<notin> set (want_blocks pw) \<and> c \<notin> set (want_haves pw)"
  shows "pw_ok pw'" "index_ok wp'" "want_blocks pw' = want_blocks pw"
    "set (want_haves pw') = (if n then insert c (set (want_haves pw)) else set (want_haves pw))"
    "flt' = flt @ (if n then [c] else [])"
    "indexed wp' k = (if k = c \<and> n then insert p (indexed wp k) else indexed wp k)"
  using assms by (auto simp: send_want_have_def pw_ok_def pwm split: if_splits)

lemma send_want_haves_fold:
  assumes "fold (send_want_have bc p) cs (pw, flt, wp) = (pw', flt', wp')" "pw_ok pw" "index_ok wp"
  shows "pw_ok pw' \<and> index_ok wp' \<and> want_blocks pw' = want_blocks pw \<and>
    (\<exists>new. flt' = flt @ new \<and> distinct new \<and>
       set new = set cs - set bc - set (want_blocks pw) - set (want_haves pw) \<and>
       set (want_haves pw') = set (want_haves pw) \<union> set new \<and>
       (\<forall>k. indexed wp' k = indexed wp k \<union> (if k \<in> set new then {p} else {})))"
  using assms
proof (induction cs arbitrary: pw flt wp)
  case (Cons c cs)
  define n where "n \<longleftrightarrow> c \<notin> set bc \<and> c \<notin> set (want_blocks pw) \<and> c \<notin> set (want_haves pw)"
  obtain pw1 flt1 wp1 where 1: "send_want_have bc p c (pw, flt, wp) = (pw1, flt1, wp1)"
    by (metis prod.exhaust)
  note st = send_want_have_step [OF 1 Cons.prems(2,3), folded n_def]
  have "fold (send_want_have bc p) cs (pw1, flt1, wp1) = (pw', flt', wp')" using Cons.prems(1) 1 by simp
  from Cons.IH [OF this st(1,2)] obtain new where IH: "pw_ok pw'" "index_ok wp'" "want_blocks pw' = want_blocks pw"
    "flt' = flt1 @ new" "distinct new"
    "set new = set cs - set bc - set (want_blocks pw) - set (want_haves pw1)"
    "set (want_haves pw') = set (want_haves pw1) \<union> set new"
    "\<And>k. indexed wp' k = indexed wp1 k \<union> (if k \<in> set new then {p} else {})"
    by (auto simp: st(3))
  let ?new = "(if n then [c] else []) @ new"
  have "flt' = flt @ ?new" using IH(4) st(5) by simp
  moreover have "distinct ?new" using IH(5,6) st(4) by auto
  moreover have "set ?new = set (c # cs) - set bc - set (want_blocks pw) - set (want_haves pw)"
    using IH(6) st(4) by (cases n) (auto simp: n_def)
  moreover have "set (want_haves pw') = set (want_haves pw) \<union> set ?new" using IH(7) st(4) by auto
  moreover have "indexed wp' k = indexed wp k \<union> (if k \<in> set ?new then {p} else {})" for k
    using IH(8) [of k] st(6) [of k] by auto
  ultimately show ?case using IH(1-3) by blast
qed auto

lemma send_wants_spec:
  assumes inv: "pwm_inv s" and pw: "map_of (peer_wants s) p = Some pw"
    and s': "send_wants p bs hs s = (s', calls)"
  shows "pwm_inv s' \<and> broadcast_wants s' = broadcast_wants s \<and>
    (\<forall>q c. sent_block s' q c \<longleftrightarrow> sent_block s q c \<or> q = p \<and> c \<in> set bs) \<and>
    (\<exists>fb fh. distinct fb \<and> distinct fh \<and> set fb = set bs - {c. sent_block s p c} \<and>
       set fh = set hs - set (broadcast_wants s) - {c. sent_block s' p c} - {c. sent_have s p c} \<and>
       (\<forall>q c. sent_have s' q c \<longleftrightarrow>
          sent_have s q c \<and> \<not> (q = p \<and> c \<in> set bs) \<or> q = p \<and> c \<in> set fh) \<and>
       calls = (if fb = [] \<and> fh = [] then [] else [AddWants p fb fh]))"
proof -
  note D = pwm_invD [OF inv]
  obtain pw1 fb wp1 where 1: "fold (send_want_block p) bs (pw, [], want_peers s) = (pw1, fb, wp1)"
    by (metis prod.exhaust)
  obtain pw2 fh wp2 where 2: "fold (send_want_have (broadcast_wants s) p) hs (pw1, [], wp1) = (pw2, fh, wp2)"
    by (metis prod.exhaust)
  from send_want_blocks_fold [OF 1 D(4) [OF pw] D(2)] have B: "pw_ok pw1" "index_ok wp1"
    "set (want_blocks pw1) = set (want_blocks pw) \<union> set bs" "set (want_haves pw1) = set (want_haves pw) - set bs"
    "distinct fb" "set fb = set bs - set (want_blocks pw)"
    "\<And>k. indexed wp1 k = indexed (want_peers s) k \<union> (if k \<in> set fb then {p} else {})"
    by auto
  from send_want_haves_fold [OF 2 B(1,2)] have H: "pw_ok pw2" "index_ok wp2" "want_blocks pw2 = want_blocks pw1"
    "distinct fh" "set fh = set hs - set (broadcast_wants s) - set (want_blocks pw1) - set (want_haves pw1)"
    "set (want_haves pw2) = set (want_haves pw1) \<union> set fh"
    "\<And>k. indexed wp2 k = indexed wp1 k \<union> (if k \<in> set fh then {p} else {})"
    by auto
  have s'_eq: "s' = s\<lparr>peer_wants := AList.update p pw2 (peer_wants s), want_peers := wp2\<rparr>"
    and calls: "calls = (if fb = [] \<and> fh = [] then [] else [AddWants p fb fh])"
    using s' pw 1 2 by (auto simp: send_wants_def split: if_splits)
  have sb: "sent_block s' q c \<longleftrightarrow> sent_block s q c \<or> q = p \<and> c \<in> set bs" for q c
    using B(3) H(3) pw by (simp add: s'_eq sent_block_def)
  have sh: "sent_have s' q c \<longleftrightarrow> sent_have s q c \<and> \<not> (q = p \<and> c \<in> set bs) \<or> q = p \<and> c \<in> set fh" for q c
    using B(4) H(6) pw by (auto simp: s'_eq sent_have_def)
  have fb: "set fb = set bs - {c. sent_block s p c}" using B(6) pw by (simp add: sent_block_def)
  have fh: "set fh = set hs - set (broadcast_wants s) - {c. sent_block s' p c} - {c. sent_have s p c}"
    unfolding sb using H(5) B(3,4) pw by (auto simp: sent_block_def sent_have_def)
  have "pwm_inv s'"
  proof (rule pwm_invI)
    show "q \<in> indexed (want_peers s') c \<longleftrightarrow> sent_block s' q c \<or> sent_have s' q c" for q c
      using D(5) [of c] fb by (auto simp: s'_eq H(7) B(7) sb [unfolded s'_eq] sh [unfolded s'_eq])
    show "pw_ok pw'" if "map_of (peer_wants s') q = Some pw'" for q pw'
      using that D(4) [of q pw'] H(1) by (simp add: s'_eq split: if_splits)
  qed (use D(1,3) H(2) in \<open>simp_all add: s'_eq\<close>)
  moreover have "broadcast_wants s' = broadcast_wants s" by (simp add: s'_eq)
  ultimately show ?thesis using sb sh fb fh B(5) H(4) calls by blast
qed

lemma send_wants_untracked: "map_of (peer_wants s) p = None \<Longrightarrow> send_wants p bs hs s = (s, [])"
  by (simp add: send_wants_def)

lemma pwm_inv_send_wants: "pwm_inv s \<Longrightarrow> pwm_inv (fst (send_wants p bs hs s))"
proof (cases "map_of (peer_wants s) p")
  case (Some pw)
  obtain s' calls where "send_wants p bs hs s = (s', calls)" by (meson surj_pair)
  moreover assume "pwm_inv s"
  ultimately show ?thesis using send_wants_spec [OF _ Some] by simp
qed (simp add: send_wants_untracked)

section \<open>Sending cancels\<close>

definition drop_wants :: "'cid list \<Rightarrow> 'cid PeerWant \<Rightarrow> 'cid PeerWant" where
  "drop_wants cs pw = pw\<lparr>want_blocks := filter (\<lambda>c. c \<notin> set cs) (want_blocks pw),
                         want_haves := filter (\<lambda>c. c \<notin> set cs) (want_haves pw)\<rparr>"

lemma drop_wants_ok: "pw_ok pw \<Longrightarrow> pw_ok (drop_wants cs pw)"
  by (auto simp: drop_wants_def pw_ok_def)

lemma drop_wants_id:
  "set cs \<inter> (set (want_blocks pw) \<union> set (want_haves pw)) = {} \<Longrightarrow> drop_wants cs pw = pw"
proof -
  assume "set cs \<inter> (set (want_blocks pw) \<union> set (want_haves pw)) = {}"
  then have "filter (\<lambda>c. c \<notin> set cs) (want_blocks pw) = want_blocks pw"
    "filter (\<lambda>c. c \<notin> set cs) (want_haves pw) = want_haves pw"
    by (auto simp: filter_id_conv)
  then show ?thesis by (simp add: drop_wants_def)
qed

lemma removeAll_filter: "removeAll c xs = filter (\<lambda>x. x \<noteq> c) xs"
  by (induction xs) auto

lemma cancel_one_step:
  "cancel_one bc c (pw, tc) =
     (drop_wants [c] pw,
      if c \<in> set (want_blocks pw) \<union> set (want_haves pw) - set bc then List.insert c tc else tc)"
  using drop_wants_id [of "[c]" pw]
  by (auto simp: cancel_one_def drop_wants_def removeAll_filter)

lemma drop_wants_drop: "drop_wants cs (drop_wants [c] pw) = drop_wants (c # cs) pw"
  by (simp add: drop_wants_def)

lemma cancel_fold:
  assumes "fold (cancel_one bc) cs (pw, tc) = (pw', tc')"
  shows "pw' = drop_wants cs pw \<and>
    set tc' = set tc \<union> (set cs \<inter> (set (want_blocks pw) \<union> set (want_haves pw)) - set bc) \<and>
    (distinct tc \<longrightarrow> distinct tc')"
  using assms
proof (induction cs arbitrary: pw tc)
  case (Cons c cs)
  let ?tc = "if c \<in> set (want_blocks pw) \<union> set (want_haves pw) - set bc then List.insert c tc else tc"
  have "fold (cancel_one bc) cs (drop_wants [c] pw, ?tc) = (pw', tc')"
    using Cons.prems by (simp add: cancel_one_step)
  from Cons.IH [OF this] show ?case
    by (auto simp: drop_wants_drop) (auto simp: drop_wants_def)
qed (simp add: drop_wants_id)

lemma send_cancel_peer_fst: "fst (send_cancel_peer bc bcs cs qs p pw) = drop_wants cs pw"
  using cancel_fold [of bc cs pw bcs] by (simp add: send_cancel_peer_def split: prod.split)

lemma send_cancel_peer_snd:
  assumes "distinct bcs"
  shows "\<exists>tc. distinct tc \<and> set tc = set bcs \<union> (set cs \<inter> (set (want_blocks pw) \<union> set (want_haves pw)) - set bc) \<and>
    snd (send_cancel_peer bc bcs cs qs p pw) = (if tc \<noteq> [] \<and> p \<in> set qs then [AddCancels p tc] else [])"
proof -
  obtain pw' tc where l: "fold (cancel_one bc) cs (pw, bcs) = (pw', tc)" by (meson surj_pair)
  then show ?thesis using cancel_fold [OF l] assms
    by (intro exI [of _ tc]) (simp add: send_cancel_peer_def)
qed

lemma send_cancel_peers_spec:
  "send_cancel_peers send ps pws = (pws', calls) \<Longrightarrow> distinct ps \<Longrightarrow>
   map_of pws' p = (if p \<in> set ps then map_option (fst \<circ> send p) (map_of pws p) else map_of pws p) \<and>
   (hmap_ok pws \<longrightarrow> hmap_ok pws') \<and>
   calls = concat (map (\<lambda>p. case map_of pws p of Some pw \<Rightarrow> snd (send p pw) | None \<Rightarrow> []) ps)"
proof (induction send ps pws arbitrary: calls rule: send_cancel_peers.induct)
  case (2 send q ps pws)
  show ?case
  proof (cases "map_of pws q")
    case None
    then show ?thesis using 2(1) [OF None] 2(3,4) by auto
  next
    case (Some pw)
    define pw' where "pw' = fst (send q pw)"
    obtain calls' where rest: "send_cancel_peers send ps (AList.update q pw' pws) = (pws', calls')"
      and calls: "calls = snd (send q pw) @ calls'"
      using 2(3) Some by (auto simp: pw'_def split: prod.splits)
    have "q \<notin> set ps" "distinct ps" using 2(4) by auto
    have IH: "map_of pws' p = (if p \<in> set ps then map_option (fst \<circ> send p) (map_of (AList.update q pw' pws) p)
          else map_of (AList.update q pw' pws) p)" "hmap_ok (AList.update q pw' pws) \<longrightarrow> hmap_ok pws'"
      "calls' = concat (map (\<lambda>p. case map_of (AList.update q pw' pws) p of Some pw \<Rightarrow> snd (send p pw) | None \<Rightarrow> []) ps)"
      using 2(2) [OF Some refl prod.collapse, folded pw'_def, OF rest \<open>distinct ps\<close>] by blast+
    have "calls' = concat (map (\<lambda>p. case map_of pws p of Some pw \<Rightarrow> snd (send p pw) | None \<Rightarrow> []) ps)"
      unfolding IH(3) using \<open>q \<notin> set ps\<close> by (intro arg_cong [where f = concat] map_cong) auto
    then show ?thesis using IH(1,2) Some \<open>q \<notin> set ps\<close> calls by (auto simp: pw'_def)
  qed
qed auto

fun call_peer :: "('cid, 'peer) queue_call \<Rightarrow> 'peer" where
  "call_peer (AddBroadcastWantHaves p _) = p"
| "call_peer (AddWants p _ _) = p"
| "call_peer (AddCancels p _) = p"

definition cancelled_at :: "('cid, 'peer) queue_call list \<Rightarrow> 'peer \<Rightarrow> 'cid set" where
  "cancelled_at calls p = {c. \<exists>tc. AddCancels p tc \<in> set calls \<and> c \<in> set tc}"

lemma call_peers_concat:
  assumes "distinct ps" "\<And>p. f p = [] \<or> (\<exists>tc. tc \<noteq> [] \<and> distinct tc \<and> f p = [AddCancels p tc])"
  shows "distinct (map call_peer (concat (map f ps)))" "set (map call_peer (concat (map f ps))) \<subseteq> set ps"
    "cancelled_at (concat (map f ps)) p = (if p \<in> set ps then cancelled_at (f p) p else {})"
proof -
  have f: "call_peer ` set (f q) \<subseteq> {q}" "distinct (map call_peer (f q))" for q
    using assms(2) [of q] by auto
  show 1: "set (map call_peer (concat (map f ps))) \<subseteq> set ps" using f(1) by auto
  have "set (map call_peer (concat (map f qs))) \<subseteq> set qs" for qs using f(1) by auto
  then show "distinct (map call_peer (concat (map f ps)))"
    using assms(1) by (induction ps) (use f in \<open>fastforce\<close>)+
  have "AddCancels p tc \<in> set (f q) \<Longrightarrow> q = p" for q tc using f(1) [of q] by force
  then show "cancelled_at (concat (map f ps)) p = (if p \<in> set ps then cancelled_at (f p) p else {})"
    by (auto simp: cancelled_at_def)
qed

lemma send_cancels_spec:
  assumes inv: "pwm_inv s" and s': "send_cancels cs qs s = (s', calls)"
  shows "hmap_ok (peer_wants s') \<and> map_of (peer_wants s') p = map_option (drop_wants cs) (map_of (peer_wants s) p) \<and>
    broadcast_wants s' = filter (\<lambda>c. c \<notin> set cs) (broadcast_wants s) \<and>
    want_peers s' = fold AList.delete cs (want_peers s) \<and> distinct (map call_peer calls) \<and>
    cancelled_at calls p =
       (if p \<in> set qs \<and> map_of (peer_wants s) p \<noteq> None
        then set cs \<inter> (set (broadcast_wants s) \<union> {c. sent_block s p c \<or> sent_have s p c}) else {})"
proof (cases "cs = []")
  case True
  then have "drop_wants cs = id" by (simp add: fun_eq_iff drop_wants_id)
  then show ?thesis
    using s' pwm_invD(1) [OF inv] True by (auto simp: send_cancels_def cancelled_at_def option.map_id)
next
  case False
  note D = pwm_invD [OF inv]
  define bcs where "bcs = remdups (filter (\<lambda>c. c \<in> set (broadcast_wants s)) cs)"
  define send where "send = (send_cancel_peer (broadcast_wants s) bcs cs qs :: 'b \<Rightarrow> _)"
  define ps where "ps = (if bcs = [] then remdups (concat (map (\<lambda>c. case map_of (want_peers s) c of
      Some peers \<Rightarrow> peers | None \<Rightarrow> []) cs)) else hkeys (peer_wants s))"
  obtain pws where l: "send_cancel_peers send ps (peer_wants s) = (pws, calls)"
    and s'_eq: "s' = s\<lparr>peer_wants := pws, broadcast_wants := filter (\<lambda>c. c \<notin> set bcs) (broadcast_wants s),
        want_peers := fold AList.delete cs (want_peers s)\<rparr>"
    using s' False by (auto simp: send_cancels_def Let_def bcs_def ps_def send_def split: prod.splits)
  have "distinct ps" using D(1) by (simp add: ps_def hmap_ok_def)
  note P = send_cancel_peers_spec [OF l this]
  have bcs: "distinct bcs" "set bcs = set cs \<inter> set (broadcast_wants s)" by (auto simp: bcs_def)
  let ?w = "\<lambda>pw. set (want_blocks pw) \<union> set (want_haves pw)"
  have notin: "bcs = [] \<and> set cs \<inter> ?w pw = {}" if "p \<notin> set ps" "map_of (peer_wants s) p = Some pw" for p pw
  proof -
    have "bcs = []" using that by (auto simp: ps_def hmap_key_iff split: if_splits)
    moreover have "p \<notin> indexed (want_peers s) c" if "c \<in> set cs" for c
      using \<open>p \<notin> set ps\<close> that \<open>bcs = []\<close> by (force simp: ps_def indexed_def split: option.splits)
    then have "set cs \<inter> ?w pw = {}" using D(5) that(2) by (auto simp: sent_block_def sent_have_def)
    ultimately show ?thesis by blast
  qed
  have fst_send: "fst \<circ> send p = drop_wants cs" for p by (simp add: fun_eq_iff send_def send_cancel_peer_fst)
  have m: "map_of pws p = map_option (drop_wants cs) (map_of (peer_wants s) p)"
    using P notin [of p] by (cases "map_of (peer_wants s) p") (auto simp: fst_send drop_wants_id)
  let ?f = "\<lambda>p. case map_of (peer_wants s) p of Some pw \<Rightarrow> snd (send p pw) | None \<Rightarrow> []"
  have f: "?f p = [] \<or> (\<exists>tc. tc \<noteq> [] \<and> distinct tc \<and> ?f p = [AddCancels p tc])" for p
  proof (cases "map_of (peer_wants s) p")
    case (Some pw)
    obtain tc where "distinct tc" "snd (send p pw) = (if tc \<noteq> [] \<and> p \<in> set qs then [AddCancels p tc] else [])"
      using send_cancel_peer_snd [OF bcs(1), of cs pw "broadcast_wants s" qs p] unfolding send_def by blast
    then show ?thesis using Some by (cases "tc \<noteq> [] \<and> p \<in> set qs") simp_all
  qed simp
  have cancelled: "cancelled_at (?f p) p = (if p \<in> set qs then set cs \<inter> (set (broadcast_wants s) \<union> ?w pw) else {})"
    if "map_of (peer_wants s) p = Some pw" for pw
  proof -
    obtain tc where tc: "set tc = set bcs \<union> (set cs \<inter> ?w pw - set (broadcast_wants s))"
      "snd (send p pw) = (if tc \<noteq> [] \<and> p \<in> set qs then [AddCancels p tc] else [])"
      using send_cancel_peer_snd [OF bcs(1), of cs pw "broadcast_wants s" qs p] unfolding send_def by blast
    have "cancelled_at (?f p) p = (if p \<in> set qs then set tc else {})"
      using that tc(2) by (auto simp: cancelled_at_def)
    moreover have "set tc = set cs \<inter> (set (broadcast_wants s) \<union> ?w pw)" unfolding tc(1) bcs(2) by blast
    ultimately show ?thesis by simp
  qed
  note C = call_peers_concat [OF \<open>distinct ps\<close>, of ?f, OF f]
  have "cancelled_at calls p =
       (if p \<in> set qs \<and> map_of (peer_wants s) p \<noteq> None
        then set cs \<inter> (set (broadcast_wants s) \<union> {c. sent_block s p c \<or> sent_have s p c}) else {})"
  proof (cases "map_of (peer_wants s) p")
    case None
    then have "cancelled_at (?f p) p = {}" by (simp add: cancelled_at_def)
    then show ?thesis using P C(3) [of p] None by (metis (no_types, lifting))
  next
    case (Some pw)
    have "cancelled_at calls p = (if p \<in> set ps then cancelled_at (?f p) p else {})"
      using P C(3) [of p] by metis
    also have "\<dots> = (if p \<in> set qs then set cs \<inter> (set (broadcast_wants s) \<union> ?w pw) else {})"
    proof (cases "p \<in> set ps")
      case False
      then have "set cs \<inter> (set (broadcast_wants s) \<union> ?w pw) = {}" using notin [OF False Some] bcs(2) by auto
      then show ?thesis using False by (simp only: if_False if_cancel)
    qed (simp only: cancelled [OF Some] if_True)
    also have "?w pw = {c. sent_block s p c \<or> sent_have s p c}"
      using Some by (auto simp: sent_block_def sent_have_def)
    finally show ?thesis using Some by simp
  qed
  moreover have "filter (\<lambda>c. c \<notin> set bcs) (broadcast_wants s) = filter (\<lambda>c. c \<notin> set cs) (broadcast_wants s)"
    using bcs(2) by (intro filter_cong) auto
  ultimately show ?thesis
    using P [THEN conjunct2] D(1) m C(1) by (simp only: s'_eq) simp
qed

lemma sent_send_cancels:
  assumes "pwm_inv s"
  shows "sent_block (fst (send_cancels cs qs s)) p c \<longleftrightarrow> sent_block s p c \<and> c \<notin> set cs"
    "sent_have (fst (send_cancels cs qs s)) p c \<longleftrightarrow> sent_have s p c \<and> c \<notin> set cs"
proof -
  obtain s' calls where l: "send_cancels cs qs s = (s', calls)" by (meson surj_pair)
  then have "map_of (peer_wants s') p = map_option (drop_wants cs) (map_of (peer_wants s) p)"
    using send_cancels_spec [OF assms l] by blast
  then show "sent_block (fst (send_cancels cs qs s)) p c \<longleftrightarrow> sent_block s p c \<and> c \<notin> set cs"
    "sent_have (fst (send_cancels cs qs s)) p c \<longleftrightarrow> sent_have s p c \<and> c \<notin> set cs"
    by (auto simp: l sent_block_def sent_have_def drop_wants_def split: option.split)
qed

lemma pwm_inv_send_cancels:
  assumes "pwm_inv s"
  shows "pwm_inv (fst (send_cancels cs qs s))"
proof -
  obtain s' calls where l: "send_cancels cs qs s = (s', calls)" by (meson surj_pair)
  note S = send_cancels_spec [OF assms l] and D = pwm_invD [OF assms]
  have "pwm_inv s'"
  proof (rule pwm_invI)
    show "pw_ok pw" if "map_of (peer_wants s') p = Some pw" for p pw
      using that S [of p] D(4) by (auto intro: drop_wants_ok)
    show "p \<in> indexed (want_peers s') c \<longleftrightarrow> sent_block s' p c \<or> sent_have s' p c" for p c
      using S D(5) [of c] sent_send_cancels [OF assms, of cs qs p c] by (simp add: l pwm)
  qed (use S D in \<open>simp_all add: pwm\<close>)
  then show ?thesis by (simp add: l)
qed

section \<open>Adding peers and broadcasting\<close>

lemma sent_add_peer:
  "sent_block (fst (add_peer p s)) = sent_block s" "sent_have (fst (add_peer p s)) = sent_have s"
  by (auto simp: fun_eq_iff add_peer_def sent_block_def sent_have_def)

lemma pwm_inv_add_peer: "pwm_inv s \<Longrightarrow> pwm_inv (fst (add_peer p s))"
proof (rule pwm_invI)
  assume inv: "pwm_inv s"
  note D = pwm_invD [OF inv]
  show "pw_ok pw" if "map_of (peer_wants (fst (add_peer p s))) q = Some pw" for q pw
    using that D(4) [of q pw] by (auto simp: add_peer_def pw_ok_def split: if_splits)
  show "q \<in> indexed (want_peers (fst (add_peer p s))) c \<longleftrightarrow>
      sent_block (fst (add_peer p s)) q c \<or> sent_have (fst (add_peer p s)) q c" for q c
    unfolding sent_add_peer using D(5) [of c] by (simp add: add_peer_def)
qed (auto simp: add_peer_def dest: pwm_invD)

lemma broadcast_frame:
  "peer_wants (fst (broadcast_want_haves hs qs s)) = peer_wants s"
  "want_peers (fst (broadcast_want_haves hs qs s)) = want_peers s"
  by (simp_all add: broadcast_want_haves_def Let_def)

lemma pwm_inv_broadcast: "pwm_inv s \<Longrightarrow> distinct hs \<Longrightarrow> pwm_inv (fst (broadcast_want_haves hs qs s))"
proof (rule pwm_invI)
  assume inv: "pwm_inv s" and "distinct hs"
  note D = pwm_invD [OF inv]
  then show "distinct (broadcast_wants (fst (broadcast_want_haves hs qs s)))"
    using \<open>distinct hs\<close> by (auto simp: broadcast_want_haves_def Let_def)
  show "q \<in> indexed (want_peers (fst (broadcast_want_haves hs qs s))) c \<longleftrightarrow>
      sent_block (fst (broadcast_want_haves hs qs s)) q c \<or> sent_have (fst (broadcast_want_haves hs qs s)) q c" for q c
    using D(5) [of c] sent_peer_wants_cong [OF broadcast_frame(1), of hs qs s] by (simp add: broadcast_frame)
qed (simp_all add: broadcast_frame pwm_invD)

section \<open>Operation sequences\<close>

text \<open>The argument of a broadcast is a hash set: its list of elements has no duplicates.\<close>

datatype ('cid, 'peer) pwm_op =
    PwmAddPeer 'peer
  | PwmRemovePeer 'peer
  | PwmBroadcast "'cid list" "'peer list"
  | PwmSendWants 'peer "'cid list" "'cid list"
  | PwmSendCancels "'cid list" "'peer list"

fun pwm_step :: "('cid, 'peer) pwm_op \<Rightarrow> ('cid, 'peer) PeerWantManager \<Rightarrow> ('cid, 'peer) PeerWantManager" where
  "pwm_step (PwmAddPeer p) s = fst (add_peer p s)"
| "pwm_step (PwmRemovePeer p) s = remove_peer p s"
| "pwm_step (PwmBroadcast hs qs) s = fst (broadcast_want_haves (remdups hs) qs s)"
| "pwm_step (PwmSendWants p bs hs) s = fst (send_wants p bs hs s)"
| "pwm_step (PwmSendCancels cs qs) s = fst (send_cancels cs qs s)"

lemma pwm_step_inv: "pwm_inv s \<Longrightarrow> pwm_inv (pwm_step x s)"
  by (cases x) (simp_all add: pwm_inv_add_peer pwm_inv_remove_peer pwm_inv_broadcast
      pwm_inv_send_wants pwm_inv_send_cancels)

interpretation pwm: component "\<lambda>s. s = PeerWantManager_default" pwm_step pwm_inv
  by unfold_locales
    (simp_all add: pwm_step_inv, simp add: pwm_inv_def PeerWantManager_default_def sent_block_def sent_have_def)

abbreviation pwm_run :: "('cid, 'peer) pwm_op list \<Rightarrow> ('cid, 'peer) PeerWantManager" where
  "pwm_run xs \<equiv> fold pwm_step xs PeerWantManager_default"

lemma pwm_run_inv: "pwm_inv (pwm_run xs)"
  by (rule pwm.reachable_inv) simp

section \<open>Counting and listing wants\<close>

lemma want_peer_counts_fold:
  "fold (\<lambda>peer counts.
       case map_of (peer_wants s) peer of
         Some pw \<Rightarrow>
           (if c \<in> set (want_blocks pw) then counts\<lparr>want_block := want_block counts + 1\<rparr>
            else if c \<in> set (want_haves pw) then counts\<lparr>want_have := want_have counts + 1\<rparr>
            else counts)
       | None \<Rightarrow> counts) ps \<lparr>want_block = b, want_have = h, is_broadcast = x\<rparr> =
   \<lparr>want_block = b + length (filter (\<lambda>p. sent_block s p c) ps),
    want_have = h + length (filter (\<lambda>p. sent_have s p c \<and> \<not> sent_block s p c) ps), is_broadcast = x\<rparr>"
proof (induction ps arbitrary: b h)
  case (Cons p ps)
  then show ?case by (cases "map_of (peer_wants s) p") (simp_all add: sent_block_def sent_have_def)
qed simp

lemma sent_disjoint: "pwm_inv s \<Longrightarrow> \<not> (sent_block s p c \<and> sent_have s p c)"
  using pwm_invD(4) [of s p] by (auto simp: sent_block_def sent_have_def pw_ok_def split: option.splits)

lemma length_filter_indexed:
  assumes "pwm_inv s" "{p. P p} \<subseteq> indexed (want_peers s) c"
  shows "length (filter P (case map_of (want_peers s) c of Some peers \<Rightarrow> peers | None \<Rightarrow> [])) = card {p. P p}"
proof (cases "map_of (want_peers s) c")
  case None
  then have "{p. P p} = {}" using assms(2) by (simp add: indexed_def)
  then show ?thesis using None by (simp only: option.case) simp
next
  case (Some ps)
  then have "distinct ps" using pwm_invD(2) [OF assms(1)] by (simp add: index_ok_def)
  moreover have "{p. P p} = {p. P p} \<inter> set ps" using assms(2) Some by (auto simp: indexed_def)
  ultimately show ?thesis using Some by (simp add: distinct_length_filter)
qed

lemma want_peer_counts_eq:
  assumes "pwm_inv s"
  shows "want_peer_counts c s = \<lparr>want_block = card {p. sent_block s p c}, want_have = card {p. sent_have s p c},
    is_broadcast = (c \<in> set (broadcast_wants s))\<rparr>"
proof -
  have "sent_have s p c \<and> \<not> sent_block s p c \<longleftrightarrow> sent_have s p c" for p
    using sent_disjoint [OF assms] by blast
  moreover have "{p. sent_block s p c} \<subseteq> indexed (want_peers s) c" "{p. sent_have s p c} \<subseteq> indexed (want_peers s) c"
    using pwm_invD(5) [OF assms] by auto
  ultimately show ?thesis
    by (simp add: want_peer_counts_def want_peer_counts_fold length_filter_indexed [OF assms])
qed

lemma in_concat_values_iff:
  assumes "hmap_ok m"
  shows "c \<in> set (concat (map f (hvalues m))) \<longleftrightarrow> (\<exists>p. case map_of m p of Some v \<Rightarrow> c \<in> set (f v) | None \<Rightarrow> False)"
proof -
  have "c \<in> set (concat (map f (hvalues m))) \<longleftrightarrow> (\<exists>v. v \<in> snd ` set m \<and> c \<in> set (f v))" by auto
  also have "\<dots> \<longleftrightarrow> (\<exists>p v. map_of m p = Some v \<and> c \<in> set (f v))" unfolding hmap_value_iff [OF assms] by blast
  also have "\<dots> \<longleftrightarrow> (\<exists>p. case map_of m p of Some v \<Rightarrow> c \<in> set (f v) | None \<Rightarrow> False)"
    by (intro ex_cong1) (simp split: option.split)
  finally show ?thesis .
qed

lemma get_want_blocks_iff: "pwm_inv s \<Longrightarrow> c \<in> get_want_blocks s \<longleftrightarrow> (\<exists>p. sent_block s p c)"
  unfolding get_want_blocks_def sent_block_def by (intro in_concat_values_iff pwm_invD(1))

lemma get_want_haves_iff:
  "pwm_inv s \<Longrightarrow> c \<in> get_want_haves s \<longleftrightarrow> (\<exists>p. sent_have s p c) \<or> c \<in> set (broadcast_wants s)"
  unfolding get_want_haves_def sent_have_def set_append Un_iff by (simp only: in_concat_values_iff pwm_invD(1))

lemma get_wants_iff:
  assumes "pwm_inv s"
  shows "c \<in> get_wants s \<longleftrightarrow> (\<exists>p. sent_block s p c \<or> sent_have s p c) \<or> c \<in> set (broadcast_wants s)"
  unfolding get_wants_def set_append Un_iff indexed_tracked_iff [OF pwm_invD(2) [OF assms]] pwm_invD(5) [OF assms]
  by auto

section \<open>Properties\<close>

text \<open>C10: After any sequence of operations the reverse index lists under each cid exactly the peers it was
  sent to, no peer holds a cid both as want-block and as want-have, the counters are the numbers
  of such peers, and the list of all wants is the union of the want-blocks and want-haves.\<close>

theorem reverse_index_correct:
  "let s = pwm_run xs
   in indexed (want_peers s) c = {p. sent_block s p c \<or> sent_have s p c} \<and>
      {p. sent_block s p c} \<inter> {p. sent_have s p c} = {} \<and>
      want_peer_counts c s = \<lparr>want_block = card {p. sent_block s p c}, want_have = card {p. sent_have s p c},
        is_broadcast = (c \<in> set (broadcast_wants s))\<rparr> \<and>
      get_wants s = get_want_blocks s \<union> get_want_haves s"
proof -
  let ?s = "pwm_run xs"
  note inv = pwm_run_inv [of xs]
  have "get_wants ?s = get_want_blocks ?s \<union> get_want_haves ?s"
    by (auto simp: get_wants_iff [OF inv] get_want_blocks_iff [OF inv] get_want_haves_iff [OF inv])
  moreover have "{p. sent_block ?s p c} \<inter> {p. sent_have ?s p c} = {}" using sent_disjoint [OF inv] by blast
  ultimately show ?thesis
    using pwm_invD(5) [OF inv, of c] want_peer_counts_eq [OF inv, of c] by (simp only: Let_def simp_thms)
qed

text \<open>C12: Sending wants to a known peer sends, each once, exactly the want-blocks it was not yet sent as
  want-blocks and the want-haves that are neither broadcast nor already sent, records them, turns
  a want-have into a want-block, and leaves every other peer as it was; an empty call is not made,
  and an unknown peer changes nothing.\<close>

theorem send_wants_correct:
  "let s = pwm_run xs; (s', calls) = send_wants p bs hs s
   in if map_of (peer_wants s) p = None then s' = s \<and> calls = []
      else (\<forall>q c. sent_block s' q c \<longleftrightarrow> sent_block s q c \<or> q = p \<and> c \<in> set bs) \<and>
        (\<exists>fb fh. distinct fb \<and> distinct fh \<and> set fb = set bs - {c. sent_block s p c} \<and>
           set fh = set hs - set (broadcast_wants s) - {c. sent_block s' p c} - {c. sent_have s p c} \<and>
           (\<forall>q c. sent_have s' q c \<longleftrightarrow>
              sent_have s q c \<and> \<not> (q = p \<and> c \<in> set bs) \<or> q = p \<and> c \<in> set fh) \<and>
           calls = (if fb = [] \<and> fh = [] then [] else [AddWants p fb fh]))"
proof -
  obtain s' calls where l: "send_wants p bs hs (pwm_run xs) = (s', calls)" by (meson surj_pair)
  show ?thesis
  proof (cases "map_of (peer_wants (pwm_run xs)) p")
    case None
    then show ?thesis using send_wants_untracked [OF None, of bs hs] l by (simp add: Let_def)
  next
    case (Some pw)
    from send_wants_spec [OF pwm_run_inv Some l] show ?thesis
      unfolding Let_def l prod.case Some by (simp only: option.distinct if_False simp_thms)
  qed
qed

text \<open>C11: Cancelling removes the cids from the wants of every peer, from the broadcast wants and from the
  index, and from nothing else. Each peer with a queue is told once, exactly the cancelled cids that
  were broadcast or sent to it.\<close>

theorem send_cancels_correct:
  "let s = pwm_run xs; (s', calls) = send_cancels cs qs s
   in (\<forall>p c. (sent_block s' p c \<longleftrightarrow> sent_block s p c \<and> c \<notin> set cs) \<and>
             (sent_have s' p c \<longleftrightarrow> sent_have s p c \<and> c \<notin> set cs)) \<and>
      set (broadcast_wants s') = set (broadcast_wants s) - set cs \<and>
      (\<forall>c. indexed (want_peers s') c = (if c \<in> set cs then {} else indexed (want_peers s) c)) \<and>
      distinct (map call_peer calls) \<and>
      (\<forall>p. cancelled_at calls p =
         (if p \<in> set qs \<and> map_of (peer_wants s) p \<noteq> None
          then set cs \<inter> (set (broadcast_wants s) \<union> {c. sent_block s p c \<or> sent_have s p c}) else {}))"
proof -
  obtain s' calls where l: "send_cancels cs qs (pwm_run xs) = (s', calls)" by (meson surj_pair)
  note S = send_cancels_spec [OF pwm_run_inv l] and sent = sent_send_cancels [OF pwm_run_inv, of cs qs xs, unfolded l fst_conv]
  have "set (broadcast_wants s') = set (broadcast_wants (pwm_run xs)) - set cs" using S by auto
  moreover have "indexed (want_peers s') c = (if c \<in> set cs then {} else indexed (want_peers (pwm_run xs)) c)" for c
    using S by (simp add: pwm)
  ultimately show ?thesis using S sent unfolding Let_def l prod.case by blast
qed

end
