(* ===== verification/Peer_Manager.thy ===== *)
theory Peer_Manager
  imports Peer_Want_Manager
begin

text \<open>
  The peer manager actor (\<open>client/peer_manager.rs\<close>): it owns the message queue of every connected
  peer, the peer want manager and the peers of each session, and handles one message of its
  channel at a time. A handler returns the new state, the answer sent on the message's oneshot
  channel and the effects in order: queues started and stopped, calls on queues, signals to
  sessions, and the network's connection protection.

  The hash set of \<open>BroadcastWantHaves\<close> is the list of its elements.

  Whether the queue of a peer still runs when the peer connects is decided by the queue's own
  task; it is an argument of the message \<open>Connected\<close>.
\<close>

section \<open>State, messages and effects\<close>

record 'ses PeerState =
  ps_sessions :: "'ses list"

record 'peer SessionState =
  ss_peers :: "'peer list"
  peers_discovered :: bool

record ('cid, 'peer, 'ses, 'cb) PeerManagerActor =
  pm_peers :: "('peer, 'ses PeerState) hmap"
  peer_want_manager :: "('cid, 'peer) PeerWantManager"
  pm_sessions :: "('ses, 'peer SessionState) hmap"
  on_dont_have_timeout :: 'cb

datatype ('cid, 'peer, 'ses, 'cb) pm_message =
    GetConnectedPeers
  | GetCurrentWants
  | GetCurrentWantBlocks
  | GetCurrentWantHaves
  | Connected 'peer bool
  | Disconnected 'peer
  | ResponseReceived 'peer "'cid list"
  | BroadcastWantHaves "'cid list"
  | SendWants 'peer "'cid list" "'cid list"
  | SendCancels "'cid list"
  | RegisterSession 'peer 'ses
  | UnregisterSession 'ses
  | AddPeerToSession 'ses 'peer
  | RemovePeerFromSession 'ses 'peer
  | ProtectConnection 'ses 'peer
  | PeersDiscoveredForSession 'ses
  | PeersForSession 'ses
  | SessionHasPeers 'ses
  | SessionHasPeer 'ses 'peer
  | SetCb 'cb

datatype ('cid, 'peer) pm_reply =
    NoReply
  | ReplyUnit
  | ReplyBool bool
  | ReplyPeers "'peer list"
  | ReplyCids "'cid set"

datatype ('cid, 'peer, 'ses) pm_effect =
    StartQueue 'peer
  | StopQueue 'peer
  | QueueCall "('cid, 'peer) queue_call"
  | QueueResponse 'peer "'cid list"
  | SignalAvailability 'ses 'peer bool
  | ProtectPeer 'peer
  | UnprotectPeer 'peer

type_synonym ('cid, 'peer, 'ses, 'cb) pm_result =
  "(('cid, 'peer) pm_reply \<times> ('cid, 'peer, 'ses) pm_effect list \<times> ('cid, 'peer, 'ses, 'cb) PeerManagerActor) checked"

definition PeerManagerActor_new :: "'cb \<Rightarrow> ('cid, 'peer, 'ses, 'cb) PeerManagerActor" where
  "PeerManagerActor_new cb =
     \<lparr>pm_peers = [], peer_want_manager = PeerWantManager_default, pm_sessions = [], on_dont_have_timeout = cb\<rparr>"

section \<open>Handlers\<close>

definition insert_peer ::
  "'peer \<Rightarrow> 'ses option \<Rightarrow> ('cid, 'peer, 'ses, 'cb) PeerManagerActor \<Rightarrow>
   ('cid, 'peer, 'ses) pm_effect list \<times> ('cid, 'peer, 'ses, 'cb) PeerManagerActor" where
  "insert_peer peer session s =
     (case map_of (pm_peers s) peer of
        Some st \<Rightarrow>
          (case session of
             Some sid \<Rightarrow> ([], s\<lparr>pm_peers := AList.update peer
               (st\<lparr>ps_sessions := List.insert sid (ps_sessions st)\<rparr>) (pm_peers s)\<rparr>)
           | None \<Rightarrow> ([], s))
      | None \<Rightarrow>
          ([StartQueue peer], s\<lparr>pm_peers := AList.update peer
             \<lparr>ps_sessions = (case session of Some sid \<Rightarrow> [sid] | None \<Rightarrow> [])\<rparr> (pm_peers s)\<rparr>))"

definition signal_availability ::
  "'peer \<Rightarrow> bool \<Rightarrow> ('cid, 'peer, 'ses, 'cb) PeerManagerActor \<Rightarrow> ('cid, 'peer, 'ses) pm_effect list" where
  "signal_availability peer is_connected s =
     (case map_of (pm_peers s) peer of
        Some st \<Rightarrow>
          concat (map (\<lambda>sid. case map_of (pm_sessions s) sid of
            Some session \<Rightarrow> [SignalAvailability sid peer is_connected] | None \<Rightarrow> []) (ps_sessions st))
      | None \<Rightarrow> [])"

definition connected ::
  "'peer \<Rightarrow> bool \<Rightarrow> ('cid, 'peer, 'ses, 'cb) PeerManagerActor \<Rightarrow> ('cid, 'peer, 'ses, 'cb) pm_result" where
  "connected peer is_running s =
     (let (es, s1) = insert_peer peer None s
      in case map_of (pm_peers s1) peer of
           None \<Rightarrow> Inl ExpectFailed
         | Some st \<Rightarrow>
             (let restart = (if is_running then [] else [StartQueue peer]);
                  (pwm, calls) = add_peer peer (peer_want_manager s1);
                  s2 = s1\<lparr>peer_want_manager := pwm\<rparr>
              in Inr (NoReply, es @ restart @ map QueueCall calls @ signal_availability peer True s2, s2)))"

definition disconnected ::
  "'peer \<Rightarrow> ('cid, 'peer, 'ses, 'cb) PeerManagerActor \<Rightarrow>
   ('cid, 'peer, 'ses) pm_effect list \<times> ('cid, 'peer, 'ses, 'cb) PeerManagerActor" where
  "disconnected peer s =
     (case map_of (pm_peers s) peer of
        Some st \<Rightarrow> ([StopQueue peer],
          s\<lparr>pm_peers := AList.delete peer (pm_peers s),
            peer_want_manager := remove_peer peer (peer_want_manager s)\<rparr>)
      | None \<Rightarrow> ([], s))"

definition register_session ::
  "'peer \<Rightarrow> 'ses \<Rightarrow> ('cid, 'peer, 'ses, 'cb) PeerManagerActor \<Rightarrow>
   bool \<times> ('cid, 'peer, 'ses, 'cb) PeerManagerActor" where
  "register_session peer sid s =
     (case map_of (pm_sessions s) sid of
        Some session \<Rightarrow>
          (peer \<notin> set (ss_peers session),
           s\<lparr>pm_sessions := AList.update sid
               \<lparr>ss_peers = List.insert peer (ss_peers session), peers_discovered = True\<rparr> (pm_sessions s)\<rparr>)
      | None \<Rightarrow>
          (True, s\<lparr>pm_sessions := AList.update sid \<lparr>ss_peers = [peer], peers_discovered = True\<rparr> (pm_sessions s)\<rparr>))"

definition unregister_session ::
  "'ses \<Rightarrow> ('cid, 'peer, 'ses, 'cb) PeerManagerActor \<Rightarrow>
   ('cid, 'peer, 'ses) pm_effect list \<times> ('cid, 'peer, 'ses, 'cb) PeerManagerActor" where
  "unregister_session sid s =
     (let s1 = s\<lparr>pm_peers := map (\<lambda>(p, st). (p, st\<lparr>ps_sessions := removeAll sid (ps_sessions st)\<rparr>)) (pm_peers s)\<rparr>
      in case map_of (pm_sessions s1) sid of
           Some session \<Rightarrow> (map UnprotectPeer (ss_peers session), s1\<lparr>pm_sessions := AList.delete sid (pm_sessions s1)\<rparr>)
         | None \<Rightarrow> ([], s1))"

definition add_peer_to_session ::
  "'ses \<Rightarrow> 'peer \<Rightarrow> ('cid, 'peer, 'ses, 'cb) PeerManagerActor \<Rightarrow>
   bool \<times> ('cid, 'peer, 'ses, 'cb) PeerManagerActor" where
  "add_peer_to_session sid peer s =
     (case map_of (pm_sessions s) sid of
        Some session \<Rightarrow>
          (if peer \<in> set (ss_peers session) then (False, s)
           else (True, s\<lparr>pm_sessions := AList.update sid
                  \<lparr>ss_peers = List.insert peer (ss_peers session), peers_discovered = True\<rparr> (pm_sessions s)\<rparr>))
      | None \<Rightarrow> (True, s))"

definition protect_connection ::
  "'ses \<Rightarrow> 'peer \<Rightarrow> ('cid, 'peer, 'ses, 'cb) PeerManagerActor \<Rightarrow> ('cid, 'peer, 'ses) pm_effect list" where
  "protect_connection sid peer s =
     (case map_of (pm_sessions s) sid of
        Some session \<Rightarrow> (if peer \<in> set (ss_peers session) then [ProtectPeer peer] else [])
      | None \<Rightarrow> [])"

definition remove_peer_from_session ::
  "'ses \<Rightarrow> 'peer \<Rightarrow> ('cid, 'peer, 'ses, 'cb) PeerManagerActor \<Rightarrow>
   bool \<times> ('cid, 'peer, 'ses) pm_effect list \<times> ('cid, 'peer, 'ses, 'cb) PeerManagerActor" where
  "remove_peer_from_session sid peer s =
     (case map_of (pm_sessions s) sid of
        Some session \<Rightarrow>
          (let existed = (peer \<in> set (ss_peers session))
           in (existed, if existed then [UnprotectPeer peer] else [],
               s\<lparr>pm_sessions := AList.update sid
                   (session\<lparr>ss_peers := removeAll peer (ss_peers session)\<rparr>) (pm_sessions s)\<rparr>))
      | None \<Rightarrow> (False, [], s))"

definition on_session ::
  "('peer SessionState \<Rightarrow> 'r) \<Rightarrow> 'r \<Rightarrow> 'ses \<Rightarrow> ('cid, 'peer, 'ses, 'cb) PeerManagerActor \<Rightarrow> 'r" where
  "on_session f dflt sid s = (case map_of (pm_sessions s) sid of Some session \<Rightarrow> f session | None \<Rightarrow> dflt)"

text \<open>One iteration of the actor's loop.\<close>

fun handle ::
  "('cid, 'peer, 'ses, 'cb) pm_message \<Rightarrow> ('cid, 'peer, 'ses, 'cb) PeerManagerActor \<Rightarrow>
   ('cid, 'peer, 'ses, 'cb) pm_result" where
  "handle GetConnectedPeers s = Inr (ReplyPeers (hkeys (pm_peers s)), [], s)"
| "handle GetCurrentWants s = Inr (ReplyCids (get_wants (peer_want_manager s)), [], s)"
| "handle GetCurrentWantBlocks s = Inr (ReplyCids (get_want_blocks (peer_want_manager s)), [], s)"
| "handle GetCurrentWantHaves s = Inr (ReplyCids (get_want_haves (peer_want_manager s)), [], s)"
| "handle (Connected peer is_running) s = connected peer is_running s"
| "handle (Disconnected peer) s = (let (es, s') = disconnected peer s in Inr (NoReply, es, s'))"
| "handle (ResponseReceived peer cids) s =
     Inr (NoReply, if map_of (pm_peers s) peer \<noteq> None then [QueueResponse peer cids] else [], s)"
| "handle (BroadcastWantHaves cids) s =
     (let (pwm, calls) = broadcast_want_haves (remdups cids) (hkeys (pm_peers s)) (peer_want_manager s)
      in Inr (NoReply, map QueueCall calls, s\<lparr>peer_want_manager := pwm\<rparr>))"
| "handle (SendWants peer blocks haves) s =
     (if map_of (pm_peers s) peer \<noteq> None
      then (let (pwm, calls) = send_wants peer blocks haves (peer_want_manager s)
            in Inr (NoReply, map QueueCall calls, s\<lparr>peer_want_manager := pwm\<rparr>))
      else Inr (NoReply, [], s))"
| "handle (SendCancels cids) s =
     (let (pwm, calls) = send_cancels cids (hkeys (pm_peers s)) (peer_want_manager s)
      in Inr (NoReply, map QueueCall calls, s\<lparr>peer_want_manager := pwm\<rparr>))"
| "handle (RegisterSession peer sid) s = (let (new, s') = register_session peer sid s in Inr (ReplyBool new, [], s'))"
| "handle (UnregisterSession sid) s = (let (es, s') = unregister_session sid s in Inr (ReplyUnit, es, s'))"
| "handle (AddPeerToSession sid peer) s = (let (new, s') = add_peer_to_session sid peer s in Inr (ReplyBool new, [], s'))"
| "handle (RemovePeerFromSession sid peer) s =
     (let (existed, es, s') = remove_peer_from_session sid peer s in Inr (ReplyBool existed, es, s'))"
| "handle (ProtectConnection sid peer) s = Inr (ReplyUnit, protect_connection sid peer s, s)"
| "handle (PeersDiscoveredForSession sid) s = Inr (ReplyBool (on_session peers_discovered False sid s), [], s)"
| "handle (PeersForSession sid) s = Inr (ReplyPeers (on_session ss_peers [] sid s), [], s)"
| "handle (SessionHasPeers sid) s = Inr (ReplyBool (on_session (\<lambda>session. ss_peers session \<noteq> []) False sid s), [], s)"
| "handle (SessionHasPeer sid peer) s =
     Inr (ReplyBool (on_session (\<lambda>session. peer \<in> set (ss_peers session)) False sid s), [], s)"
| "handle (SetCb cb) s = Inr (NoReply, [], s\<lparr>on_dont_have_timeout := cb\<rparr>)"

text \<open>The loop over the messages of the channel, and the queues stopped when it is closed.\<close>

fun pm_loop ::
  "('cid, 'peer, 'ses, 'cb) pm_message list \<Rightarrow> ('cid, 'peer, 'ses, 'cb) PeerManagerActor \<Rightarrow>
   (('cid, 'peer, 'ses) pm_effect list \<times> ('cid, 'peer, 'ses, 'cb) PeerManagerActor) checked" where
  "pm_loop [] s = Inr ([], s)"
| "pm_loop (m # ms) s =
     rbind (handle m s) (\<lambda>(reply, es, s1).
       rbind (pm_loop ms s1) (\<lambda>(es', s2). Inr (es @ es', s2)))"

definition pm_stop :: "('cid, 'peer, 'ses, 'cb) PeerManagerActor \<Rightarrow> ('cid, 'peer, 'ses) pm_effect list" where
  "pm_stop s = map StopQueue (hkeys (pm_peers s))"

section \<open>Connected peers are the tracked peers\<close>

definition pm_inv :: "('cid, 'peer, 'ses, 'cb) PeerManagerActor \<Rightarrow> bool" where
  "pm_inv s \<longleftrightarrow> pwm_inv (peer_want_manager s) \<and> hmap_ok (pm_peers s) \<and>
     (\<forall>p. map_of (peer_wants (peer_want_manager s)) p = None \<longleftrightarrow> map_of (pm_peers s) p = None) \<and>
     (\<forall>p st. map_of (pm_peers s) p = Some st \<longrightarrow> ps_sessions st = [])"

lemma tracked_add_peer:
  "map_of (peer_wants (fst (add_peer p s))) q = None \<longleftrightarrow> q \<noteq> p \<and> map_of (peer_wants s) q = None"
  by (auto simp: add_peer_def)

lemma tracked_remove_peer:
  "map_of (peer_wants (remove_peer p s)) q = None \<longleftrightarrow> q = p \<or> map_of (peer_wants s) q = None"
  by (auto simp: remove_peer_def pwm split: option.split)

lemma tracked_send_wants:
  "map_of (peer_wants (fst (send_wants p bs hs s))) q = None \<longleftrightarrow> map_of (peer_wants s) q = None"
  by (auto simp: send_wants_def split: option.split prod.split)

lemma tracked_send_cancels:
  assumes "pwm_inv s"
  shows "map_of (peer_wants (fst (send_cancels cs qs s))) q = None \<longleftrightarrow> map_of (peer_wants s) q = None"
  using send_cancels_spec [OF assms, of cs qs "fst (send_cancels cs qs s)" "snd (send_cancels cs qs s)" q] by simp

lemmas tracked = tracked_add_peer tracked_remove_peer tracked_send_wants tracked_send_cancels broadcast_frame

lemma pm_inv_with_pwm:
  assumes "pm_inv s" "pwm_inv w"
    "\<And>p. map_of (peer_wants w) p = None \<longleftrightarrow> map_of (peer_wants (peer_want_manager s)) p = None"
  shows "pm_inv (s\<lparr>peer_want_manager := w\<rparr>)"
  using assms by (simp add: pm_inv_def)

lemma pm_inv_with_sessions: "pm_inv s \<Longrightarrow> pm_inv (s\<lparr>pm_sessions := x\<rparr>)"
  by (simp add: pm_inv_def)

lemma pm_invD:
  assumes "pm_inv s"
  shows "pwm_inv (peer_want_manager s)" "hmap_ok (pm_peers s)"
    "map_of (peer_wants (peer_want_manager s)) p = None \<longleftrightarrow> map_of (pm_peers s) p = None"
    "map_of (pm_peers s) p = Some st \<Longrightarrow> ps_sessions st = []"
  using assms by (simp_all add: pm_inv_def)

lemma signal_availability_none: "pm_inv s \<Longrightarrow> signal_availability p b s = []"
  by (simp add: signal_availability_def pm_invD(4) split: option.split)

lemma connected_ok:
  assumes "pm_inv s"
  shows "connected p r s =
    Inr (NoReply, (if map_of (pm_peers s) p = None then [StartQueue p] else []) @ (if r then [] else [StartQueue p]) @
           map QueueCall (snd (add_peer p (peer_want_manager s))),
         snd (insert_peer p None s)\<lparr>peer_want_manager := fst (add_peer p (peer_want_manager s))\<rparr>) \<and>
    pm_inv (snd (insert_peer p None s)\<lparr>peer_want_manager := fst (add_peer p (peer_want_manager s))\<rparr>)"
proof -
  let ?s = "snd (insert_peer p None s)\<lparr>peer_want_manager := fst (add_peer p (peer_want_manager s))\<rparr>"
  have inv: "pm_inv ?s"
    using assms pwm_inv_add_peer [OF pm_invD(1) [OF assms], of p]
    by (auto simp: pm_inv_def insert_peer_def tracked split: option.split)
  have "peer_want_manager (snd (insert_peer p None s)) = peer_want_manager s"
    "fst (insert_peer p None s) = (if map_of (pm_peers s) p = None then [StartQueue p] else [])"
    "map_of (pm_peers (snd (insert_peer p None s))) p \<noteq> None"
    by (auto simp: insert_peer_def split: option.split)
  then show ?thesis using inv signal_availability_none [OF inv]
    by (auto simp: connected_def Let_def case_prod_unfold)
qed

lemma pm_inv_disconnected: "pm_inv s \<Longrightarrow> pm_inv (snd (disconnected p s))"
  by (auto simp: pm_inv_def disconnected_def tracked pwm_inv_remove_peer split: option.split)

lemma pm_inv_unregister: "pm_inv s \<Longrightarrow> pm_inv (snd (unregister_session sid s))"
  by (auto simp: pm_inv_def unregister_session_def Let_def map_of_map_values hmap_ok_map_values split: option.split)

definition is_signal :: "('cid, 'peer, 'ses) pm_effect \<Rightarrow> bool" where
  "is_signal e = (case e of SignalAvailability _ _ _ \<Rightarrow> True | _ \<Rightarrow> False)"

lemma not_is_signal [simp]:
  "\<not> is_signal (StartQueue p)" "\<not> is_signal (StopQueue p)" "\<not> is_signal (QueueCall q)"
  "\<not> is_signal (QueueResponse p cs)" "\<not> is_signal (ProtectPeer p)" "\<not> is_signal (UnprotectPeer p)"
  by (simp_all add: is_signal_def)

lemma handle_ok:
  assumes "pm_inv s"
  shows "\<exists>r es s'. handle m s = Inr (r, es, s') \<and> pm_inv s' \<and> \<not> list_ex is_signal es"
proof (cases m)
  case (Connected p r)
  then show ?thesis using connected_ok [OF assms, of p r] by (auto simp: list_ex_iff)
next
  case (Disconnected p)
  then show ?thesis using pm_inv_disconnected [OF assms, of p]
    by (auto simp: case_prod_unfold disconnected_def split: option.split)
next
  case (BroadcastWantHaves cs)
  then show ?thesis
    using pm_inv_with_pwm [OF assms pwm_inv_broadcast [OF pm_invD(1) [OF assms] distinct_remdups]]
    by (auto simp: Let_def case_prod_unfold tracked list_ex_iff)
next
  case (SendWants p bs hs)
  then show ?thesis
    using pm_inv_with_pwm [OF assms pwm_inv_send_wants [OF pm_invD(1) [OF assms]]] assms
    by (auto simp: Let_def case_prod_unfold tracked list_ex_iff)
next
  case (SendCancels cs)
  then show ?thesis
    using pm_inv_with_pwm [OF assms pwm_inv_send_cancels [OF pm_invD(1) [OF assms]]] pm_invD(1) [OF assms]
    by (auto simp: Let_def case_prod_unfold tracked list_ex_iff)
next
  case (UnregisterSession sid)
  then show ?thesis using pm_inv_unregister [OF assms, of sid]
    by (cases "map_of (pm_sessions s) sid") (auto simp: Let_def unregister_session_def list_ex_iff)
next
  case (RegisterSession p sid)
  then show ?thesis using pm_inv_with_sessions [OF assms]
    by (auto simp: case_prod_unfold register_session_def split: option.split)
next
  case (AddPeerToSession sid p)
  then show ?thesis using pm_inv_with_sessions [OF assms] assms
    by (auto simp: case_prod_unfold add_peer_to_session_def split: option.split)
next
  case (RemovePeerFromSession sid p)
  then show ?thesis using pm_inv_with_sessions [OF assms] assms
    by (auto simp: case_prod_unfold remove_peer_from_session_def Let_def split: option.split)
next
  case (SetCb cb)
  then show ?thesis using assms by (simp add: pm_inv_def)
qed (use assms in \<open>auto simp: protect_connection_def list_ex_iff split: option.split\<close>)

lemma pm_loop_ok:
  "pm_inv s \<Longrightarrow> \<exists>es s'. pm_loop ms s = Inr (es, s') \<and> pm_inv s' \<and> \<not> list_ex is_signal es"
proof (induction ms arbitrary: s)
  case (Cons m ms)
  from handle_ok [OF Cons.prems, of m] obtain r es s1
    where 1: "handle m s = Inr (r, es, s1)" "pm_inv s1" "\<not> list_ex is_signal es" by blast
  with Cons.IH [OF 1(2)] show ?case by fastforce
qed simp

lemma pm_inv_new: "pm_inv (PeerManagerActor_new cb)"
  using pwm_run_inv [of "[]"] by (simp add: pm_inv_def PeerManagerActor_new_def) (simp add: PeerWantManager_default_def)

section \<open>What a peer has been told\<close>

text \<open>The wants a peer's queue holds after a list of effects: a fresh queue holds none.\<close>

fun hear :: "'peer \<Rightarrow> ('cid, 'peer, 'ses) pm_effect \<Rightarrow> 'cid set \<Rightarrow> 'cid set" where
  "hear p (StartQueue q) v = (if q = p then {} else v)"
| "hear p (QueueCall (AddBroadcastWantHaves q cs)) v = (if q = p then v \<union> set cs else v)"
| "hear p (QueueCall (AddWants q bs hs)) v = (if q = p then v \<union> set bs \<union> set hs else v)"
| "hear p (QueueCall (AddCancels q cs)) v = (if q = p then v - set cs else v)"
| "hear p _ v = v"

definition wanted_from :: "('cid, 'peer) PeerWantManager \<Rightarrow> 'peer \<Rightarrow> 'cid set" where
  "wanted_from w p = set (broadcast_wants w) \<union> {c. sent_block w p c \<or> sent_have w p c}"

lemma hear_unprotect [simp]: "fold (hear p) (map UnprotectPeer qs) v = v"
  by (induction qs) simp_all

lemma hear_broadcasts:
  "hmap_ok m \<Longrightarrow> fold (hear p) (map QueueCall (concat (map (\<lambda>(q, pw).
       if g pw \<noteq> [] \<and> q \<in> set qs then [AddBroadcastWantHaves q (g pw)] else []) m))) v =
   v \<union> (case map_of m p of Some pw \<Rightarrow> (if p \<in> set qs then set (g pw) else {}) | None \<Rightarrow> {})"
proof (induction m arbitrary: v)
  case (Cons x m)
  obtain q pw where x: "x = (q, pw)" by (cases x)
  have ok: "hmap_ok m" and q: "map_of m q = None" using Cons.prems x by (auto simp: map_of_eq_None_iff)
  show ?case
  proof (cases "q = p")
    case True
    then show ?thesis using q x by (auto simp: Cons.IH [OF ok])
  next
    case False
    then show ?thesis using x by (simp add: Cons.IH [OF ok])
  qed
qed simp

lemma hear_broadcast_want_haves:
  assumes "pwm_inv w" "map_of (peer_wants w) p \<noteq> None" "p \<in> set qs"
  shows "fold (hear p) (map QueueCall (snd (broadcast_want_haves hs qs w))) (wanted_from w p) =
    wanted_from (fst (broadcast_want_haves hs qs w)) p" (is "fold ?f ?es _ = _")
proof -
  let ?w = "fst (broadcast_want_haves hs qs w)"
  let ?g = "\<lambda>pw. filter (\<lambda>c. c \<notin> set (want_blocks pw) \<and> c \<notin> set (want_haves pw))
    (filter (\<lambda>c. c \<notin> set (broadcast_wants w)) hs)"
  obtain pw where pw: "map_of (peer_wants w) p = Some pw" using assms(2) by blast
  have "fold ?f ?es v =
      v \<union> (case map_of (peer_wants w) p of Some pw \<Rightarrow> (if p \<in> set qs then set (?g pw) else {}) | None \<Rightarrow> {})" for v
    unfolding broadcast_want_haves_def Let_def snd_conv by (rule hear_broadcasts [OF pwm_invD(1) [OF assms(1)]])
  then have H: "fold ?f ?es v = v \<union> (set hs - set (broadcast_wants w) - {c. sent_block w p c \<or> sent_have w p c})" for v
    using assms(3) pw by (auto simp: sent_block_def sent_have_def)
  have B: "set (broadcast_wants ?w) = set (broadcast_wants w) \<union> set hs"
    by (auto simp: broadcast_want_haves_def Let_def)
  show ?thesis
    unfolding H unfolding wanted_from_def B sent_peer_wants_cong [OF broadcast_frame(1)] by auto
qed

definition is_cancel :: "('cid, 'peer) queue_call \<Rightarrow> bool" where
  "is_cancel x = (case x of AddCancels _ _ \<Rightarrow> True | _ \<Rightarrow> False)"

lemma hear_cancels:
  "list_all is_cancel calls \<Longrightarrow> fold (hear p) (map QueueCall calls) v = v - cancelled_at calls p"
proof (induction calls arbitrary: v)
  case (Cons x calls)
  obtain q tc where x: "x = AddCancels q tc"
    using Cons.prems by (cases x) (simp_all add: is_cancel_def)
  have "cancelled_at (x # calls) p = (if q = p then set tc else {}) \<union> cancelled_at calls p"
    by (auto simp: cancelled_at_def x)
  then show ?case using Cons by (simp add: x) blast
qed (simp add: cancelled_at_def)

lemma send_cancel_peers_is_cancel:
  "(\<And>p pw. list_all is_cancel (snd (send p pw))) \<Longrightarrow> list_all is_cancel (snd (send_cancel_peers send ps pws))"
  by (induction ps arbitrary: pws) (simp_all add: Let_def case_prod_unfold split: option.split)

lemma send_cancels_is_cancel: "list_all is_cancel (snd (send_cancels cs qs w))"
proof -
  have "list_all is_cancel (snd (send_cancel_peer bc bcs cs qs p pw))" for bc bcs p pw
    by (simp add: send_cancel_peer_def is_cancel_def split: prod.split)
  from send_cancel_peers_is_cancel [of "send_cancel_peer _ _ cs qs", OF this] show ?thesis
    by (simp add: send_cancels_def Let_def case_prod_unfold)
qed

lemma hear_send_cancels:
  assumes "pwm_inv w" "map_of (peer_wants w) p \<noteq> None" "p \<in> set qs"
  shows "fold (hear p) (map QueueCall (snd (send_cancels cs qs w))) (wanted_from w p) =
    wanted_from (fst (send_cancels cs qs w)) p"
proof -
  note S = send_cancels_spec [OF assms(1) prod.collapse [symmetric], of cs qs p]
  have "set (broadcast_wants (fst (send_cancels cs qs w))) = set (broadcast_wants w) - set cs" using S by auto
  moreover have "cancelled_at (snd (send_cancels cs qs w)) p = set cs \<inter> wanted_from w p"
    using S assms by (simp add: wanted_from_def)
  ultimately show ?thesis
    unfolding hear_cancels [OF send_cancels_is_cancel] wanted_from_def sent_send_cancels [OF assms(1)] by auto
qed

lemma hear_send_wants:
  assumes "pwm_inv w"
  shows "fold (hear p) (map QueueCall (snd (send_wants q bs hs w))) (wanted_from w p) =
    wanted_from (fst (send_wants q bs hs w)) p" (is "fold ?f ?es _ = _")
proof (cases "map_of (peer_wants w) q")
  case None
  then show ?thesis by (simp add: send_wants_untracked)
next
  case (Some pw)
  from send_wants_spec [OF assms Some prod.collapse [symmetric], of bs hs]
  obtain fb fh where S: "broadcast_wants (fst (send_wants q bs hs w)) = broadcast_wants w"
    "\<And>p c. sent_block (fst (send_wants q bs hs w)) p c \<longleftrightarrow> sent_block w p c \<or> p = q \<and> c \<in> set bs"
    "\<And>p c. sent_have (fst (send_wants q bs hs w)) p c \<longleftrightarrow>
       sent_have w p c \<and> \<not> (p = q \<and> c \<in> set bs) \<or> p = q \<and> c \<in> set fh"
    "set fb = set bs - {c. sent_block w q c}"
    "snd (send_wants q bs hs w) = (if fb = [] \<and> fh = [] then [] else [AddWants q fb fh])"
    by blast
  have H: "fold ?f ?es v = (if q = p then v \<union> set fb \<union> set fh else v)" for v
    unfolding S(5) by auto
  show ?thesis unfolding H unfolding wanted_from_def S(1-4) by auto
qed

text \<open>While no queue is found stopped, each message keeps what every connected peer has been told equal
  to what is wanted from it.\<close>

definition finds_stopped_queue :: "('cid, 'peer, 'ses, 'cb) pm_message \<Rightarrow> bool" where
  "finds_stopped_queue m = (case m of Connected p r \<Rightarrow> \<not> r | _ \<Rightarrow> False)"

lemma hear_connected:
  assumes inv: "pm_inv s" and p: "p = q \<or> map_of (pm_peers s) p \<noteq> None"
    and v: "map_of (pm_peers s) p \<noteq> None \<Longrightarrow> v = wanted_from (peer_want_manager s) p"
  shows "fold (hear p) ((if map_of (pm_peers s) q = None then [StartQueue q] else []) @
      map QueueCall (snd (add_peer q (peer_want_manager s)))) v =
    wanted_from (fst (add_peer q (peer_want_manager s))) p"
proof -
  let ?w = "peer_want_manager s"
  have w': "wanted_from (fst (add_peer q ?w)) p = wanted_from ?w p"
    unfolding wanted_from_def sent_add_peer by (simp add: add_peer_def)
  show ?thesis
  proof (cases "map_of (pm_peers s) q")
    case None
    then have n: "map_of (peer_wants ?w) q = None" using pm_invD(3) [OF inv] by simp
    then have "wanted_from ?w q = set (broadcast_wants ?w)"
      by (simp add: wanted_from_def sent_block_def sent_have_def)
    moreover have "snd (add_peer q ?w) =
        (if broadcast_wants ?w \<noteq> [] then [AddBroadcastWantHaves q (broadcast_wants ?w)] else [])"
      using n by (simp add: add_peer_def)
    ultimately show ?thesis using None w' p v by (cases "q = p") auto
  next
    case (Some st)
    then have "map_of (peer_wants ?w) q \<noteq> None" using pm_invD(3) [OF inv] by simp
    then have "snd (add_peer q ?w) = []" by (simp add: add_peer_def)
    then show ?thesis using Some w' p v by auto
  qed
qed

lemma wanted_from_remove_peer: "q \<noteq> p \<Longrightarrow> wanted_from (remove_peer q w) p = wanted_from w p"
  by (simp add: wanted_from_def sent_remove_peer) (simp add: remove_peer_def pwm split: option.split)

lemma handle_hear:
  assumes inv: "pm_inv s" and h: "handle m s = Inr (r, es, s')" and m: "\<not> finds_stopped_queue m"
    and v: "\<And>p. map_of (pm_peers s) p \<noteq> None \<Longrightarrow> v p = wanted_from (peer_want_manager s) p"
    and p: "map_of (pm_peers s') p \<noteq> None"
  shows "fold (hear p) es (v p) = wanted_from (peer_want_manager s') p"
proof -
  note w = pm_invD(1) [OF inv]
  have t: "map_of (peer_wants (peer_want_manager s)) p \<noteq> None" if "map_of (pm_peers s) p \<noteq> None"
    using that pm_invD(3) [OF inv] by simp
  have k: "p \<in> set (hkeys (pm_peers s))" if "map_of (pm_peers s) p \<noteq> None"
    using that by (auto simp: map_of_eq_None_iff)
  have frame: ?thesis
    if "map_of (pm_peers s') p = None \<longleftrightarrow> map_of (pm_peers s) p = None" "peer_want_manager s' = peer_want_manager s"
      "fold (hear p) es (v p) = v p"
    using that p v [of p] by simp
  show ?thesis
  proof (cases m)
    case (Connected q r')
    have "p = q \<or> map_of (pm_peers s) p \<noteq> None"
      using p h connected_ok [OF inv, of q r'] Connected by (auto simp: insert_peer_def split: option.splits if_splits)
    from hear_connected [OF inv this v] show ?thesis
      using h connected_ok [OF inv, of q r'] Connected m by (auto simp: finds_stopped_queue_def)
  next
    case (Disconnected q)
    then show ?thesis using h p v [of p]
      by (auto simp: disconnected_def wanted_from_remove_peer split: option.splits if_splits)
  next
    case (BroadcastWantHaves cs)
    then show ?thesis using h p v [of p] hear_broadcast_want_haves [OF w t k, of "remdups cs"]
      by (auto simp: Let_def case_prod_unfold)
  next
    case (SendWants q bs hs)
    then show ?thesis using h p v [of p] hear_send_wants [OF w, of p q bs hs]
      by (auto simp: Let_def case_prod_unfold split: if_splits)
  next
    case (SendCancels cs)
    then show ?thesis using h p v [of p] hear_send_cancels [OF w t k, of cs]
      by (auto simp: Let_def case_prod_unfold)
  next
    case (UnregisterSession sid)
    show ?thesis
      by (rule frame; use h UnregisterSession in
          \<open>auto simp: Let_def unregister_session_def map_of_map_values split: option.splits\<close>)
  next
    case (RegisterSession q sid)
    show ?thesis
      by (rule frame; use h RegisterSession in \<open>auto simp: register_session_def split: option.splits\<close>)
  next
    case (AddPeerToSession sid q)
    show ?thesis
      by (rule frame; use h AddPeerToSession in
          \<open>auto simp: add_peer_to_session_def split: option.splits if_splits\<close>)
  next
    case (RemovePeerFromSession sid q)
    show ?thesis
      by (rule frame; use h RemovePeerFromSession in
          \<open>auto simp: remove_peer_from_session_def Let_def split: option.splits if_splits\<close>)
  next
    case (ProtectConnection sid q)
    show ?thesis
      by (rule frame; use h ProtectConnection in
          \<open>auto simp: protect_connection_def split: option.splits if_splits\<close>)
  qed (rule frame; use h in \<open>force split: if_splits\<close>)+
qed

lemma pm_loop_hear:
  assumes "pm_inv s" "pm_loop ms s = Inr (es, s')" "\<not> list_ex finds_stopped_queue ms"
    "\<And>p. map_of (pm_peers s) p \<noteq> None \<Longrightarrow> v p = wanted_from (peer_want_manager s) p"
    "map_of (pm_peers s') p \<noteq> None"
  shows "fold (hear p) es (v p) = wanted_from (peer_want_manager s') p"
  using assms
proof (induction ms arbitrary: s v es)
  case (Cons m ms)
  obtain r es1 s1 where 1: "handle m s = Inr (r, es1, s1)" "pm_inv s1" using handle_ok [OF Cons.prems(1)] by blast
  obtain es2 where 2: "pm_loop ms s1 = Inr (es2, s')" "es = es1 @ es2"
    using Cons.prems(2) 1 by (auto simp: rbind_Inr_iff)
  have "\<not> finds_stopped_queue m" "\<not> list_ex finds_stopped_queue ms" using Cons.prems(3) by simp_all
  then have "fold (hear p) es2 (fold (hear p) es1 (v p)) = wanted_from (peer_want_manager s') p"
    using Cons.IH [OF 1(2) 2(1), of "\<lambda>p. fold (hear p) es1 (v p)"] handle_hear [OF Cons.prems(1) 1(1) _ Cons.prems(4)]
      Cons.prems(5) by blast
  then show ?case using 2(2) by simp
qed simp

section \<open>Properties\<close>

text \<open>C6: No sequence of messages makes the actor panic. If in addition no reconnecting peer is found with a stopped
  queue, then after the messages the queue of every connected peer holds exactly the union of the broadcast
  wants and of the wants recorded for that peer.\<close>

theorem peer_told_what_is_wanted:
  "\<exists>es s'. pm_loop ms (PeerManagerActor_new cb) = Inr (es, s') \<and>
    (\<not> list_ex finds_stopped_queue ms \<longrightarrow>
      (\<forall>p. map_of (pm_peers s') p \<noteq> None \<longrightarrow> fold (hear p) es {} = wanted_from (peer_want_manager s') p))"
proof -
  obtain es s' where l: "pm_loop ms (PeerManagerActor_new cb) = Inr (es, s')"
    using pm_loop_ok [OF pm_inv_new [of cb], of ms] by blast
  have "fold (hear p) es {} = wanted_from (peer_want_manager s') p"
    if "\<not> list_ex finds_stopped_queue ms" "map_of (pm_peers s') p \<noteq> None" for p
    by (rule pm_loop_hear [OF pm_inv_new l that(1) _ that(2), of "\<lambda>_. {}"]) (simp add: PeerManagerActor_new_def)
  with l show ?thesis by blast
qed

theorem peer_told_what_is_wanted_witness:
  "let ms = [BroadcastWantHaves [1], Connected 2 True, SendWants 2 [5] [1, 6], SendCancels [6]] ::
         (nat, nat, nat, unit) pm_message list
   in \<not> list_ex finds_stopped_queue ms \<and>
      (\<exists>es s'. pm_loop ms (PeerManagerActor_new ()) = Inr (es, s') \<and>
        (\<forall>p. map_of (pm_peers s') p \<noteq> None \<longrightarrow> fold (hear p) es {} = wanted_from (peer_want_manager s') p))"
proof -
  let ?ms = "[BroadcastWantHaves [1], Connected 2 True, SendWants 2 [5] [1, 6], SendCancels [6]] :: (nat, nat, nat, unit) pm_message list"
  have n: "\<not> list_ex finds_stopped_queue ?ms" by (simp add: finds_stopped_queue_def)
  show ?thesis unfolding Let_def using n peer_told_what_is_wanted [of ?ms "()"] by blast
qed

text \<open>No sequence of messages makes the actor signal a session that a peer became available: the
  sessions of a peer are never recorded, neither when a session registers nor when a peer is added
  to one.\<close>

theorem no_session_is_signalled:
  "\<exists>es s'. pm_loop ms (PeerManagerActor_new cb) = Inr (es, s') \<and> \<not> list_ex is_signal es"
  using pm_loop_ok [OF pm_inv_new [of cb], of ms] by blast

text \<open>When a connected peer's queue had stopped and the peer connects again, the restarted queue is told
  nothing, although the wants broadcast earlier are still wanted and the peer is connected.\<close>

theorem restarted_queue_told_nothing:
  "case pm_loop [BroadcastWantHaves [c], Connected p True, Connected p False] (PeerManagerActor_new cb) of
     Inl e \<Rightarrow> False
   | Inr (es, s') \<Rightarrow> map_of (pm_peers s') p \<noteq> None \<and> fold (hear p) es {} = {} \<and>
       get_wants (peer_want_manager s') = {c} \<and> wanted_from (peer_want_manager s') p = {c}"
  by (simp add: PeerManagerActor_new_def PeerWantManager_default_def broadcast_want_haves_def connected_def
      insert_peer_def add_peer_def signal_availability_def Let_def get_wants_def wanted_from_def
      sent_block_def sent_have_def)

end
