(* ===== verification/Task_Tracker.thy ===== *)
theory Task_Tracker
  imports Ipfs_Prelude
begin

text \<open>
  The tasks queued for one peer of the bitswap server (\<open>peer_task_queue/peer_task.rs\<close>,
  \<open>peer_task_queue/peer_tracker.rs\<close>) and the merging of tasks with the same topic
  (\<open>server/task_merger.rs\<close>).

  The pending tasks live in a keyed priority queue of a third-party crate. The model keeps its
  entries as a map and takes the key that the queue would pop as an argument \<open>peek\<close>; what the crate
  documents of it, that it pops an entry while there is one, and one of highest priority if the
  priorities are ordered lawfully, is \<open>kpq_top\<close>. A task merger
  is a record of its two methods. Sums of \<open>usize\<close> are checked at 64 bits.
\<close>

section \<open>Checked sums and orderings\<close>

datatype ordering = Less | Equal | Greater

definition compare :: "'a::linorder \<Rightarrow> 'a \<Rightarrow> ordering" where
  "compare a b = (if a < b then Less else if a = b then Equal else Greater)"

definition usize_max :: nat where
  "usize_max = 2 ^ 64 - 1"

definition checked_add :: "nat \<Rightarrow> nat \<Rightarrow> nat checked" where
  "checked_add a b = (if a + b \<le> usize_max then Inr (a + b) else Inl Overflow)"

text \<open>What the priority queue documents of the entry it pops.\<close>

definition lawful :: "('v \<Rightarrow> 'v \<Rightarrow> ordering) \<Rightarrow> 'v set \<Rightarrow> bool" where
  "lawful cmp V \<longleftrightarrow>
     (\<forall>a \<in> V. \<forall>b \<in> V. cmp a b = Greater \<longleftrightarrow> cmp b a = Less) \<and>
     (\<forall>a \<in> V. \<forall>b \<in> V. \<forall>c \<in> V. cmp a b \<noteq> Greater \<longrightarrow> cmp b c \<noteq> Greater \<longrightarrow> cmp a c \<noteq> Greater)"

definition kpq_top :: "('v \<Rightarrow> 'v \<Rightarrow> ordering) \<Rightarrow> (('k, 'v) hmap \<Rightarrow> 'k option) \<Rightarrow> bool" where
  "kpq_top cmp peek \<longleftrightarrow>
     (\<forall>m. hmap_ok m \<longrightarrow>
        (case peek m of
           None \<Rightarrow> m = []
         | Some k \<Rightarrow> (\<exists>v. map_of m k = Some v \<and>
             (lawful cmp (snd ` set m) \<longrightarrow> (\<forall>k' v'. map_of m k' = Some v' \<longrightarrow> cmp v' v \<noteq> Greater)))))"

section \<open>Tasks\<close>

record ('t, 'd) Task =
  topic :: 't
  priority :: int
  work :: nat
  data :: 'd

record ('t, 'd, 'peer) QueueTask =
  task :: "('t, 'd) Task"
  target :: 'peer
  created :: nat

definition QueueTask_cmp :: "('t, 'd, 'peer) QueueTask \<Rightarrow> ('t, 'd, 'peer) QueueTask \<Rightarrow> ordering" where
  "QueueTask_cmp a b =
     (if target a = target b \<and> priority (task a) \<noteq> priority (task b)
      then compare (priority (task a)) (priority (task b))
      else compare (created b) (created a))"

definition QueueTask_new :: "('t, 'd) Task \<Rightarrow> 'peer \<Rightarrow> nat \<Rightarrow> ('t, 'd, 'peer) QueueTask" where
  "QueueTask_new t p now = \<lparr>task = t, target = p, created = now\<rparr>"

record ('t, 'd) TaskMerger =
  has_new_info :: "('t, 'd) Task \<Rightarrow> ('t, 'd) Task list \<Rightarrow> bool"
  merge :: "('t, 'd) Task \<Rightarrow> ('t, 'd) Task \<Rightarrow> ('t, 'd) Task"

definition DefaultTaskMerger :: "('t, 'd) TaskMerger" where
  "DefaultTaskMerger = \<lparr>has_new_info = (\<lambda>task_info existing_tasks. False), merge = (\<lambda>task existing. existing)\<rparr>"

record TaskData =
  is_want_block :: bool
  send_dont_have :: bool
  block_size :: nat
  have_block :: bool

definition server_has_new_info :: "('t, TaskData) Task \<Rightarrow> ('t, TaskData) Task list \<Rightarrow> bool" where
  "server_has_new_info t existing =
     (let (have_size, want_block) =
            fold (\<lambda>entry (have_size, want_block).
              (if have_block (data entry) then True else have_size,
               if is_want_block (data entry) then True else want_block)) existing (False, False)
      in if \<not> want_block \<and> is_want_block (data t) then True
         else if \<not> have_size \<and> have_block (data t) then True
         else False)"

definition server_merge :: "('t, TaskData) Task \<Rightarrow> ('t, TaskData) Task \<Rightarrow> ('t, TaskData) Task" where
  "server_merge t e0 =
     (let new = data t;
          e1 = (if \<not> have_block (data e0) \<and> have_block new
                then e0\<lparr>data := (data e0)\<lparr>have_block := have_block new, block_size := block_size new\<rparr>\<rparr> else e0);
          e2 = (if \<not> is_want_block (data e1) \<and> is_want_block new
                then (let e = e1\<lparr>data := (data e1)\<lparr>is_want_block := True\<rparr>\<rparr>
                      in if \<not> have_block (data e) \<or> have_block new
                         then e\<lparr>data := (data e)\<lparr>have_block := have_block new\<rparr>, work := work t\<rparr> else e)
                else e1)
      in if is_want_block (data e2) \<and> have_block (data e2)
         then e2\<lparr>work := block_size (data e2)\<rparr> else e2)"

definition ServerTaskMerger :: "('t, TaskData) TaskMerger" where
  "ServerTaskMerger = \<lparr>has_new_info = server_has_new_info, merge = server_merge\<rparr>"

section \<open>The tracker of a peer\<close>

record ('t, 'd, 'peer) PeerTracker =
  pt_target :: 'peer
  pending_tasks :: "('t, ('t, 'd, 'peer) QueueTask) hmap"
  active_tasks :: "('t, ('t, 'd) Task list) hmap"
  active_work :: nat
  max_active_work_per_peer :: nat
  freeze_val :: int

definition PeerTracker_new :: "'peer \<Rightarrow> nat \<Rightarrow> ('t, 'd, 'peer) PeerTracker" where
  "PeerTracker_new peer max_work =
     \<lparr>pt_target = peer, pending_tasks = [], active_tasks = [], active_work = 0,
      max_active_work_per_peer = max_work, freeze_val = 0\<rparr>"

definition PeerTracker_eq :: "('t, 'd, 'peer) PeerTracker \<Rightarrow> ('t, 'd, 'peer) PeerTracker \<Rightarrow> bool" where
  "PeerTracker_eq a b =
     (if pt_target a = pt_target b \<and> map_of (active_tasks a) = map_of (active_tasks b) \<and>
         active_work a = active_work b \<and> max_active_work_per_peer a = max_active_work_per_peer b \<and>
         freeze_val a = freeze_val b \<and> length (pending_tasks a) = length (pending_tasks b)
      then list_all (\<lambda>(x, y). x = y) (zip (pending_tasks a) (pending_tasks b))
      else False)"

definition PeerTracker_is_idle :: "('t, 'd, 'peer) PeerTracker \<Rightarrow> bool" where
  "PeerTracker_is_idle s \<longleftrightarrow> pending_tasks s = [] \<and> active_tasks s = []"

definition PeerTracker_stats :: "('t, 'd, 'peer) PeerTracker \<Rightarrow> nat \<times> nat" where
  "PeerTracker_stats s = (length (pending_tasks s), length (active_tasks s))"

definition PeerTracker_topics :: "('t::linorder, 'd, 'peer) PeerTracker \<Rightarrow> 't list \<times> 't list" where
  "PeerTracker_topics s =
     (sort (map (\<lambda>(k, qt). topic (task qt)) (pending_tasks s)),
      sort (concat (map (map topic) (hvalues (active_tasks s)))))"

definition task_has_more_info_than_active_tasks ::
  "('t, 'd) TaskMerger \<Rightarrow> ('t, 'd) Task \<Rightarrow> ('t, 'd, 'peer) PeerTracker \<Rightarrow> bool" where
  "task_has_more_info_than_active_tasks tm t s =
     (case map_of (active_tasks s) (topic t) of
        Some tasks_with_topic \<Rightarrow> (if tasks_with_topic = [] then True else has_new_info tm t tasks_with_topic)
      | None \<Rightarrow> True)"

definition PeerTracker_push_task ::
  "('t, 'd) TaskMerger \<Rightarrow> nat \<Rightarrow> ('t, 'd) Task \<Rightarrow> ('t, 'd, 'peer) PeerTracker \<Rightarrow> ('t, 'd, 'peer) PeerTracker" where
  "PeerTracker_push_task tm now t s =
     (if \<not> task_has_more_info_than_active_tasks tm t s then s
      else case map_of (pending_tasks s) (topic t) of
             Some existing \<Rightarrow>
               (let rest = AList.delete (topic t) (pending_tasks s);
                    e = (if priority t > priority (task existing)
                         then (task existing)\<lparr>priority := priority t\<rparr> else task existing)
                in s\<lparr>pending_tasks := AList.update (topic t) (existing\<lparr>task := merge tm t e\<rparr>) rest\<rparr>)
           | None \<Rightarrow>
               s\<lparr>pending_tasks := AList.update (topic t) (QueueTask_new t (pt_target s) now) (pending_tasks s)\<rparr>)"

definition PeerTracker_push_tasks ::
  "('t, 'd) TaskMerger \<Rightarrow> nat \<Rightarrow> ('t, 'd) Task list \<Rightarrow> ('t, 'd, 'peer) PeerTracker \<Rightarrow> ('t, 'd, 'peer) PeerTracker" where
  "PeerTracker_push_tasks tm now tasks s = fold (PeerTracker_push_task tm now) tasks s"

definition start_task ::
  "('t, 'd) Task \<Rightarrow> ('t, 'd, 'peer) PeerTracker \<Rightarrow> ('t, 'd, 'peer) PeerTracker checked" where
  "start_task t s =
     rbind (checked_add (active_work s) (work t)) (\<lambda>w.
       Inr (s\<lparr>active_work := w, active_tasks := hmodify (topic t) [] (\<lambda>ts. ts @ [t]) (active_tasks s)\<rparr>))"

lemma length_delete_lt: "map_of m k = Some v \<Longrightarrow> length (AList.delete k m) < length m"
  by (induction m) (auto simp: le_imp_less_Suc length_delete_le)

lemma start_task_pending: "start_task t s = Inr s' \<Longrightarrow> pending_tasks s' = pending_tasks s"
  by (auto simp: start_task_def rbind_Inr_iff)

text \<open>The loop of \<open>pop_tasks\<close>; the queue popping nothing or an absent key cannot happen and ends it.\<close>

function pop_tasks_loop ::
  "(('t, ('t, 'd, 'peer) QueueTask) hmap \<Rightarrow> 't option) \<Rightarrow> nat \<Rightarrow> ('t, 'd) Task list \<Rightarrow> nat \<Rightarrow>
   ('t, 'd, 'peer) PeerTracker \<Rightarrow> (('t, 'd) Task list \<times> ('t, 'd, 'peer) PeerTracker) checked" where
  "pop_tasks_loop peek target_min_work out w s =
     (if pending_tasks s \<noteq> [] \<and> freeze_val s = 0 \<and> w < target_min_work then
        (if max_active_work_per_peer s > 0 \<and> active_work s \<ge> max_active_work_per_peer s then Inr (out, s)
         else case peek (pending_tasks s) of
                None \<Rightarrow> Inr (out, s)
              | Some k \<Rightarrow>
                  (case map_of (pending_tasks s) k of
                     None \<Rightarrow> Inr (out, s)
                   | Some qt \<Rightarrow>
                       (case start_task (task qt) (s\<lparr>pending_tasks := AList.delete k (pending_tasks s)\<rparr>) of
                          Inl e \<Rightarrow> Inl e
                        | Inr s' \<Rightarrow>
                            (case checked_add w (work (task qt)) of
                               Inl e \<Rightarrow> Inl e
                             | Inr w' \<Rightarrow> pop_tasks_loop peek target_min_work (out @ [task qt]) w' s'))))
      else Inr (out, s))"
  by pat_completeness auto
termination
  by (relation "measure (\<lambda>(peek, m, out, w, s). length (pending_tasks s))")
    (auto simp: start_task_pending length_delete_lt)

declare pop_tasks_loop.simps [simp del]

definition PeerTracker_pop_tasks ::
  "(('t, ('t, 'd, 'peer) QueueTask) hmap \<Rightarrow> 't option) \<Rightarrow> nat \<Rightarrow> ('t, 'd, 'peer) PeerTracker \<Rightarrow>
   (('t, 'd) Task list \<times> ('t, 'd, 'peer) PeerTracker) checked" where
  "PeerTracker_pop_tasks peek target_min_work s = pop_tasks_loop peek target_min_work [] 0 s"

definition get_pending_work :: "('t, 'd, 'peer) PeerTracker \<Rightarrow> nat checked" where
  "get_pending_work s =
     fold (\<lambda>(k, qt) r. rbind r (\<lambda>w. checked_add w (work (task qt)))) (pending_tasks s) (Inr 0)"

definition task_done ::
  "('t, 'd) Task \<Rightarrow> ('t, 'd, 'peer) PeerTracker \<Rightarrow> ('t, 'd, 'peer) PeerTracker checked" where
  "task_done t s =
     (case map_of (active_tasks s) (topic t) of
        Some ts \<Rightarrow>
          rbind (fold (\<lambda>at r. if at = t then rbind r (\<lambda>w. checked_add w (work t)) else r) ts (Inr 0)) (\<lambda>work_done.
            (let ts' = filter (\<lambda>at. at \<noteq> t) ts
             in if work_done \<le> active_work s
                then Inr (s\<lparr>active_work := active_work s - work_done,
                            active_tasks := (if ts' = [] then AList.delete (topic t) (active_tasks s)
                                             else AList.update (topic t) ts' (active_tasks s))\<rparr>)
                else Inl AssertFailed))
      | None \<Rightarrow> Inr s)"

definition PeerTracker_remove :: "'t \<Rightarrow> ('t, 'd, 'peer) PeerTracker \<Rightarrow> bool \<times> ('t, 'd, 'peer) PeerTracker" where
  "PeerTracker_remove k s =
     (map_of (pending_tasks s) k \<noteq> None, s\<lparr>pending_tasks := AList.delete k (pending_tasks s)\<rparr>)"

definition freeze :: "('t, 'd, 'peer) PeerTracker \<Rightarrow> ('t, 'd, 'peer) PeerTracker" where
  "freeze s = s\<lparr>freeze_val := freeze_val s + 1\<rparr>"

text \<open>Integer division of \<open>isize\<close> rounds towards zero.\<close>

definition idiv2 :: "int \<Rightarrow> int" where
  "idiv2 x = (if x \<ge> 0 then x div 2 else - ((- x) div 2))"

definition thaw :: "('t, 'd, 'peer) PeerTracker \<Rightarrow> bool \<times> ('t, 'd, 'peer) PeerTracker" where
  "thaw s = (let v = freeze_val s - idiv2 (freeze_val s + 1) in (v \<le> 0, s\<lparr>freeze_val := v\<rparr>))"

definition PeerTracker_full_thaw :: "('t, 'd, 'peer) PeerTracker \<Rightarrow> ('t, 'd, 'peer) PeerTracker" where
  "PeerTracker_full_thaw s = s\<lparr>freeze_val := 0\<rparr>"

definition is_frozen :: "('t, 'd, 'peer) PeerTracker \<Rightarrow> bool" where
  "is_frozen s \<longleftrightarrow> freeze_val s > 0"

definition PeerTracker_cmp :: "('t, 'd, 'peer) PeerTracker \<Rightarrow> ('t, 'd, 'peer) PeerTracker \<Rightarrow> ordering" where
  "PeerTracker_cmp a b =
     (if pending_tasks a = [] then Less
      else if pending_tasks b = [] then Greater
      else if freeze_val a > freeze_val b then Less
      else if freeze_val a > freeze_val b then Greater
      else if active_work a = active_work b then compare (length (pending_tasks a)) (length (pending_tasks b))
      else compare (active_work b) (active_work a))"

section \<open>Laws of a task merger\<close>

locale task_merger =
  fixes tm :: "('t, 'd) TaskMerger"
  assumes merge_topic [simp]: "topic (merge tm t e) = topic e"
    and merge_priority [simp]: "priority (merge tm t e) = priority e"
    and known_no_new_info: "t \<in> set ts \<Longrightarrow> \<not> has_new_info tm t ts"

lemma server_has_new_info_fold:
  "fold (\<lambda>entry (have_size, want_block).
     (if have_block (data entry) then True else have_size,
      if is_want_block (data entry) then True else want_block)) ts (h, w) =
   (h \<or> list_ex (\<lambda>e. have_block (data e)) ts, w \<or> list_ex (\<lambda>e. is_want_block (data e)) ts)"
  by (induction ts arbitrary: h w) auto

lemma server_has_new_info_iff:
  "server_has_new_info t ts \<longleftrightarrow>
     is_want_block (data t) \<and> \<not> list_ex (\<lambda>e. is_want_block (data e)) ts \<or>
     have_block (data t) \<and> \<not> list_ex (\<lambda>e. have_block (data e)) ts"
  by (auto simp: server_has_new_info_def server_has_new_info_fold)

interpretation default_merger: task_merger DefaultTaskMerger
  by unfold_locales (simp_all add: DefaultTaskMerger_def)

interpretation server_merger: task_merger ServerTaskMerger
  by unfold_locales
    (simp_all add: ServerTaskMerger_def server_merge_def Let_def server_has_new_info_iff list_ex_iff, blast)

section \<open>The invariant of a tracker\<close>

definition tasks_work :: "('t, 'd) Task list \<Rightarrow> nat" where
  "tasks_work ts = sum_list (map work ts)"

definition total_work :: "('t, ('t, 'd) Task list) hmap \<Rightarrow> nat" where
  "total_work m = sum_list (map (\<lambda>(k, ts). tasks_work ts) m)"

definition pending_work :: "('t, 'd, 'peer) PeerTracker \<Rightarrow> nat" where
  "pending_work s = sum_list (map (\<lambda>(k, qt). work (task qt)) (pending_tasks s))"

definition tracker_inv :: "('t, 'd, 'peer) PeerTracker \<Rightarrow> bool" where
  "tracker_inv s \<longleftrightarrow> hmap_ok (pending_tasks s) \<and> hmap_ok (active_tasks s) \<and>
     (\<forall>k qt. map_of (pending_tasks s) k = Some qt \<longrightarrow> topic (task qt) = k \<and> target qt = pt_target s) \<and>
     (\<forall>k ts. map_of (active_tasks s) k = Some ts \<longrightarrow> ts \<noteq> [] \<and> list_all (\<lambda>t. topic t = k) ts) \<and>
     active_work s = total_work (active_tasks s) \<and> active_work s \<le> usize_max \<and> 0 \<le> freeze_val s"

named_theorems tracker

lemma tasks_work_simps [simp]:
  "tasks_work [] = 0" "tasks_work (t # ts) = work t + tasks_work ts" "tasks_work (ts @ us) = tasks_work ts + tasks_work us"
  by (simp_all add: tasks_work_def)

lemma total_work_simps [simp]:
  "total_work [] = 0" "total_work ((k, ts) # m) = tasks_work ts + total_work m"
  by (simp_all add: total_work_def)

lemma total_work_update:
  "hmap_ok m \<Longrightarrow> total_work (AList.update k v m) + (case map_of m k of None \<Rightarrow> 0 | Some ts \<Rightarrow> tasks_work ts) =
     total_work m + tasks_work v"
  by (induction m) auto

lemma total_work_delete:
  "hmap_ok m \<Longrightarrow> total_work (AList.delete k m) + (case map_of m k of None \<Rightarrow> 0 | Some ts \<Rightarrow> tasks_work ts) =
     total_work m"
proof (induction m)
  case (Cons x m)
  obtain k' ts where x: "x = (k', ts)" by (cases x)
  have "map_of m k' = None" using Cons.prems x by (auto simp: map_of_eq_None_iff)
  then have "k' = k \<Longrightarrow> AList.delete k m = m" by (metis delete_id map_of_eq_None_iff)
  then show ?case using Cons x by auto
qed simp

lemma tracker_inv_new: "tracker_inv (PeerTracker_new p n)"
  by (simp add: tracker_inv_def PeerTracker_new_def)

lemma tracker_invD:
  assumes "tracker_inv s"
  shows "hmap_ok (pending_tasks s)" "hmap_ok (active_tasks s)"
    "map_of (pending_tasks s) k = Some qt \<Longrightarrow> topic (task qt) = k \<and> target qt = pt_target s"
    "map_of (active_tasks s) k = Some ts \<Longrightarrow> ts \<noteq> [] \<and> list_all (\<lambda>t. topic t = k) ts"
    "active_work s = total_work (active_tasks s)" "0 \<le> freeze_val s" "active_work s \<le> usize_max"
  using assms by (simp_all add: tracker_inv_def)

lemma tracker_inv_pending:
  assumes "tracker_inv s" "hmap_ok m"
    "\<And>k qt. map_of m k = Some qt \<Longrightarrow> topic (task qt) = k \<and> target qt = pt_target s"
  shows "tracker_inv (s\<lparr>pending_tasks := m\<rparr>)"
  using assms by (simp add: tracker_inv_def)

lemma tracker_inv_delete_pending:
  assumes "tracker_inv s"
  shows "tracker_inv (s\<lparr>pending_tasks := AList.delete k (pending_tasks s)\<rparr>)"
  by (rule tracker_inv_pending [OF assms])
    (use tracker_invD [OF assms] in \<open>auto split: if_splits\<close>)

lemma tracker_inv_freeze_val: "tracker_inv s \<Longrightarrow> 0 \<le> v \<Longrightarrow> tracker_inv (s\<lparr>freeze_val := v\<rparr>)"
  by (simp add: tracker_inv_def)

context task_merger
begin

lemma tracker_inv_push_task: "tracker_inv s \<Longrightarrow> tracker_inv (PeerTracker_push_task tm now t s)"
  unfolding PeerTracker_push_task_def Let_def
  by (auto simp: tracker_invD QueueTask_new_def intro!: tracker_inv_pending split: option.split if_splits
      dest: tracker_invD(3))

lemma tracker_inv_push_tasks: "tracker_inv s \<Longrightarrow> tracker_inv (PeerTracker_push_tasks tm now ts s)"
  unfolding PeerTracker_push_tasks_def
  by (induction ts arbitrary: s) (simp_all add: tracker_inv_push_task)

end

lemma checked_add_Inr_iff: "checked_add a b = Inr c \<longleftrightarrow> c = a + b \<and> a + b \<le> usize_max"
  by (auto simp: checked_add_def)

lemma checked_add_Inl: "checked_add a b = Inl e \<Longrightarrow> e = Overflow"
  by (auto simp: checked_add_def split: if_splits)

lemma start_task_spec:
  assumes "start_task t s = Inr s'"
  shows "s' = s\<lparr>active_work := active_work s + work t,
    active_tasks := hmodify (topic t) [] (\<lambda>ts. ts @ [t]) (active_tasks s)\<rparr>" "active_work s + work t \<le> usize_max"
  using assms by (auto simp: start_task_def rbind_Inr_iff checked_add_Inr_iff)

lemma start_task_Inl: "start_task t s = Inl e \<Longrightarrow> e = Overflow"
  by (auto simp: start_task_def rbind_Inl_iff dest: checked_add_Inl)

lemma tracker_inv_start_task:
  assumes inv: "tracker_inv s" and s': "start_task t s = Inr s'"
  shows "tracker_inv s'"
proof -
  note D = tracker_invD [OF inv]
  let ?d = "case map_of (active_tasks s) (topic t) of None \<Rightarrow> [] | Some v \<Rightarrow> v"
  have "total_work (hmodify (topic t) [] (\<lambda>ts. ts @ [t]) (active_tasks s)) = total_work (active_tasks s) + work t"
    using total_work_update [OF D(2), of "topic t" "?d @ [t]"] by (auto simp: hmodify_def split: option.splits)
  moreover have "list_all (\<lambda>u. topic u = topic t) ?d" using D(4) by (auto split: option.split)
  ultimately show ?thesis
    using inv start_task_spec(2) [OF s'] unfolding start_task_spec(1) [OF s'] by (auto simp: tracker_inv_def list_all_iff)
qed

text \<open>One iteration of the popping loop that takes a task.\<close>

lemma pop_tasks_loop_cases:
  assumes "pop_tasks_loop peek n out w s = r"
  obtains (stop) "r = Inr (out, s)" "pending_tasks s = [] \<or> freeze_val s \<noteq> 0 \<or> n \<le> w \<or>
        0 < max_active_work_per_peer s \<and> max_active_work_per_peer s \<le> active_work s \<or>
        (peek (pending_tasks s) = None \<or> (\<exists>k. peek (pending_tasks s) = Some k \<and> map_of (pending_tasks s) k = None))"
  | (overflow) k qt where "r = Inl Overflow" "map_of (pending_tasks s) k = Some qt"
        "usize_max < active_work s + work (task qt) \<or> usize_max < w + work (task qt)"
  | (take) k qt s' where "pending_tasks s \<noteq> []" "freeze_val s = 0" "w < n"
        "peek (pending_tasks s) = Some k" "map_of (pending_tasks s) k = Some qt"
        "start_task (task qt) (s\<lparr>pending_tasks := AList.delete k (pending_tasks s)\<rparr>) = Inr s'"
        "pop_tasks_loop peek n (out @ [task qt]) (w + work (task qt)) s' = r"
proof (cases "pending_tasks s \<noteq> [] \<and> freeze_val s = 0 \<and> w < n \<and>
    \<not> (0 < max_active_work_per_peer s \<and> max_active_work_per_peer s \<le> active_work s)")
  case False
  then show ?thesis using assms stop by (subst (asm) pop_tasks_loop.simps) (auto split: if_splits)
next
  case True
  show ?thesis
  proof (cases "peek (pending_tasks s)")
    case None
    then show ?thesis using assms stop True by (subst (asm) pop_tasks_loop.simps) auto
  next
    case k: (Some k)
    show ?thesis
    proof (cases "map_of (pending_tasks s) k")
      case None
      then show ?thesis using assms stop True k by (subst (asm) pop_tasks_loop.simps) auto
    next
      case (Some qt)
      let ?st = "start_task (task qt) (s\<lparr>pending_tasks := AList.delete k (pending_tasks s)\<rparr>)"
      have r: "r = (case ?st of Inl e \<Rightarrow> Inl e | Inr s' \<Rightarrow>
          (case checked_add w (work (task qt)) of Inl e \<Rightarrow> Inl e
           | Inr w' \<Rightarrow> pop_tasks_loop peek n (out @ [task qt]) w' s'))"
        using assms True k Some by (subst (asm) pop_tasks_loop.simps) (simp add: not_le split: if_splits)
      show ?thesis
      proof (cases ?st)
        case (Inl e)
        moreover have "usize_max < active_work s + work (task qt)"
          using Inl by (auto simp: start_task_def checked_add_def rbind_Inl_iff split: if_splits)
        ultimately show ?thesis using overflow r Some start_task_Inl [OF Inl] by simp
      next
        case (Inr s')
        then show ?thesis using overflow take r True k Some
          by (cases "w + work (task qt) \<le> usize_max") (auto simp: checked_add_def)
      qed
    qed
  qed
qed

lemma pop_tasks_loop_inv:
  "tracker_inv s \<Longrightarrow>
   case pop_tasks_loop peek n out w s of Inl e \<Rightarrow> e = Overflow | Inr (out', s') \<Rightarrow> tracker_inv s' \<and>
     freeze_val s' = freeze_val s \<and> pt_target s' = pt_target s"
proof (induction "length (pending_tasks s)" arbitrary: s out w rule: less_induct)
  case less
  define r where "r = pop_tasks_loop peek n out w s"
  note sym = r_def [symmetric]
  from sym show ?case
  proof (cases rule: pop_tasks_loop_cases)
    case (take k qt s')
    have inv: "tracker_inv s'"
      using tracker_inv_start_task [OF tracker_inv_delete_pending [OF less.prems] take(6)] .
    have "length (pending_tasks s') < length (pending_tasks s)"
      using start_task_pending [OF take(6)] length_delete_lt [OF take(5)] by simp
    from less.hyps [OF this inv, of "out @ [task qt]" "w + work (task qt)"]
    show ?thesis using take(7) sym start_task_spec(1) [OF take(6)] by (simp split: sum.splits prod.splits)
  qed (use less.prems in \<open>simp_all add: sym\<close>)
qed

section \<open>What popping returns\<close>

lemma compare_iff [simp]: "compare a b = Greater \<longleftrightarrow> b < a" "compare a b = Less \<longleftrightarrow> a < b"
  by (auto simp: compare_def)

lemma lawful_pending: "tracker_inv s \<Longrightarrow> lawful QueueTask_cmp (snd ` set (pending_tasks s))"
proof -
  assume inv: "tracker_inv s"
  have "target qt = pt_target s" if "qt \<in> snd ` set (pending_tasks s)" for qt
    using that tracker_invD(1,3) [OF inv] by (auto simp: hmap_in_set_iff)
  then have t: "target a = target b" if "a \<in> snd ` set (pending_tasks s)" "b \<in> snd ` set (pending_tasks s)" for a b
    using that by simp
  show ?thesis
    unfolding lawful_def
  proof (intro conjI ballI impI)
    fix a b assume "a \<in> snd ` set (pending_tasks s)" "b \<in> snd ` set (pending_tasks s)"
    from t [OF this] show "QueueTask_cmp a b = Greater \<longleftrightarrow> QueueTask_cmp b a = Less"
      by (auto simp: QueueTask_cmp_def)
  next
    fix a b c assume abc: "a \<in> snd ` set (pending_tasks s)" "b \<in> snd ` set (pending_tasks s)"
      "c \<in> snd ` set (pending_tasks s)" "QueueTask_cmp a b \<noteq> Greater" "QueueTask_cmp b c \<noteq> Greater"
    then show "QueueTask_cmp a c \<noteq> Greater"
      using t [OF abc(1,2)] t [OF abc(2,3)] by (auto simp: QueueTask_cmp_def split: if_splits)
  qed
qed

lemma kpq_topD:
  assumes "kpq_top cmp peek" "hmap_ok m" "m \<noteq> []"
  obtains k v where "peek m = Some k" "map_of m k = Some v"
    "lawful cmp (snd ` set m) \<Longrightarrow> \<forall>k' v'. map_of m k' = Some v' \<longrightarrow> cmp v' v \<noteq> Greater"
proof -
  have "case peek m of None \<Rightarrow> m = [] | Some k \<Rightarrow> (\<exists>v. map_of m k = Some v \<and>
      (lawful cmp (snd ` set m) \<longrightarrow> (\<forall>k' v'. map_of m k' = Some v' \<longrightarrow> cmp v' v \<noteq> Greater)))"
    using assms(1,2) by (simp only: kpq_top_def)
  then show ?thesis using assms(3) that by (cases "peek m") auto
qed

abbreviation pending_list :: "('t, 'd, 'peer) PeerTracker \<Rightarrow> ('t, 'd) Task list" where
  "pending_list s \<equiv> map (\<lambda>(k, qt). task qt) (pending_tasks s)"

lemma pending_work_list: "pending_work s = tasks_work (pending_list s)"
  by (simp add: pending_work_def tasks_work_def case_prod_unfold comp_def)

lemma tasks_work_mset: "mset ts = mset us \<Longrightarrow> tasks_work ts = tasks_work us"
  unfolding tasks_work_def by (metis mset_map sum_mset_sum_list)

lemma pending_delete_mset:
  assumes "hmap_ok m" "map_of m k = Some qt"
  shows "mset (map (\<lambda>(k, qt). task qt) m) = add_mset (task qt) (mset (map (\<lambda>(k, qt). task qt) (AList.delete k m)))"
  using arg_cong [OF delete_Some_mset [OF assms], of "image_mset (\<lambda>(k, qt). task qt)"] by simp

lemma peek_highest:
  assumes "kpq_top QueueTask_cmp peek" "tracker_inv s" "peek (pending_tasks s) = Some k"
    "map_of (pending_tasks s) k = Some qt" "t \<in> set (pending_list s)"
  shows "priority t \<le> priority (task qt)"
proof -
  note D = tracker_invD [OF assms(2)]
  obtain k' qt' where q: "map_of (pending_tasks s) k' = Some qt'" "t = task qt'"
    using assms(5) D(1) by (auto simp: hmap_in_set_iff)
  have "pending_tasks s \<noteq> []" using assms(4) by auto
  from kpq_topD [OF assms(1) D(1) this] have "QueueTask_cmp qt' qt \<noteq> Greater"
    using lawful_pending [OF assms(2)] assms(3,4) q(1) by (metis option.inject)
  then show ?thesis using D(3) [OF q(1)] D(3) [OF assms(4)] q(2)
    by (auto simp: QueueTask_cmp_def split: if_splits)
qed

abbreviation work_maxed :: "('t, 'd, 'peer) PeerTracker \<Rightarrow> bool" where
  "work_maxed s \<equiv> 0 < max_active_work_per_peer s \<and> max_active_work_per_peer s \<le> active_work s"

lemma pop_tasks_loop_spec:
  assumes "kpq_top QueueTask_cmp peek"
  shows "tracker_inv s \<Longrightarrow> active_work s + pending_work s \<le> usize_max \<Longrightarrow> w + pending_work s \<le> usize_max \<Longrightarrow>
    \<exists>ts s'. pop_tasks_loop peek n out w s = Inr (out @ ts, s') \<and>
      mset (pending_list s) = mset ts + mset (pending_list s') \<and>
      sorted_wrt (\<lambda>a b. priority b \<le> priority a) ts \<and>
      active_work s' = active_work s + tasks_work ts \<and>
      (freeze_val s \<noteq> 0 \<or> n \<le> w + tasks_work ts \<or> pending_tasks s' = [] \<or> work_maxed s') \<and>
      (ts \<noteq> [] \<longrightarrow> freeze_val s = 0 \<and> w + tasks_work (butlast ts) < n)"
proof (induction "length (pending_tasks s)" arbitrary: s out w rule: less_induct)
  case less
  note D = tracker_invD [OF less.prems(1)]
  define r where "r = pop_tasks_loop peek n out w s"
  note sym = r_def [symmetric]
  from sym show ?case
  proof (cases rule: pop_tasks_loop_cases)
    case stop
    then have "freeze_val s \<noteq> 0 \<or> n \<le> w \<or> pending_tasks s = [] \<or> work_maxed s"
      using kpq_topD [OF assms D(1)] by (metis option.distinct(1) option.inject)
    then show ?thesis using stop(1) sym by (intro exI [of _ "[]"] exI [of _ s]) simp
  next
    case (overflow k qt)
    have "work (task qt) \<le> pending_work s"
      using tasks_work_mset [OF pending_delete_mset [OF D(1) overflow(2), folded mset.simps]] by (simp add: pending_work_list)
    then show ?thesis using overflow(3) less.prems(2,3) by simp
  next
    case (take k qt s')
    have inv: "tracker_inv s'"
      using tracker_inv_start_task [OF tracker_inv_delete_pending [OF less.prems(1)] take(6)] .
    have s': "pending_tasks s' = AList.delete k (pending_tasks s)" "active_work s' = active_work s + work (task qt)"
      "freeze_val s' = 0" using start_task_spec(1) [OF take(6)] take(2) by simp_all
    have m: "mset (pending_list s) = add_mset (task qt) (mset (pending_list s'))"
      unfolding s'(1) by (rule pending_delete_mset [OF D(1) take(5)])
    then have w: "pending_work s = work (task qt) + pending_work s'"
      using tasks_work_mset [of "pending_list s" "task qt # pending_list s'"] by (simp add: pending_work_list)
    have "length (pending_tasks s') < length (pending_tasks s)" using s'(1) length_delete_lt [OF take(5)] by simp
    from less.hyps [OF this inv, of "w + work (task qt)" "out @ [task qt]"] obtain ts s'' where
      IH: "pop_tasks_loop peek n (out @ [task qt]) (w + work (task qt)) s' = Inr ((out @ [task qt]) @ ts, s'')"
        "mset (pending_list s') = mset ts + mset (pending_list s'')"
        "sorted_wrt (\<lambda>a b. priority b \<le> priority a) ts" "active_work s'' = active_work s' + tasks_work ts"
        "n \<le> w + work (task qt) + tasks_work ts \<or> pending_tasks s'' = [] \<or> work_maxed s''"
        "ts \<noteq> [] \<longrightarrow> w + work (task qt) + tasks_work (butlast ts) < n"
      using less.prems(2,3) w s'(2,3) by (auto simp: add_ac)
    have "priority t \<le> priority (task qt)" if "t \<in> set ts" for t
    proof -
      have "t \<in># mset (pending_list s)" using that unfolding m IH(2) by simp
      then show ?thesis using peek_highest [OF assms less.prems(1) take(4,5)] by (simp only: set_mset_mset)
    qed
    then have "sorted_wrt (\<lambda>a b. priority b \<le> priority a) (task qt # ts)" using IH(3) by simp
    moreover have "w + tasks_work (butlast (task qt # ts)) < n" using IH(6) take(3) by auto
    ultimately show ?thesis
      using IH(1,2,4,5) take(2,7) sym m s'(2)
      by (intro exI [of _ "task qt # ts"] exI [of _ s'']) (auto simp: add_ac)
  qed
qed

section \<open>Finishing tasks\<close>

lemma task_done_fold:
  "w + tasks_work (filter (\<lambda>u. u = t) ts) \<le> usize_max \<Longrightarrow>
   fold (\<lambda>u r. if u = t then rbind r (\<lambda>w. checked_add w (work t)) else r) ts (Inr w) =
     Inr (w + tasks_work (filter (\<lambda>u. u = t) ts))"
  by (induction ts arbitrary: w) (auto simp: checked_add_def add_ac)

lemma tasks_work_filter: "tasks_work (filter P ts) + tasks_work (filter (\<lambda>t. \<not> P t) ts) = tasks_work ts"
  by (induction ts) auto

lemma tasks_work_le_total: "map_of m k = Some ts \<Longrightarrow> tasks_work ts \<le> total_work m"
  by (induction m) (auto split: if_splits)

lemma task_done_spec:
  assumes inv: "tracker_inv s"
  shows "\<exists>s'. task_done t s = Inr s' \<and> tracker_inv s' \<and> pt_target s' = pt_target s \<and> freeze_val s' = freeze_val s \<and>
    pending_tasks s' = pending_tasks s \<and>
    (\<forall>k. map_of (active_tasks s') k =
      (case map_of (active_tasks s) k of None \<Rightarrow> None
       | Some ts \<Rightarrow> (if filter (\<lambda>u. u \<noteq> t) ts = [] then None else Some (filter (\<lambda>u. u \<noteq> t) ts))))"
proof (cases "map_of (active_tasks s) (topic t)")
  note D = tracker_invD [OF inv]
  have keep: "filter (\<lambda>u. u \<noteq> t) ts = ts \<and> ts \<noteq> []" if "map_of (active_tasks s) k = Some ts" "k \<noteq> topic t" for k ts
    using D(4) [OF that(1)] that(2) by (auto simp: list_all_iff filter_id_conv)
  {
    case None
    then show ?thesis using inv keep
      by (auto simp: task_done_def split: option.split) (metis option.distinct(1))+
  next
    case (Some ts)
    let ?w = "tasks_work (filter (\<lambda>u. u = t) ts)" and ?ts = "filter (\<lambda>u. u \<noteq> t) ts"
    have w: "?w + tasks_work ?ts = tasks_work ts" by (rule tasks_work_filter)
    have le: "?w \<le> active_work s" using w tasks_work_le_total [OF Some] D(5) by simp
    define m where "m = (if ?ts = [] then AList.delete (topic t) (active_tasks s)
        else AList.update (topic t) ?ts (active_tasks s))"
    have eq: "task_done t s = Inr (s\<lparr>active_work := active_work s - ?w, active_tasks := m\<rparr>)"
      using Some le task_done_fold [of 0 t ts] D(7) by (simp add: task_done_def m_def)
    have "total_work m + ?w = total_work (active_tasks s)"
      using total_work_delete [OF D(2), of "topic t"] total_work_update [OF D(2), of "topic t" ?ts] Some w
      by (auto simp: m_def)
    moreover have "list_all (\<lambda>u. topic u = topic t) ?ts" using D(4) [OF Some] by (simp add: list_all_iff)
    ultimately have inv': "tracker_inv (s\<lparr>active_work := active_work s - ?w, active_tasks := m\<rparr>)"
      using inv le by (auto simp: tracker_inv_def m_def split: if_splits)
    have "map_of m k = (case map_of (active_tasks s) k of None \<Rightarrow> None
        | Some ts \<Rightarrow> (if filter (\<lambda>u. u \<noteq> t) ts = [] then None else Some (filter (\<lambda>u. u \<noteq> t) ts)))" for k
      using Some keep [of k] by (cases "k = topic t") (auto simp: m_def split: option.split)
    then show ?thesis using eq inv' by simp
  }
qed

section \<open>A queue that pops as documented\<close>

fun scan_top :: "('v \<Rightarrow> 'v \<Rightarrow> ordering) \<Rightarrow> ('k, 'v) hmap \<Rightarrow> ('k \<times> 'v) option" where
  "scan_top cmp [] = None"
| "scan_top cmp (x # xs) =
     (case scan_top cmp xs of None \<Rightarrow> Some x | Some y \<Rightarrow> Some (if cmp (snd y) (snd x) = Greater then y else x))"

lemma lawfulD:
  assumes "lawful cmp V" "a \<in> V" "b \<in> V"
  shows "cmp a b = Greater \<longleftrightarrow> cmp b a = Less"
    "c \<in> V \<Longrightarrow> cmp a b \<noteq> Greater \<Longrightarrow> cmp b c \<noteq> Greater \<Longrightarrow> cmp a c \<noteq> Greater"
  using assms unfolding lawful_def by blast+

lemma lawful_refl: "lawful cmp V \<Longrightarrow> a \<in> V \<Longrightarrow> cmp a a \<noteq> Greater"
  using lawfulD(1) [of cmp V a a] by auto

lemma lawful_mono: "lawful cmp V \<Longrightarrow> U \<subseteq> V \<Longrightarrow> lawful cmp U"
  unfolding lawful_def by (intro conjI ballI impI; meson subsetD)

lemma scan_top_spec:
  "scan_top cmp m = Some (k, v) \<Longrightarrow>
   (k, v) \<in> set m \<and> (lawful cmp (snd ` set m) \<longrightarrow> (\<forall>y \<in> snd ` set m. cmp y v \<noteq> Greater))"
proof (induction m arbitrary: k v)
  case (Cons x m)
  show ?case
  proof (cases "scan_top cmp m")
    case None
    then have "m = []" by (cases m) (auto split: option.splits)
    then show ?thesis using Cons.prems lawful_refl [of cmp "snd ` set (x # m)"] by auto
  next
    case (Some y)
    obtain k' v' where y: "y = (k', v')" by (cases y)
    from Cons.IH [OF Some [unfolded y]] have IH: "(k', v') \<in> set m"
      "lawful cmp (snd ` set m) \<Longrightarrow> z \<in> snd ` set m \<Longrightarrow> cmp z v' \<noteq> Greater" for z by auto
    have v': "v' \<in> snd ` set m" using IH(1) by force
    have kv: "(k, v) = (if cmp v' (snd x) = Greater then (k', v') else x)"
      using Cons.prems Some y by (auto split: if_splits)
    have "cmp z v \<noteq> Greater" if law: "lawful cmp (snd ` set (x # m))" and z: "z \<in> snd ` set (x # m)" for z
    proof -
      have law': "lawful cmp (snd ` set m)" by (rule lawful_mono [OF law]) auto
      have V: "snd x \<in> snd ` set (x # m)" "v' \<in> snd ` set (x # m)" using v' by auto
      show ?thesis
      proof (cases "cmp v' (snd x) = Greater")
        case True
        then have "cmp (snd x) v' = Less" using lawfulD(1) [OF law V(2,1)] by simp
        then show ?thesis using kv True z IH(2) [OF law'] by (auto split: if_splits)
      next
        case False
        then have "v = snd x" using kv by (auto simp: prod_eq_iff)
        then show ?thesis
          using z False IH(2) [OF law'] lawfulD(2) [OF law z V(2) V(1)] lawful_refl [OF law V(1)] by auto
      qed
    qed
    then show ?thesis using kv IH(1) by (auto split: if_splits)
  qed
qed simp

lemma kpq_top_scan: "kpq_top cmp (\<lambda>m :: ('k, 'v) hmap. map_option fst (scan_top cmp m))"
  unfolding kpq_top_def
proof (intro allI impI)
  fix m :: "('k, 'v) hmap" assume ok: "hmap_ok m"
  show "case map_option fst (scan_top cmp m) of None \<Rightarrow> m = []
    | Some k \<Rightarrow> (\<exists>v. map_of m k = Some v \<and>
        (lawful cmp (snd ` set m) \<longrightarrow> (\<forall>k' v'. map_of m k' = Some v' \<longrightarrow> cmp v' v \<noteq> Greater)))"
  proof (cases "scan_top cmp m")
    case None
    then show ?thesis by (cases m) (auto split: option.splits)
  next
    case (Some y)
    obtain k v where y: "y = (k, v)" by (cases y)
    from scan_top_spec [OF Some [unfolded y]] have "map_of m k = Some v"
      "lawful cmp (snd ` set m) \<longrightarrow> (\<forall>k' v'. map_of m k' = Some v' \<longrightarrow> cmp v' v \<noteq> Greater)"
      using ok by (auto simp: hmap_in_set_iff [OF ok, symmetric] image_iff Bex_def)
    then show ?thesis using Some y by simp
  qed
qed

section \<open>Properties\<close>

text \<open>C28: Merging a new task into a queued one loses no information: the result is a want-block or has the
  block size if one of them did, an already known size is kept, the task of a block to send weighs
  the block's size, and the new task has no further news afterwards. Topic and priority stay.\<close>

theorem server_merge_correct:
  "let m = server_merge t e; wb = is_want_block (data t) \<or> is_want_block (data e); hb = have_block (data t) \<or> have_block (data e);
       size = (if have_block (data t) \<and> \<not> have_block (data e) then block_size (data t) else block_size (data e))
   in is_want_block (data m) = wb \<and> have_block (data m) = hb \<and> block_size (data m) = size \<and>
      send_dont_have (data m) = send_dont_have (data e) \<and> topic m = topic e \<and> priority m = priority e \<and>
      work m = (if wb \<and> hb then size else if wb \<and> \<not> is_want_block (data e) then work t else work e) \<and>
      \<not> server_has_new_info t [m]"
  by (simp add: server_merge_def Let_def server_has_new_info_iff)

text \<open>C13: If the queue pops as documented and the sums fit in 64 bits, popping from a tracker terminates
  without panic; it moves tasks from the pending to the active ones, losing none, in descending
  priority; it takes no more than needed to cover the target, and less only if the pending tasks
  ran out, the peer is frozen, or its active work reached the maximum.\<close>

theorem pop_tasks_correct:
  assumes "kpq_top QueueTask_cmp peek" "tracker_inv s" "active_work s + pending_work s \<le> usize_max"
  shows "\<exists>ts s'. PeerTracker_pop_tasks peek n s = Inr (ts, s') \<and> tracker_inv s' \<and>
    mset (pending_list s) = mset ts + mset (pending_list s') \<and>
    sorted_wrt (\<lambda>a b. priority b \<le> priority a) ts \<and>
    active_work s' = active_work s + tasks_work ts \<and>
    (is_frozen s \<or> n \<le> tasks_work ts \<or> pending_tasks s' = [] \<or> work_maxed s') \<and>
    (ts \<noteq> [] \<longrightarrow> \<not> is_frozen s \<and> tasks_work (butlast ts) < n)"
proof -
  have f: "freeze_val s \<noteq> 0 \<longleftrightarrow> is_frozen s" using tracker_invD(6) [OF assms(2)] by (auto simp: is_frozen_def)
  obtain ts s' where P: "pop_tasks_loop peek n [] 0 s = Inr (ts, s')"
      "mset (pending_list s) = mset ts + mset (pending_list s')" "sorted_wrt (\<lambda>a b. priority b \<le> priority a) ts"
      "active_work s' = active_work s + tasks_work ts"
      "freeze_val s \<noteq> 0 \<or> n \<le> tasks_work ts \<or> pending_tasks s' = [] \<or> work_maxed s'"
      "ts \<noteq> [] \<longrightarrow> freeze_val s = 0 \<and> tasks_work (butlast ts) < n"
    using pop_tasks_loop_spec [OF assms, of 0 n "[]"] assms(3) by auto
  moreover have "tracker_inv s'" using pop_tasks_loop_inv [OF assms(2), of peek n "[]" 0] P(1) by simp
  ultimately show ?thesis unfolding PeerTracker_pop_tasks_def using f by blast
qed

theorem pop_tasks_correct_witness:
  "let peek = (\<lambda>m. map_option fst (scan_top QueueTask_cmp m));
       s = PeerTracker_push_tasks DefaultTaskMerger 7
             [\<lparr>topic = 1, priority = 3, work = 10, data = ()\<rparr>, \<lparr>topic = 2, priority = 5, work = 20, data = ()\<rparr>]
             (PeerTracker_new (0::nat) 0) :: (nat, unit, nat) PeerTracker
   in tracker_inv s \<and> active_work s + pending_work s = 30 \<and>
      (\<exists>ts s'. PeerTracker_pop_tasks peek 15 s = Inr (ts, s') \<and> mset (pending_list s) = mset ts + mset (pending_list s') \<and>
         sorted_wrt (\<lambda>a b. priority b \<le> priority a) ts)"
proof -
  let ?s = "PeerTracker_push_tasks DefaultTaskMerger 7
     [\<lparr>topic = 1, priority = 3, work = 10, data = ()\<rparr>, \<lparr>topic = 2, priority = 5, work = 20, data = ()\<rparr>]
     (PeerTracker_new (0::nat) 0) :: (nat, unit, nat) PeerTracker"
  have inv: "tracker_inv ?s" by (intro default_merger.tracker_inv_push_tasks tracker_inv_new)
  have w: "active_work ?s + pending_work ?s = 30"
    by (simp add: PeerTracker_push_tasks_def PeerTracker_push_task_def PeerTracker_new_def pending_work_def
        task_has_more_info_than_active_tasks_def QueueTask_new_def)
  then have "active_work ?s + pending_work ?s \<le> usize_max" by (simp add: usize_max_def)
  from pop_tasks_correct [OF kpq_top_scan inv this, of 15] inv w show ?thesis unfolding Let_def by blast
qed

text \<open>The order of the peer trackers is not one: a frozen peer with little active work and an unfrozen one
  with more are each below the other, so freezing does not reliably lower a peer's priority.\<close>

theorem PeerTracker_cmp_not_antisymmetric:
  assumes "pending_tasks a \<noteq> []" "pending_tasks b \<noteq> []" "is_frozen a" "freeze_val b = 0" "active_work a < active_work b"
  shows "PeerTracker_cmp a b = Less \<and> PeerTracker_cmp b a = Less"
  using assms by (simp add: PeerTracker_cmp_def is_frozen_def)

theorem PeerTracker_cmp_not_antisymmetric_witness:
  "let qt = QueueTask_new \<lparr>topic = 1, priority = 1, work = 1, data = ()\<rparr> 0 0;
       a = (PeerTracker_new 0 0)\<lparr>pending_tasks := [(1, qt)], freeze_val := 1\<rparr>;
       b = (PeerTracker_new 1 0)\<lparr>pending_tasks := [(1, qt)], active_work := 5\<rparr> :: (nat, unit, nat) PeerTracker
   in PeerTracker_cmp a b = Less \<and> PeerTracker_cmp b a = Less"
  unfolding Let_def by (rule PeerTracker_cmp_not_antisymmetric) (simp_all add: PeerTracker_new_def is_frozen_def)

end
