(* ===== verification/Peer_Task_Queue.thy ===== *)
theory Peer_Task_Queue
  imports Task_Tracker
begin

text \<open>
  The task queue of the bitswap server over all peers (\<open>peer_task_queue.rs\<close>): a priority queue of
  peer trackers, and the set of frozen peers, whose tasks wait after a cancel. The operations run
  under a mutex, so a history is a sequence of them. Each hook registered by \<open>add_hook\<close> is a
  channel; an operation returns the events it sends, in order.
\<close>

section \<open>State and operations\<close>

datatype 'peer Event = PeerAdded 'peer | PeerRemoved 'peer

record ('t, 'd, 'peer) Inner =
  peer_queue :: "('peer, ('t, 'd, 'peer) PeerTracker) hmap"
  frozen_peers :: "'peer list"
  ignore_freezing :: bool
  max_outstanding_work_per_peer :: nat
  hooks :: nat

definition PeerTaskQueue_new :: "bool \<Rightarrow> nat \<Rightarrow> ('t, 'd, 'peer) Inner" where
  "PeerTaskQueue_new ignore max_work =
     \<lparr>peer_queue = [], frozen_peers = [], ignore_freezing = ignore,
      max_outstanding_work_per_peer = max_work, hooks = 0\<rparr>"

definition add_hook :: "('t, 'd, 'peer) Inner \<Rightarrow> ('t, 'd, 'peer) Inner" where
  "add_hook s = s\<lparr>hooks := hooks s + 1\<rparr>"

definition PeerTaskQueue_stats :: "('t, 'd, 'peer) Inner \<Rightarrow> nat \<times> nat \<times> nat" where
  "PeerTaskQueue_stats s =
     fold (\<lambda>(p, t) (num_peers, num_active, num_pending).
       (let (pending, active) = PeerTracker_stats t in (num_peers, num_active + active, num_pending + pending)))
       (peer_queue s) (length (peer_queue s), 0, 0)"

definition peer_topics :: "'peer \<Rightarrow> ('t::linorder, 'd, 'peer) Inner \<Rightarrow> ('t list \<times> 't list) option" where
  "peer_topics peer s = map_option PeerTracker_topics (map_of (peer_queue s) peer)"

definition call_hook :: "'peer Event \<Rightarrow> ('t, 'd, 'peer) Inner \<Rightarrow> 'peer Event list" where
  "call_hook event s = replicate (hooks s) event"

definition requeue ::
  "'peer \<Rightarrow> ('t, 'd, 'peer) PeerTracker \<Rightarrow> ('t, 'd, 'peer) Inner \<Rightarrow> ('t, 'd, 'peer) Inner" where
  "requeue peer tracker s = s\<lparr>peer_queue := AList.update peer tracker (AList.delete peer (peer_queue s))\<rparr>"

definition PeerTaskQueue_push_tasks ::
  "('t, 'd) TaskMerger \<Rightarrow> nat \<Rightarrow> 'peer \<Rightarrow> ('t, 'd) Task list \<Rightarrow> ('t, 'd, 'peer) Inner \<Rightarrow>
   'peer Event list \<times> ('t, 'd, 'peer) Inner" where
  "PeerTaskQueue_push_tasks tm now peer tasks s =
     (let (events, tracker) =
            (case map_of (peer_queue s) peer of
               Some tracker \<Rightarrow> ([], tracker)
             | None \<Rightarrow> (call_hook (PeerAdded peer) s, PeerTracker_new peer (max_outstanding_work_per_peer s)))
      in (events, requeue peer (PeerTracker_push_tasks tm now tasks tracker) s))"

definition PeerTaskQueue_pop_tasks ::
  "(('peer, ('t, 'd, 'peer) PeerTracker) hmap \<Rightarrow> 'peer option) \<Rightarrow>
   (('t, ('t, 'd, 'peer) QueueTask) hmap \<Rightarrow> 't option) \<Rightarrow> nat \<Rightarrow> ('t, 'd, 'peer) Inner \<Rightarrow>
   (('peer \<times> ('t, 'd) Task list \<times> nat) option \<times> 'peer Event list \<times> ('t, 'd, 'peer) Inner) checked" where
  "PeerTaskQueue_pop_tasks peek_peer peek target_min_work s =
     (case peek_peer (peer_queue s) of
        None \<Rightarrow> Inr (None, [], s)
      | Some peer \<Rightarrow>
          (case map_of (peer_queue s) peer of
             None \<Rightarrow> Inr (None, [], s)
           | Some tracker \<Rightarrow>
               rbind (PeerTracker_pop_tasks peek target_min_work tracker) (\<lambda>(out, tracker').
                 rbind (get_pending_work tracker') (\<lambda>pending_work.
                   if PeerTracker_is_idle tracker'
                   then Inr (Some (peer, out, pending_work), call_hook (PeerRemoved peer) s,
                          s\<lparr>peer_queue := AList.delete peer (peer_queue s),
                            frozen_peers := removeAll peer (frozen_peers s)\<rparr>)
                   else Inr (Some (peer, out, pending_work), [], requeue peer tracker' s)))))"

definition tasks_done ::
  "'peer \<Rightarrow> ('t, 'd) Task list \<Rightarrow> ('t, 'd, 'peer) Inner \<Rightarrow> ('t, 'd, 'peer) Inner checked" where
  "tasks_done peer tasks s =
     (case map_of (peer_queue s) peer of
        Some tracker \<Rightarrow>
          rbind (fold (\<lambda>t r. rbind r (task_done t)) tasks (Inr tracker)) (\<lambda>tracker'. Inr (requeue peer tracker' s))
      | None \<Rightarrow> Inr s)"

definition PeerTaskQueue_remove :: "'t \<Rightarrow> 'peer \<Rightarrow> ('t, 'd, 'peer) Inner \<Rightarrow> ('t, 'd, 'peer) Inner" where
  "PeerTaskQueue_remove k peer s =
     (case map_of (peer_queue s) peer of
        Some tracker \<Rightarrow>
          (let (removed, tracker1) = PeerTracker_remove k tracker
           in if removed \<and> \<not> ignore_freezing s
              then (requeue peer (freeze tracker1) s)
                     \<lparr>frozen_peers := (if is_frozen tracker1 then frozen_peers s
                                       else List.insert peer (frozen_peers s))\<rparr>
              else requeue peer tracker1 s)
      | None \<Rightarrow> s)"

definition full_thaw_peer :: "'peer \<Rightarrow> ('t, 'd, 'peer) Inner \<Rightarrow> ('t, 'd, 'peer) Inner" where
  "full_thaw_peer peer s =
     (case map_of (peer_queue s) peer of
        Some tracker \<Rightarrow>
          (requeue peer (PeerTracker_full_thaw tracker) s)\<lparr>frozen_peers := removeAll peer (frozen_peers s)\<rparr>
      | None \<Rightarrow> s)"

definition PeerTaskQueue_full_thaw :: "('t, 'd, 'peer) Inner \<Rightarrow> ('t, 'd, 'peer) Inner" where
  "PeerTaskQueue_full_thaw s = fold full_thaw_peer (frozen_peers s) s"

definition thaw_peer :: "'peer \<Rightarrow> ('t, 'd, 'peer) Inner \<Rightarrow> ('t, 'd, 'peer) Inner" where
  "thaw_peer peer s =
     (case map_of (peer_queue s) peer of
        Some tracker \<Rightarrow>
          (let (thawed, tracker') = thaw tracker
           in (requeue peer tracker' s)\<lparr>frozen_peers := (if thawed then removeAll peer (frozen_peers s) else frozen_peers s)\<rparr>)
      | None \<Rightarrow> s)"

definition thaw_round :: "('t, 'd, 'peer) Inner \<Rightarrow> ('t, 'd, 'peer) Inner" where
  "thaw_round s = fold thaw_peer (frozen_peers s) s"

section \<open>The invariant\<close>

definition ptq_inv :: "('t, 'd, 'peer) Inner \<Rightarrow> bool" where
  "ptq_inv s \<longleftrightarrow> hmap_ok (peer_queue s) \<and> distinct (frozen_peers s) \<and>
     (\<forall>p t. map_of (peer_queue s) p = Some t \<longrightarrow> tracker_inv t \<and> pt_target t = p) \<and>
     (\<forall>p. p \<in> set (frozen_peers s) \<longleftrightarrow> (\<exists>t. map_of (peer_queue s) p = Some t \<and> is_frozen t))"

lemma requeue_simps [simp]:
  "map_of (peer_queue (requeue p t s)) = (map_of (peer_queue s))(p \<mapsto> t)"
  "frozen_peers (requeue p t s) = frozen_peers s" "ignore_freezing (requeue p t s) = ignore_freezing s"
  "hmap_ok (peer_queue s) \<Longrightarrow> hmap_ok (peer_queue (requeue p t s))"
  by (simp_all add: requeue_def)

lemma ptq_invD:
  assumes "ptq_inv s"
  shows "hmap_ok (peer_queue s)" "distinct (frozen_peers s)"
    "map_of (peer_queue s) p = Some t \<Longrightarrow> tracker_inv t \<and> pt_target t = p"
    "p \<in> set (frozen_peers s) \<longleftrightarrow> (\<exists>t. map_of (peer_queue s) p = Some t \<and> is_frozen t)"
  using assms by (simp_all add: ptq_inv_def)

text \<open>Putting a tracker back, with the frozen set following its freeze value.\<close>

lemma ptq_inv_requeue:
  assumes "ptq_inv s" "tracker_inv t" "pt_target t = p" "distinct fz"
    "\<And>q. q \<in> set fz \<longleftrightarrow> (if q = p then is_frozen t else q \<in> set (frozen_peers s))"
  shows "ptq_inv ((requeue p t s)\<lparr>frozen_peers := fz\<rparr>)"
  using assms by (auto simp: ptq_inv_def)

lemma ptq_inv_requeue_same:
  assumes "ptq_inv s" "tracker_inv t" "pt_target t = p" "p \<in> set (frozen_peers s) \<longleftrightarrow> is_frozen t"
  shows "ptq_inv (requeue p t s)"
  using ptq_inv_requeue [OF assms(1-3), of "frozen_peers s"] ptq_invD(2) [OF assms(1)] assms(4)
  by (simp add: requeue_def)

lemma frozen_tracked:
  "ptq_inv s \<Longrightarrow> map_of (peer_queue s) p = Some t \<Longrightarrow> p \<in> set (frozen_peers s) \<longleftrightarrow> is_frozen t"
  by (simp add: ptq_inv_def)

lemma is_frozen_cong: "freeze_val s = freeze_val t \<Longrightarrow> is_frozen s = is_frozen t"
  by (simp add: is_frozen_def)

lemma push_tasks_frame:
  "freeze_val (PeerTracker_push_tasks tm now ts s) = freeze_val s \<and>
   pt_target (PeerTracker_push_tasks tm now ts s) = pt_target s"
  unfolding PeerTracker_push_tasks_def
  by (induction ts arbitrary: s)
    (simp_all add: PeerTracker_push_task_def Let_def split: option.split)


context task_merger
begin

lemma ptq_inv_push: "ptq_inv s \<Longrightarrow> ptq_inv (snd (PeerTaskQueue_push_tasks tm now p ts s))"
proof (cases "map_of (peer_queue s) p")
  case None
  assume inv: "ptq_inv s"
  then have "p \<notin> set (frozen_peers s)" using ptq_invD(4) [OF inv] None by simp
  then show ?thesis
    using None inv push_tasks_frame [of tm now ts "PeerTracker_new p (max_outstanding_work_per_peer s)"]
    by (auto simp: PeerTaskQueue_push_tasks_def PeerTracker_new_def is_frozen_def
        intro!: ptq_inv_requeue_same tracker_inv_push_tasks tracker_inv_new [unfolded PeerTracker_new_def])
next
  case (Some t)
  assume inv: "ptq_inv s"
  then show ?thesis
    using Some push_tasks_frame [of tm now ts t] frozen_tracked [OF inv Some] ptq_invD(3) [OF inv Some]
      is_frozen_cong [of "PeerTracker_push_tasks tm now ts t" t]
    by (auto simp: PeerTaskQueue_push_tasks_def intro!: ptq_inv_requeue_same tracker_inv_push_tasks)
qed

end

lemma pending_sum_Inl:
  "fold (\<lambda>(k, qt) r. rbind r (\<lambda>w. checked_add w (work (task qt)))) m r = Inl e \<Longrightarrow> r = Inl e \<or> e = Overflow"
proof (induction m arbitrary: r)
  case (Cons x m)
  then have "rbind r (\<lambda>w. checked_add w (work (task (snd x)))) = Inl e \<or> e = Overflow"
    by (simp add: case_prod_unfold)
  then show ?case by (auto simp: rbind_Inl_iff dest: checked_add_Inl)
qed simp

lemma get_pending_work_Inl: "get_pending_work s = Inl e \<Longrightarrow> e = Overflow"
  unfolding get_pending_work_def by (drule pending_sum_Inl) simp

lemma ptq_inv_pop:
  assumes inv: "ptq_inv s"
  shows "case PeerTaskQueue_pop_tasks pp pt n s of Inl e \<Rightarrow> e = Overflow | Inr (r, es, s') \<Rightarrow> ptq_inv s'"
proof (cases "pp (peer_queue s)")
  case None
  then show ?thesis using inv by (simp add: PeerTaskQueue_pop_tasks_def)
next
  case p: (Some p)
  show ?thesis
  proof (cases "map_of (peer_queue s) p")
    case None
    then show ?thesis using inv p by (simp add: PeerTaskQueue_pop_tasks_def)
  next
    case (Some t)
    note T = ptq_invD(3) [OF inv Some]
    have L: "case PeerTracker_pop_tasks pt n t of Inl e \<Rightarrow> e = Overflow | Inr (out', s') \<Rightarrow> tracker_inv s' \<and>
        freeze_val s' = freeze_val t \<and> pt_target s' = pt_target t"
      unfolding PeerTracker_pop_tasks_def by (rule pop_tasks_loop_inv) (use T in simp)
    have gone: "ptq_inv (s\<lparr>peer_queue := AList.delete p (peer_queue s), frozen_peers := removeAll p (frozen_peers s)\<rparr>)"
      using inv by (auto simp: ptq_inv_def distinct_removeAll)
    show ?thesis
    proof (cases "PeerTracker_pop_tasks pt n t")
      case (Inl e)
      then show ?thesis using p Some L by (simp add: PeerTaskQueue_pop_tasks_def)
    next
      case (Inr y)
      obtain out t' where y: "y = (out, t')" by (cases y)
      have t': "tracker_inv t'" "pt_target t' = p" "is_frozen t' \<longleftrightarrow> p \<in> set (frozen_peers s)"
        using L Inr y T is_frozen_cong [of t' t] frozen_tracked [OF inv Some] by auto
      have kept: "ptq_inv (requeue p t' s)"
        using t' by (intro ptq_inv_requeue_same [OF inv]) auto
      show ?thesis
      proof (cases "get_pending_work t'")
        case (Inl e)
        then show ?thesis using p Some Inr y get_pending_work_Inl [OF Inl] by (simp add: PeerTaskQueue_pop_tasks_def)
      next
        case (Inr w)
        then show ?thesis using p Some \<open>PeerTracker_pop_tasks pt n t = Inr y\<close> y gone kept
          by (simp add: PeerTaskQueue_pop_tasks_def)
      qed
    qed
  qed
qed

lemma task_done_fold_ok:
  "tracker_inv t \<Longrightarrow> \<exists>t'. fold (\<lambda>t r. rbind r (task_done t)) ts (Inr t) = Inr t' \<and> tracker_inv t' \<and>
     pt_target t' = pt_target t \<and> freeze_val t' = freeze_val t"
proof (induction ts arbitrary: t)
  case (Cons x ts)
  from task_done_spec [OF Cons.prems, of x] obtain t1 where
    "task_done x t = Inr t1" "tracker_inv t1" "pt_target t1 = pt_target t" "freeze_val t1 = freeze_val t" by blast
  then show ?case using Cons.IH [of t1] by simp
qed simp

lemma tasks_done_ok:
  assumes inv: "ptq_inv s"
  shows "\<exists>s'. tasks_done p ts s = Inr s' \<and> ptq_inv s'"
proof (cases "map_of (peer_queue s) p")
  case (Some t)
  note T = ptq_invD(3) [OF inv Some]
  obtain t' where t': "fold (\<lambda>t r. rbind r (task_done t)) ts (Inr t) = Inr t'" "tracker_inv t'" "pt_target t' = p"
      "freeze_val t' = freeze_val t"
    using task_done_fold_ok [of t ts] T by auto
  then have "ptq_inv (requeue p t' s)"
    using frozen_tracked [OF inv Some] is_frozen_cong [of t' t] by (intro ptq_inv_requeue_same [OF inv]) auto
  then show ?thesis using Some t'(1) by (simp add: tasks_done_def)
qed (use inv in \<open>simp add: tasks_done_def\<close>)

lemma ptq_inv_remove:
  assumes inv: "ptq_inv s"
  shows "ptq_inv (PeerTaskQueue_remove k p s)"
proof (cases "map_of (peer_queue s) p")
  case (Some t)
  note T = ptq_invD(3) [OF inv Some]
  define t1 where "t1 = t\<lparr>pending_tasks := AList.delete k (pending_tasks t)\<rparr>"
  have t1: "tracker_inv t1" "pt_target t1 = p" "is_frozen t1 \<longleftrightarrow> is_frozen t"
    using T tracker_inv_delete_pending by (auto simp: t1_def is_frozen_def)
  have "ptq_inv (requeue p t1 s)"
    using t1 frozen_tracked [OF inv Some] by (intro ptq_inv_requeue_same [OF inv]) auto
  moreover have "ptq_inv ((requeue p (freeze t1) s)\<lparr>frozen_peers :=
      (if is_frozen t1 then frozen_peers s else List.insert p (frozen_peers s))\<rparr>)"
  proof (rule ptq_inv_requeue [OF inv])
    show "tracker_inv (freeze t1)" using t1(1) tracker_invD(6) [OF t1(1)]
      by (simp add: freeze_def tracker_inv_freeze_val)
    show "pt_target (freeze t1) = p" using t1(2) by (simp add: freeze_def)
    show "distinct (if is_frozen t1 then frozen_peers s else List.insert p (frozen_peers s))"
      using ptq_invD(2) [OF inv] by simp
    have "is_frozen (freeze t1)" using tracker_invD(6) [OF t1(1)] by (simp add: freeze_def is_frozen_def)
    then show "q \<in> set (if is_frozen t1 then frozen_peers s else List.insert p (frozen_peers s)) \<longleftrightarrow>
        (if q = p then is_frozen (freeze t1) else q \<in> set (frozen_peers s))" for q
      using t1(3) frozen_tracked [OF inv Some] by auto
  qed
  ultimately show ?thesis using Some by (simp add: PeerTaskQueue_remove_def PeerTracker_remove_def Let_def t1_def)
qed (use inv in \<open>simp add: PeerTaskQueue_remove_def\<close>)

section \<open>Thawing\<close>

definition freeze_of :: "('t, 'd, 'peer) Inner \<Rightarrow> 'peer \<Rightarrow> int" where
  "freeze_of s p = (case map_of (peer_queue s) p of None \<Rightarrow> 0 | Some t \<Rightarrow> freeze_val t)"

definition tasks_of :: "('t, 'd, 'peer) Inner \<Rightarrow> 'peer \<Rightarrow> ('t, 'd) Task list" where
  "tasks_of s p = (case map_of (peer_queue s) p of None \<Rightarrow> [] | Some t \<Rightarrow> pending_list t)"

lemma thaw_eq: "0 \<le> freeze_val t \<Longrightarrow> thaw t = (freeze_val t div 2 \<le> 0, t\<lparr>freeze_val := freeze_val t div 2\<rparr>)"
proof -
  assume "0 \<le> freeze_val t"
  then have "freeze_val t - idiv2 (freeze_val t + 1) = freeze_val t div 2" by (simp add: idiv2_def)
  then show ?thesis by (simp add: thaw_def Let_def)
qed

lemma thaw_peer_spec:
  assumes inv: "ptq_inv s"
  shows "ptq_inv (thaw_peer p s)"
    "freeze_of (thaw_peer p s) q = (if q = p then freeze_of s q div 2 else freeze_of s q)"
    "tasks_of (thaw_peer p s) q = tasks_of s q"
proof -
  have "ptq_inv (thaw_peer p s) \<and>
    freeze_of (thaw_peer p s) q = (if q = p then freeze_of s q div 2 else freeze_of s q) \<and>
    tasks_of (thaw_peer p s) q = tasks_of s q"
  proof (cases "map_of (peer_queue s) p")
    case None
    then show ?thesis using inv by (auto simp: thaw_peer_def freeze_of_def)
  next
    case (Some t)
    note T = ptq_invD(3) [OF inv Some]
    let ?v = "freeze_val t div 2"
    have v: "0 \<le> freeze_val t" using T tracker_invD(6) by blast
    have eq: "thaw_peer p s = (requeue p (t\<lparr>freeze_val := ?v\<rparr>) s)
        \<lparr>frozen_peers := (if ?v \<le> 0 then removeAll p (frozen_peers s) else frozen_peers s)\<rparr>"
      using Some thaw_eq [OF v] by (simp add: thaw_peer_def)
    have "?v > 0 \<Longrightarrow> is_frozen t" using v by (auto simp: is_frozen_def)
    then have "ptq_inv (thaw_peer p s)"
      unfolding eq using T v ptq_invD(2) [OF inv] frozen_tracked [OF inv Some]
      by (intro ptq_inv_requeue [OF inv]) (auto simp: is_frozen_def distinct_removeAll intro!: tracker_inv_freeze_val)
    then show ?thesis using Some by (auto simp: eq freeze_of_def tasks_of_def)
  qed
  then show "ptq_inv (thaw_peer p s)" "freeze_of (thaw_peer p s) q = (if q = p then freeze_of s q div 2 else freeze_of s q)"
    "tasks_of (thaw_peer p s) q = tasks_of s q" by blast+
qed

lemma thaw_fold:
  "ptq_inv s \<Longrightarrow> distinct ps \<Longrightarrow> ptq_inv (fold thaw_peer ps s) \<and>
   freeze_of (fold thaw_peer ps s) q = (if q \<in> set ps then freeze_of s q div 2 else freeze_of s q) \<and>
   tasks_of (fold thaw_peer ps s) q = tasks_of s q"
  by (induction ps arbitrary: s) (auto simp: thaw_peer_spec)

lemma freeze_of_frozen:
  assumes "ptq_inv s"
  shows "0 \<le> freeze_of s p" "p \<in> set (frozen_peers s) \<longleftrightarrow> 0 < freeze_of s p"
  using ptq_invD(3,4) [OF assms, of p] tracker_invD(6)
  by (auto simp: freeze_of_def is_frozen_def split: option.split)

lemma thaw_round_spec:
  assumes "ptq_inv s"
  shows "ptq_inv (thaw_round s)" "freeze_of (thaw_round s) q = freeze_of s q div 2" "tasks_of (thaw_round s) q = tasks_of s q"
proof -
  note F = thaw_fold [OF assms ptq_invD(2) [OF assms]]
  show "ptq_inv (thaw_round s)" "tasks_of (thaw_round s) q = tasks_of s q" using F by (simp_all add: thaw_round_def)
  have "q \<notin> set (frozen_peers s) \<Longrightarrow> freeze_of s q = 0" using freeze_of_frozen [OF assms, of q] by simp
  then show "freeze_of (thaw_round s) q = freeze_of s q div 2" using F [of q] by (auto simp: thaw_round_def)
qed

lemma thaw_rounds:
  "ptq_inv s \<Longrightarrow> ptq_inv ((thaw_round ^^ k) s) \<and> freeze_of ((thaw_round ^^ k) s) q = freeze_of s q div 2 ^ k \<and>
   tasks_of ((thaw_round ^^ k) s) q = tasks_of s q"
  by (induction k) (simp_all add: thaw_round_spec zdiv_zmult2_eq [symmetric] mult.commute)

lemma full_thaw_peer_inv: "ptq_inv s \<Longrightarrow> ptq_inv (full_thaw_peer p s)"
proof (cases "map_of (peer_queue s) p")
  case (Some t)
  assume inv: "ptq_inv s"
  then show ?thesis using Some ptq_invD(2) [OF inv] ptq_invD(3) [OF inv Some]
    by (auto simp: full_thaw_peer_def PeerTracker_full_thaw_def is_frozen_def distinct_removeAll
        intro!: ptq_inv_requeue tracker_inv_freeze_val split: if_splits)
qed (simp add: full_thaw_peer_def)

lemma full_thaw_inv: "ptq_inv s \<Longrightarrow> ptq_inv (PeerTaskQueue_full_thaw s)"
proof -
  have "ptq_inv s \<Longrightarrow> ptq_inv (fold full_thaw_peer ps s)" for ps
    by (induction ps arbitrary: s) (simp_all add: full_thaw_peer_inv)
  then show "ptq_inv s \<Longrightarrow> ptq_inv (PeerTaskQueue_full_thaw s)" by (simp add: PeerTaskQueue_full_thaw_def)
qed

section \<open>Operation sequences\<close>

datatype ('t, 'd, 'peer) ptq_op =
    PtqAddHook
  | PtqPush nat 'peer "('t, 'd) Task list"
  | PtqPop "('peer, ('t, 'd, 'peer) PeerTracker) hmap \<Rightarrow> 'peer option" "('t, ('t, 'd, 'peer) QueueTask) hmap \<Rightarrow> 't option" nat
  | PtqDone 'peer "('t, 'd) Task list"
  | PtqRemove 't 'peer
  | PtqFullThaw
  | PtqThawRound

fun ptq_step :: "('t, 'd) TaskMerger \<Rightarrow> ('t, 'd, 'peer) ptq_op \<Rightarrow> ('t, 'd, 'peer) Inner \<Rightarrow> ('t, 'd, 'peer) Inner checked" where
  "ptq_step tm PtqAddHook s = Inr (add_hook s)"
| "ptq_step tm (PtqPush now p ts) s = Inr (snd (PeerTaskQueue_push_tasks tm now p ts s))"
| "ptq_step tm (PtqPop peek_peer peek n) s = rbind (PeerTaskQueue_pop_tasks peek_peer peek n s) (\<lambda>(r, es, s'). Inr s')"
| "ptq_step tm (PtqDone p ts) s = tasks_done p ts s"
| "ptq_step tm (PtqRemove k p) s = Inr (PeerTaskQueue_remove k p s)"
| "ptq_step tm PtqFullThaw s = Inr (PeerTaskQueue_full_thaw s)"
| "ptq_step tm PtqThawRound s = Inr (thaw_round s)"

fun ptq_run :: "('t, 'd) TaskMerger \<Rightarrow> ('t, 'd, 'peer) ptq_op list \<Rightarrow> ('t, 'd, 'peer) Inner \<Rightarrow> ('t, 'd, 'peer) Inner checked" where
  "ptq_run tm [] s = Inr s"
| "ptq_run tm (x # xs) s = rbind (ptq_step tm x s) (ptq_run tm xs)"

context task_merger
begin

lemma ptq_step_inv:
  assumes inv: "ptq_inv s"
  shows "case ptq_step tm x s of Inl e \<Rightarrow> e = Overflow | Inr s' \<Rightarrow> ptq_inv s'"
proof (cases x)
  case (PtqPop pp pt n)
  then show ?thesis using ptq_inv_pop [OF inv, of pp pt n]
    by (auto simp: rbind_def split: sum.splits prod.splits)
next
  case (PtqDone p ts)
  then show ?thesis using tasks_done_ok [OF inv, of p ts] by auto
next
  case PtqAddHook
  then show ?thesis using inv by (simp add: add_hook_def ptq_inv_def)
qed (simp_all add: ptq_inv_push ptq_inv_remove full_thaw_inv thaw_round_spec inv)

lemma ptq_run_inv: "ptq_inv s \<Longrightarrow> case ptq_run tm xs s of Inl e \<Rightarrow> e = Overflow | Inr s' \<Rightarrow> ptq_inv s'"
proof (induction xs arbitrary: s)
  case (Cons x xs)
  then show ?case using ptq_step_inv [OF Cons.prems, of x] by (cases "ptq_step tm x s") simp_all
qed simp

end

lemma ptq_inv_new: "ptq_inv (PeerTaskQueue_new i n)"
  by (simp add: ptq_inv_def PeerTaskQueue_new_def)

section \<open>Properties\<close>

text \<open>C8: No sequence of operations on the server's task queue fails an assertion, in particular not that
  more work finished than was started; it ends in a state where every tracker's active work is the
  sum of its active tasks and the frozen set holds exactly the tracked peers with a positive freeze
  value. The only panic is the overflow of a 64-bit sum of work.\<close>

theorem task_queue_safe:
  "case ptq_run ServerTaskMerger xs (PeerTaskQueue_new ignore max_work) of
     Inl e \<Rightarrow> e = Overflow
   | Inr s \<Rightarrow> ptq_inv s"
  by (rule server_merger.ptq_run_inv [OF ptq_inv_new])

text \<open>C29: Thawing makes progress: every round halves the freeze value of each peer, rounding down, so that it is divided by
  \<open>2 ^ k\<close> after \<open>k\<close> rounds; the peers listed as frozen are then exactly those whose freeze value is still positive, and a
  peer with a freeze value below \<open>2 ^ k\<close> is neither frozen nor listed. No task of any peer is lost.\<close>

theorem thaw_rounds_unfreeze:
  assumes "ptq_inv s" "freeze_of s p < 2 ^ k"
  shows "freeze_of ((thaw_round ^^ k) s) q = freeze_of s q div 2 ^ k \<and>
    (q \<in> set (frozen_peers ((thaw_round ^^ k) s)) \<longleftrightarrow> 0 < freeze_of s q div 2 ^ k) \<and>
    tasks_of ((thaw_round ^^ k) s) q = tasks_of s q \<and>
    freeze_of ((thaw_round ^^ k) s) p = 0 \<and> p \<notin> set (frozen_peers ((thaw_round ^^ k) s))"
proof -
  note r = thaw_rounds [OF assms(1), of k]
  have p: "freeze_of ((thaw_round ^^ k) s) p = 0" using r [of p] freeze_of_frozen(1) [OF assms(1), of p] assms(2) by simp
  then show ?thesis using r [of p] r [of q] freeze_of_frozen(2) [of "(thaw_round ^^ k) s"] by simp
qed

theorem thaw_rounds_unfreeze_witness:
  "let s = PeerTaskQueue_remove 4 9 (PeerTaskQueue_remove 3 9 (snd (PeerTaskQueue_push_tasks DefaultTaskMerger 0 9
         [\<lparr>topic = 3, priority = 1, work = 4, data = ()\<rparr>, \<lparr>topic = 4, priority = 1, work = 4, data = ()\<rparr>,
          \<lparr>topic = 5, priority = 1, work = 4, data = ()\<rparr>] (PeerTaskQueue_new False 0)))) :: (nat, unit, nat) Inner
   in freeze_of s 9 = 2 \<and> frozen_peers s = [9] \<and> freeze_of ((thaw_round ^^ 1) s) 9 = 1 \<and>
      9 \<in> set (frozen_peers ((thaw_round ^^ 1) s)) \<and> freeze_of ((thaw_round ^^ 2) s) 9 = 0 \<and>
      9 \<notin> set (frozen_peers ((thaw_round ^^ 2) s)) \<and> tasks_of ((thaw_round ^^ 2) s) 9 = tasks_of s 9"
proof -
  let ?s = "PeerTaskQueue_remove 4 9 (PeerTaskQueue_remove 3 9 (snd (PeerTaskQueue_push_tasks DefaultTaskMerger 0 9
         [\<lparr>topic = 3, priority = 1, work = 4, data = ()\<rparr>, \<lparr>topic = 4, priority = 1, work = 4, data = ()\<rparr>,
          \<lparr>topic = 5, priority = 1, work = 4, data = ()\<rparr>] (PeerTaskQueue_new False 0)))) :: (nat, unit, nat) Inner"
  note defs = PeerTaskQueue_remove_def PeerTaskQueue_push_tasks_def PeerTaskQueue_new_def PeerTracker_push_tasks_def
    PeerTracker_push_task_def PeerTracker_new_def task_has_more_info_than_active_tasks_def PeerTracker_remove_def
    requeue_def freeze_def is_frozen_def QueueTask_new_def
  have inv: "ptq_inv ?s" by (intro ptq_inv_remove default_merger.ptq_inv_push ptq_inv_new)
  have f: "freeze_of ?s 9 = 2" "freeze_of ?s 8 = 0" "frozen_peers ?s = [9]" by (simp_all add: freeze_of_def defs)
  have "freeze_of ?s 9 < 2 ^ 2" "freeze_of ?s 8 < 2 ^ 1" by (simp_all add: f)
  note t = thaw_rounds_unfreeze [OF inv this(1), of 9] thaw_rounds_unfreeze [OF inv this(2), of 9]
  show ?thesis unfolding Let_def using t f by simp
qed

end
