(* ===== verification/Bitswap_Message.thy ===== *)
theory Bitswap_Message
  imports Wantlist Session_Interest "HOL-Library.Word"
begin

text \<open>
  Bitswap messages (\<open>message.rs\<close>) with the cid prefixes of sent blocks (\<open>prefix.rs\<close>): the operations
  that fill a message, its protobuf encodings v0 and v1, and the decoding of a received message.

  The crates for cids, multihashes and varints are a record of the functions the code calls,
  \<open>cid_api\<close>; what they document of them is \<open>cid_laws\<close>. The protobuf structures are those of the
  generated \<open>pb/bitswap_pb.rs\<close>; its byte format is left to the protobuf crate, of which the sizes of
  lengths and varints are parameters.
\<close>

section \<open>Cids and prefixes\<close>

datatype Version = V0 | V1

record ('cid, 'mh, 'code, 'b) cid_api =
  cid_to_bytes :: "'cid \<Rightarrow> 'b list"
  cid_try_from :: "'b list \<Rightarrow> 'cid option"
  cid_version :: "'cid \<Rightarrow> Version"
  cid_codec :: "'cid \<Rightarrow> 64 word"
  cid_hash :: "'cid \<Rightarrow> 'mh"
  cid_new :: "Version \<Rightarrow> 64 word \<Rightarrow> 'mh \<Rightarrow> 'cid option"
  mh_code :: "'mh \<Rightarrow> 64 word"
  mh_digest_len :: "'mh \<Rightarrow> 64 word"
  code_try_from :: "64 word \<Rightarrow> 'code option"
  code_into :: "'code \<Rightarrow> 64 word"
  sha2_256 :: 'code
  code_digest :: "'code \<Rightarrow> 'b list \<Rightarrow> 'mh"
  version_try_from :: "64 word \<Rightarrow> Version option"
  version_into :: "Version \<Rightarrow> 64 word"
  varint_encode :: "64 word \<Rightarrow> 'b list"
  varint_decode :: "'b list \<Rightarrow> (64 word \<times> 'b list) option"

definition cid_laws :: "('cid, 'mh, 'code, 'b) cid_api \<Rightarrow> bool" where
  "cid_laws api \<longleftrightarrow>
     (\<forall>c. cid_try_from api (cid_to_bytes api c) = Some c) \<and>
     (\<forall>c. cid_new api (cid_version api c) (cid_codec api c) (cid_hash api c) = Some c) \<and>
     (\<forall>x. code_try_from api (code_into api x) = Some x) \<and>
     (\<forall>v. version_try_from api (version_into api v) = Some v) \<and>
     (\<forall>n rest. varint_decode api (varint_encode api n @ rest) = Some (n, rest))"

datatype Error = ErrorCid | ErrorMultihash

type_synonym 'a result = "Error + 'a"

definition from_option :: "Error \<Rightarrow> 'a option \<Rightarrow> 'a result" where
  "from_option e x = (case x of None \<Rightarrow> Inl e | Some y \<Rightarrow> Inr y)"

record 'code Prefix =
  px_version :: Version
  px_codec :: "64 word"
  px_mh_type :: 'code
  px_mh_len :: "64 word"

definition Prefix_new :: "('cid, 'mh, 'code, 'b) cid_api \<Rightarrow> 'b list \<Rightarrow> 'code Prefix result" where
  "Prefix_new api bytes =
     rbind (from_option ErrorCid (varint_decode api bytes)) (\<lambda>(raw_version, remain).
     rbind (from_option ErrorCid (version_try_from api raw_version)) (\<lambda>version.
     rbind (from_option ErrorCid (varint_decode api remain)) (\<lambda>(codec, remain).
     rbind (from_option ErrorCid (varint_decode api remain)) (\<lambda>(mh_type, remain).
     rbind (from_option ErrorCid (varint_decode api remain)) (\<lambda>(mh_len, remain).
     rbind (from_option ErrorMultihash (code_try_from api mh_type)) (\<lambda>code.
       Inr \<lparr>px_version = version, px_codec = codec, px_mh_type = code, px_mh_len = mh_len\<rparr>))))))"

definition Prefix_to_bytes :: "('cid, 'mh, 'code, 'b) cid_api \<Rightarrow> 'code Prefix \<Rightarrow> 'b list" where
  "Prefix_to_bytes api p =
     varint_encode api (version_into api (px_version p)) @ varint_encode api (px_codec p) @
     varint_encode api (code_into api (px_mh_type p)) @ varint_encode api (px_mh_len p)"

definition Prefix_to_cid :: "('cid, 'mh, 'code, 'b) cid_api \<Rightarrow> 'code Prefix \<Rightarrow> 'b list \<Rightarrow> 'cid result" where
  "Prefix_to_cid api p bytes =
     from_option ErrorCid (cid_new api (px_version p) (px_codec p) (code_digest api (px_mh_type p) bytes))"

definition Prefix_from :: "('cid, 'mh, 'code, 'b) cid_api \<Rightarrow> 'cid \<Rightarrow> 'code Prefix checked" where
  "Prefix_from api cid =
     (case code_try_from api (mh_code api (cid_hash api cid)) of
        Some code \<Rightarrow> Inr \<lparr>px_version = cid_version api cid, px_codec = cid_codec api cid, px_mh_type = code,
                        px_mh_len = mh_digest_len api (cid_hash api cid)\<rparr>
      | None \<Rightarrow> Inl ExpectFailed)"

definition verify_hash :: "('cid, 'mh, 'code, 'b) cid_api \<Rightarrow> 'cid \<Rightarrow> 'b list \<Rightarrow> bool option" where
  "verify_hash api cid bytes =
     map_option (\<lambda>code. code_digest api code bytes = cid_hash api cid)
       (code_try_from api (mh_code api (cid_hash api cid)))"

definition Block_from_v0_data ::
  "('cid, 'mh, 'code, 'b) cid_api \<Rightarrow> ('mh \<Rightarrow> 'cid option) \<Rightarrow> 'b list \<Rightarrow> ('cid, 'b list) Block result" where
  "Block_from_v0_data api cid_new_v0 bytes =
     rbind (from_option ErrorCid (cid_new_v0 (code_digest api (sha2_256 api) bytes))) (\<lambda>cid.
       Inr \<lparr>b_cid = cid, b_data = bytes\<rparr>)"

section \<open>Messages\<close>

datatype BlockPresenceType = Have | DontHave

record 'cid MEntry =
  me_cid :: 'cid
  me_priority :: int
  me_want_type :: WantType
  me_cancel :: bool
  me_send_dont_have :: bool

record ('cid, 'b) BitswapMessage =
  full :: bool
  wantlist :: "('cid, 'cid MEntry) hmap"
  blocks :: "('cid, ('cid, 'b list) Block) hmap"
  block_presences :: "('cid, BlockPresenceType) hmap"
  pending_bytes :: int

definition BitswapMessage_new :: "bool \<Rightarrow> ('cid, 'b) BitswapMessage" where
  "BitswapMessage_new f = \<lparr>full = f, wantlist = [], blocks = [], block_presences = [], pending_bytes = 0\<rparr>"

definition BitswapMessage_clear :: "bool \<Rightarrow> ('cid, 'b) BitswapMessage \<Rightarrow> ('cid, 'b) BitswapMessage" where
  "BitswapMessage_clear f m =
     m\<lparr>full := f, wantlist := [], blocks := [], block_presences := [], pending_bytes := 0\<rparr>"

definition verify_blocks ::
  "('cid, 'mh, 'code, 'b) cid_api \<Rightarrow> ('cid, 'b) BitswapMessage \<Rightarrow> ('cid, 'b) BitswapMessage" where
  "verify_blocks api m =
     m\<lparr>blocks := filter (\<lambda>(c, block).
         case verify_hash api (b_cid block) (b_data block) of
           Some True \<Rightarrow> True | Some False \<Rightarrow> False | None \<Rightarrow> False) (blocks m)\<rparr>"

definition BitswapMessage_is_empty :: "('cid, 'b) BitswapMessage \<Rightarrow> bool" where
  "BitswapMessage_is_empty m \<longleftrightarrow> blocks m = [] \<and> wantlist m = [] \<and> block_presences m = []"

definition get_block_presence_by_type :: "BlockPresenceType \<Rightarrow> ('cid, 'b) BitswapMessage \<Rightarrow> 'cid list" where
  "get_block_presence_by_type typ m = map fst (filter (\<lambda>(c, t). t = typ) (block_presences m))"

definition set_pending_bytes :: "int \<Rightarrow> ('cid, 'b) BitswapMessage \<Rightarrow> ('cid, 'b) BitswapMessage" where
  "set_pending_bytes n m = m\<lparr>pending_bytes := n\<rparr>"

definition BitswapMessage_remove :: "'cid \<Rightarrow> ('cid, 'b) BitswapMessage \<Rightarrow> ('cid, 'b) BitswapMessage" where
  "BitswapMessage_remove c m = m\<lparr>wantlist := AList.delete c (wantlist m)\<rparr>"

text \<open>How a second entry for the same cid changes the first.\<close>

definition merge_entry :: "int \<Rightarrow> bool \<Rightarrow> WantType \<Rightarrow> bool \<Rightarrow> 'cid MEntry \<Rightarrow> 'cid MEntry" where
  "merge_entry prio cancel want_type send_dont_have e0 =
     (let e1 = (if me_want_type e0 = want_type then e0\<lparr>me_priority := prio\<rparr> else e0);
          e2 = (if cancel then e1\<lparr>me_cancel := cancel\<rparr> else e1);
          e3 = (if send_dont_have then e2\<lparr>me_send_dont_have := send_dont_have\<rparr> else e2)
      in if want_type = WantType_Block \<and> me_want_type e3 = WantType_Have
         then e3\<lparr>me_want_type := want_type\<rparr> else e3)"

definition add_full_entry ::
  "('cid MEntry \<Rightarrow> nat) \<Rightarrow> 'cid \<Rightarrow> int \<Rightarrow> bool \<Rightarrow> WantType \<Rightarrow> bool \<Rightarrow> ('cid, 'b) BitswapMessage \<Rightarrow>
   nat \<times> ('cid, 'b) BitswapMessage" where
  "add_full_entry encoded_len cid prio cancel want_type send_dont_have m =
     (case map_of (wantlist m) cid of
        Some e \<Rightarrow> (0, m\<lparr>wantlist := AList.update cid (merge_entry prio cancel want_type send_dont_have e) (wantlist m)\<rparr>)
      | None \<Rightarrow>
          (let e = \<lparr>me_cid = cid, me_priority = prio, me_want_type = want_type, me_cancel = cancel,
                    me_send_dont_have = send_dont_have\<rparr>
           in (encoded_len e, m\<lparr>wantlist := AList.update cid e (wantlist m)\<rparr>)))"

definition BitswapMessage_cancel where
  "BitswapMessage_cancel encoded_len cid m = add_full_entry encoded_len cid 0 True WantType_Block False m"

definition add_entry where
  "add_entry encoded_len cid prio want_type send_dont_have m =
     add_full_entry encoded_len cid prio False want_type send_dont_have m"

definition add_block :: "('cid, 'b list) Block \<Rightarrow> ('cid, 'b) BitswapMessage \<Rightarrow> ('cid, 'b) BitswapMessage" where
  "add_block block m =
     m\<lparr>block_presences := AList.delete (b_cid block) (block_presences m),
       blocks := AList.update (b_cid block) block (blocks m)\<rparr>"

definition add_block_presence ::
  "'cid \<Rightarrow> BlockPresenceType \<Rightarrow> ('cid, 'b) BitswapMessage \<Rightarrow> ('cid, 'b) BitswapMessage" where
  "add_block_presence cid typ m =
     (if map_of (blocks m) cid \<noteq> None then m
      else m\<lparr>block_presences := AList.update cid typ (block_presences m)\<rparr>)"

section \<open>Protobuf structures\<close>

datatype pb_WantType = PbBlock | PbHave

datatype pb_BlockPresenceType = PbPresenceHave | PbPresenceDontHave

record 'b pb_Entry =
  pe_block :: "'b list"
  pe_priority :: int
  pe_cancel :: bool
  pe_want_type :: pb_WantType
  pe_send_dont_have :: bool

record 'b pb_Wantlist =
  pw_entries :: "'b pb_Entry list"
  pw_full :: bool

record 'b pb_Block =
  pbk_prefix :: "'b list"
  pbk_data :: "'b list"

record 'b pb_BlockPresence =
  pbp_cid :: "'b list"
  pbp_type :: pb_BlockPresenceType

record 'b pb_Message =
  pm_wantlist :: "'b pb_Wantlist option"
  pm_blocks :: "'b list list"
  pm_payload :: "'b pb_Block list"
  pm_block_presences :: "'b pb_BlockPresence list"
  pm_pending_bytes :: int

definition pb_Message_default :: "'b pb_Message" where
  "pb_Message_default =
     \<lparr>pm_wantlist = None, pm_blocks = [], pm_payload = [], pm_block_presences = [], pm_pending_bytes = 0\<rparr>"

fun WantType_to_pb :: "WantType \<Rightarrow> pb_WantType" where
  "WantType_to_pb WantType_Block = PbBlock"
| "WantType_to_pb WantType_Have = PbHave"

fun WantType_from_pb :: "pb_WantType \<Rightarrow> WantType" where
  "WantType_from_pb PbBlock = WantType_Block"
| "WantType_from_pb PbHave = WantType_Have"

fun BlockPresenceType_to_pb :: "BlockPresenceType \<Rightarrow> pb_BlockPresenceType" where
  "BlockPresenceType_to_pb Have = PbPresenceHave"
| "BlockPresenceType_to_pb DontHave = PbPresenceDontHave"

fun BlockPresenceType_from_pb :: "pb_BlockPresenceType \<Rightarrow> BlockPresenceType" where
  "BlockPresenceType_from_pb PbPresenceHave = Have"
| "BlockPresenceType_from_pb PbPresenceDontHave = DontHave"

definition Entry_to_pb :: "('cid, 'mh, 'code, 'b) cid_api \<Rightarrow> 'cid MEntry \<Rightarrow> 'b pb_Entry" where
  "Entry_to_pb api e =
     \<lparr>pe_block = cid_to_bytes api (me_cid e), pe_priority = me_priority e, pe_cancel = me_cancel e,
      pe_want_type = WantType_to_pb (me_want_type e), pe_send_dont_have = me_send_dont_have e\<rparr>"

text \<open>The sizes computed by the generated code; \<open>as_u64\<close> is the cast of an \<open>i32\<close>.\<close>

definition pb_Entry_get_size :: "(nat \<Rightarrow> nat) \<Rightarrow> (64 word \<Rightarrow> nat) \<Rightarrow> 'b pb_Entry \<Rightarrow> nat" where
  "pb_Entry_get_size sizeof_len sizeof_varint e =
     (if pe_block e = [] then 0 else 1 + sizeof_len (length (pe_block e))) +
     (if pe_priority e = 0 then 0 else 1 + sizeof_varint (word_of_int (pe_priority e))) +
     (if \<not> pe_cancel e then 0 else 1 + sizeof_varint 1) +
     (if pe_want_type e = PbBlock then 0 else 1 + sizeof_varint 1) +
     (if \<not> pe_send_dont_have e then 0 else 1 + sizeof_varint 1)"

definition pb_BlockPresence_get_size :: "(nat \<Rightarrow> nat) \<Rightarrow> (64 word \<Rightarrow> nat) \<Rightarrow> 'b pb_BlockPresence \<Rightarrow> nat" where
  "pb_BlockPresence_get_size sizeof_len sizeof_varint p =
     (if pbp_cid p = [] then 0 else 1 + sizeof_len (length (pbp_cid p))) +
     (if pbp_type p = PbPresenceHave then 0 else 1 + sizeof_varint 1)"

definition Entry_encoded_len ::
  "('cid, 'mh, 'code, 'b) cid_api \<Rightarrow> (nat \<Rightarrow> nat) \<Rightarrow> (64 word \<Rightarrow> nat) \<Rightarrow> 'cid MEntry \<Rightarrow> nat" where
  "Entry_encoded_len api sizeof_len sizeof_varint e = pb_Entry_get_size sizeof_len sizeof_varint (Entry_to_pb api e)"

definition BlockPresence_encoded_len ::
  "('cid, 'mh, 'code, 'b) cid_api \<Rightarrow> (nat \<Rightarrow> nat) \<Rightarrow> (64 word \<Rightarrow> nat) \<Rightarrow> 'cid \<times> BlockPresenceType \<Rightarrow> nat" where
  "BlockPresence_encoded_len api sizeof_len sizeof_varint = (\<lambda>(c, typ).
     pb_BlockPresence_get_size sizeof_len sizeof_varint
       \<lparr>pbp_cid = cid_to_bytes api c, pbp_type = BlockPresenceType_to_pb typ\<rparr>)"

definition BitswapMessage_encoded_len ::
  "('cid, 'mh, 'code, 'b) cid_api \<Rightarrow> (nat \<Rightarrow> nat) \<Rightarrow> (64 word \<Rightarrow> nat) \<Rightarrow> ('cid, 'b) BitswapMessage \<Rightarrow> nat" where
  "BitswapMessage_encoded_len api sizeof_len sizeof_varint m =
     sum_list (map (\<lambda>(c, b). length (b_data b)) (blocks m)) +
     sum_list (map (BlockPresence_encoded_len api sizeof_len sizeof_varint) (block_presences m)) +
     sum_list (map (\<lambda>(c, e). Entry_encoded_len api sizeof_len sizeof_varint e) (wantlist m))"

section \<open>Encoding and decoding\<close>

definition encode_wantlist :: "('cid, 'mh, 'code, 'b) cid_api \<Rightarrow> ('cid, 'b) BitswapMessage \<Rightarrow> 'b pb_Wantlist" where
  "encode_wantlist api m = \<lparr>pw_entries = map (Entry_to_pb api) (hvalues (wantlist m)), pw_full = full m\<rparr>"

definition encode_as_proto_v0 :: "('cid, 'mh, 'code, 'b) cid_api \<Rightarrow> ('cid, 'b) BitswapMessage \<Rightarrow> 'b pb_Message" where
  "encode_as_proto_v0 api m =
     pb_Message_default\<lparr>pm_wantlist := Some (encode_wantlist api m), pm_blocks := map b_data (hvalues (blocks m))\<rparr>"

fun encode_payload :: "('cid, 'mh, 'code, 'b) cid_api \<Rightarrow> ('cid, 'b list) Block list \<Rightarrow> 'b pb_Block list checked" where
  "encode_payload api [] = Inr []"
| "encode_payload api (b # bs) =
     rbind (Prefix_from api (b_cid b)) (\<lambda>p.
     rbind (encode_payload api bs) (\<lambda>ps.
       Inr (\<lparr>pbk_prefix = Prefix_to_bytes api p, pbk_data = b_data b\<rparr> # ps)))"

definition encode_as_proto_v1 ::
  "('cid, 'mh, 'code, 'b) cid_api \<Rightarrow> ('cid, 'b) BitswapMessage \<Rightarrow> 'b pb_Message checked" where
  "encode_as_proto_v1 api m =
     rbind (encode_payload api (hvalues (blocks m))) (\<lambda>payload.
       Inr (pb_Message_default
         \<lparr>pm_wantlist := Some (encode_wantlist api m), pm_payload := payload,
          pm_block_presences := map (\<lambda>(c, typ). \<lparr>pbp_cid = cid_to_bytes api c, pbp_type = BlockPresenceType_to_pb typ\<rparr>)
            (block_presences m),
          pm_pending_bytes := pending_bytes m\<rparr>))"

fun decode_entries ::
  "('cid, 'mh, 'code, 'b) cid_api \<Rightarrow> ('cid MEntry \<Rightarrow> nat) \<Rightarrow> 'b pb_Entry list \<Rightarrow> ('cid, 'b) BitswapMessage \<Rightarrow>
   ('cid, 'b) BitswapMessage result" where
  "decode_entries api len [] m = Inr m"
| "decode_entries api len (e # es) m =
     rbind (from_option ErrorCid (cid_try_from api (pe_block e))) (\<lambda>cid.
       decode_entries api len es
         (snd (add_full_entry len cid (pe_priority e) (pe_cancel e) (WantType_from_pb (pe_want_type e))
            (pe_send_dont_have e) m)))"

fun decode_blocks ::
  "('cid, 'mh, 'code, 'b) cid_api \<Rightarrow> ('mh \<Rightarrow> 'cid option) \<Rightarrow> 'b list list \<Rightarrow> ('cid, 'b) BitswapMessage \<Rightarrow>
   ('cid, 'b) BitswapMessage result" where
  "decode_blocks api cid_new_v0 [] m = Inr m"
| "decode_blocks api cid_new_v0 (d # ds) m =
     rbind (Block_from_v0_data api cid_new_v0 d) (\<lambda>block. decode_blocks api cid_new_v0 ds (add_block block m))"

fun decode_payload ::
  "('cid, 'mh, 'code, 'b) cid_api \<Rightarrow> 'b pb_Block list \<Rightarrow> ('cid, 'b) BitswapMessage \<Rightarrow> ('cid, 'b) BitswapMessage result" where
  "decode_payload api [] m = Inr m"
| "decode_payload api (b # bs) m =
     rbind (Prefix_new api (pbk_prefix b)) (\<lambda>prefix.
     rbind (Prefix_to_cid api prefix (pbk_data b)) (\<lambda>cid.
       decode_payload api bs (add_block \<lparr>b_cid = cid, b_data = pbk_data b\<rparr> m)))"

fun decode_presences ::
  "('cid, 'mh, 'code, 'b) cid_api \<Rightarrow> 'b pb_BlockPresence list \<Rightarrow> ('cid, 'b) BitswapMessage \<Rightarrow>
   ('cid, 'b) BitswapMessage result" where
  "decode_presences api [] m = Inr m"
| "decode_presences api (p # ps) m =
     rbind (from_option ErrorCid (cid_try_from api (pbp_cid p))) (\<lambda>cid.
       decode_presences api ps (add_block_presence cid (BlockPresenceType_from_pb (pbp_type p)) m))"

definition BitswapMessage_try_from ::
  "('cid, 'mh, 'code, 'b) cid_api \<Rightarrow> ('cid MEntry \<Rightarrow> nat) \<Rightarrow> ('mh \<Rightarrow> 'cid option) \<Rightarrow> 'b pb_Message \<Rightarrow>
   ('cid, 'b) BitswapMessage result" where
  "BitswapMessage_try_from api len cid_new_v0 pbm =
     (let m0 = BitswapMessage_new (case pm_wantlist pbm of Some w \<Rightarrow> pw_full w | None \<Rightarrow> False)
      in rbind (case pm_wantlist pbm of Some w \<Rightarrow> decode_entries api len (pw_entries w) m0 | None \<Rightarrow> Inr m0) (\<lambda>m1.
         rbind (decode_blocks api cid_new_v0 (pm_blocks pbm) m1) (\<lambda>m2.
         rbind (decode_payload api (pm_payload pbm) m2) (\<lambda>m3.
         rbind (decode_presences api (pm_block_presences pbm) m3) (\<lambda>m4.
           Inr (m4\<lparr>pending_bytes := pm_pending_bytes pbm\<rparr>))))))"

section \<open>Well-formed messages\<close>

definition msg_inv :: "('cid, 'b) BitswapMessage \<Rightarrow> bool" where
  "msg_inv m \<longleftrightarrow> hmap_ok (wantlist m) \<and> hmap_ok (blocks m) \<and> hmap_ok (block_presences m) \<and>
     (\<forall>c e. map_of (wantlist m) c = Some e \<longrightarrow> me_cid e = c) \<and>
     (\<forall>c b. map_of (blocks m) c = Some b \<longrightarrow> b_cid b = c) \<and>
     dom (map_of (blocks m)) \<inter> dom (map_of (block_presences m)) = {}"

lemma merge_entry_cid [simp]: "me_cid (merge_entry p x t d e) = me_cid e"
  by (simp add: merge_entry_def Let_def)

lemma msg_inv_new: "msg_inv (BitswapMessage_new f)"
  by (simp add: msg_inv_def BitswapMessage_new_def)

lemma msg_inv_add_full_entry: "msg_inv m \<Longrightarrow> msg_inv (snd (add_full_entry len c p x t d m))"
  by (auto simp: msg_inv_def add_full_entry_def Let_def split: option.split)

lemma msg_inv_add_block: "msg_inv m \<Longrightarrow> msg_inv (add_block b m)"
  by (auto simp: msg_inv_def add_block_def)

lemma msg_inv_add_block_presence: "msg_inv m \<Longrightarrow> msg_inv (add_block_presence c t m)"
  by (auto simp: msg_inv_def add_block_presence_def)

lemma hmap_ok_filter: "hmap_ok m \<Longrightarrow> hmap_ok (filter P m)"
  by (simp add: hmap_ok_def distinct_map_filter)

lemma map_of_filter_SomeD: "hmap_ok m \<Longrightarrow> map_of (filter P m) k = Some v \<Longrightarrow> map_of m k = Some v \<and> P (k, v)"
  by (auto simp: hmap_in_set_iff [symmetric] hmap_ok_filter)

lemma msg_inv_verify: "msg_inv m \<Longrightarrow> msg_inv (verify_blocks api m)"
proof -
  assume inv: "msg_inv m"
  then have f: "map_of (blocks (verify_blocks api m)) c = Some b \<Longrightarrow> map_of (blocks m) c = Some b" for c b
    using map_of_filter_SomeD [of "blocks m"] by (auto simp: msg_inv_def verify_blocks_def)
  then have d: "dom (map_of (blocks (verify_blocks api m))) \<subseteq> dom (map_of (blocks m))" by blast
  have frame: "wantlist (verify_blocks api m) = wantlist m" "block_presences (verify_blocks api m) = block_presences m"
    by (simp_all add: verify_blocks_def)
  have ok: "hmap_ok (blocks (verify_blocks api m))" using inv by (simp add: msg_inv_def verify_blocks_def hmap_ok_filter)
  from inv show "msg_inv (verify_blocks api m)"
    unfolding msg_inv_def frame using f d ok by (intro conjI) (elim conjE, (assumption | blast))+
qed

section \<open>Round trips\<close>

lemma cid_lawsD:
  assumes "cid_laws api"
  shows "cid_try_from api (cid_to_bytes api c) = Some c"
    "cid_new api (cid_version api c) (cid_codec api c) (cid_hash api c) = Some c"
    "code_try_from api (code_into api x) = Some x" "version_try_from api (version_into api v) = Some v"
    "varint_decode api (varint_encode api n @ rest) = Some (n, rest)" "varint_decode api (varint_encode api n) = Some (n, [])"
proof -
  show "varint_decode api (varint_encode api n @ rest) = Some (n, rest)" for rest
    using assms by (simp add: cid_laws_def)
  from this [of "[]"] show "varint_decode api (varint_encode api n) = Some (n, [])" by simp
qed (use assms in \<open>simp_all add: cid_laws_def\<close>)

lemma Prefix_round_trip: "cid_laws api \<Longrightarrow> Prefix_new api (Prefix_to_bytes api p) = Inr p"
  by (simp add: Prefix_new_def Prefix_to_bytes_def cid_lawsD from_option_def)

lemma verified_block:
  assumes "cid_laws api" "verify_hash api (b_cid b) (b_data b) = Some True"
  shows "\<exists>p. Prefix_from api (b_cid b) = Inr p \<and> Prefix_to_cid api p (b_data b) = Inr (b_cid b)"
  using assms by (auto simp: verify_hash_def Prefix_from_def Prefix_to_cid_def cid_lawsD from_option_def)

lemma pb_round_trip [simp]:
  "WantType_from_pb (WantType_to_pb t) = t" "BlockPresenceType_from_pb (BlockPresenceType_to_pb u) = u"
  by (cases t; simp) (cases u; simp)

lemma decode_entries_encode:
  assumes "cid_laws api"
  shows "hmap_ok (w0 @ w) \<Longrightarrow> list_all (\<lambda>(c, e). me_cid e = c) w \<Longrightarrow> wantlist m = w0 \<Longrightarrow>
    decode_entries api len (map (Entry_to_pb api) (hvalues w)) m = Inr (m\<lparr>wantlist := w0 @ w\<rparr>)"
proof (induction w arbitrary: w0 m)
  case (Cons x w)
  obtain c e where x: "x = (c, e)" by (cases x)
  have new: "map_of w0 c = None" using Cons.prems(1) x by (auto simp: hmap_ok_def map_of_eq_None_iff)
  have "me_cid e = c" using Cons.prems(2) x by simp
  then have step: "snd (add_full_entry len c (me_priority e) (me_cancel e) (me_want_type e) (me_send_dont_have e) m) =
      m\<lparr>wantlist := w0 @ [(c, e)]\<rparr>"
    using new Cons.prems(3) by (simp add: add_full_entry_def Let_def update_new_eq)
  have "hmap_ok ((w0 @ [(c, e)]) @ w)" using Cons.prems(1) x by simp
  from Cons.IH [OF this, of "m\<lparr>wantlist := w0 @ [(c, e)]\<rparr>"] show ?case
    using Cons.prems(2) x step \<open>me_cid e = c\<close> by (simp add: Entry_to_pb_def cid_lawsD [OF assms] from_option_def)
qed simp

lemma decode_payload_encode:
  assumes "cid_laws api"
  shows "hmap_ok (w0 @ w) \<Longrightarrow> list_all (\<lambda>(c, b). b_cid b = c \<and> verify_hash api c (b_data b) = Some True) w \<Longrightarrow>
    blocks m = w0 \<Longrightarrow> block_presences m = [] \<Longrightarrow>
    \<exists>ps. encode_payload api (hvalues w) = Inr ps \<and> decode_payload api ps m = Inr (m\<lparr>blocks := w0 @ w\<rparr>)"
proof (induction w arbitrary: w0 m)
  case (Cons x w)
  obtain c b where x: "x = (c, b)" by (cases x)
  have new: "map_of w0 c = None" using Cons.prems(1) x by (auto simp: hmap_ok_def map_of_eq_None_iff)
  have b: "b_cid b = c" "verify_hash api (b_cid b) (b_data b) = Some True" using Cons.prems(2) x by auto
  then have beq: "\<lparr>b_cid = c, b_data = b_data b\<rparr> = b" by simp
  obtain p where p: "Prefix_from api c = Inr p" "Prefix_to_cid api p (b_data b) = Inr c"
    using verified_block [OF assms b(2)] b(1) by auto
  have step: "add_block b m = m\<lparr>blocks := w0 @ [(c, b)]\<rparr>"
    using new Cons.prems(3,4) b(1) by (simp add: add_block_def update_new_eq)
  have "hmap_ok ((w0 @ [(c, b)]) @ w)" using Cons.prems(1) x by simp
  from Cons.IH [OF this, of "m\<lparr>blocks := w0 @ [(c, b)]\<rparr>"] Cons.prems(2,4) x obtain ps where
    "encode_payload api (hvalues w) = Inr ps" "decode_payload api ps (add_block b m) = Inr (m\<lparr>blocks := w0 @ (c, b) # w\<rparr>)"
    by (auto simp: step)
  then show ?case using x p b(1) by (simp add: Prefix_round_trip [OF assms] beq)
qed simp

lemma decode_presences_encode:
  assumes "cid_laws api"
  shows "hmap_ok (w0 @ w) \<Longrightarrow> dom (map_of (blocks m)) \<inter> fst ` set w = {} \<Longrightarrow> block_presences m = w0 \<Longrightarrow>
    decode_presences api (map (\<lambda>(c, t). \<lparr>pbp_cid = cid_to_bytes api c, pbp_type = BlockPresenceType_to_pb t\<rparr>) w) m =
      Inr (m\<lparr>block_presences := w0 @ w\<rparr>)"
proof (induction w arbitrary: w0 m)
  case (Cons x w)
  obtain c t where x: "x = (c, t)" by (cases x)
  have new: "map_of w0 c = None" using Cons.prems(1) x by (auto simp: hmap_ok_def map_of_eq_None_iff)
  have "map_of (blocks m) c = None" using Cons.prems(2) x by auto
  then have step: "add_block_presence c t m = m\<lparr>block_presences := w0 @ [(c, t)]\<rparr>"
    using new Cons.prems(3) by (simp add: add_block_presence_def update_new_eq)
  have "hmap_ok ((w0 @ [(c, t)]) @ w)" using Cons.prems(1) x by simp
  from Cons.IH [OF this, of "m\<lparr>block_presences := w0 @ [(c, t)]\<rparr>"] show ?case
    using Cons.prems(2) x step by (simp add: cid_lawsD [OF assms] from_option_def)
qed simp

lemma encode_decode:
  assumes laws: "cid_laws api" and inv: "msg_inv m"
    and ok: "list_all (\<lambda>(c, b). b_cid b = c \<and> verify_hash api c (b_data b) = Some True) (blocks m)"
  shows "\<exists>pb. encode_as_proto_v1 api m = Inr pb \<and> BitswapMessage_try_from api len v0 pb = Inr m"
proof -
  have w: "list_all (\<lambda>(c, e). me_cid e = c) (wantlist m)"
    using inv by (auto simp: msg_inv_def list_all_iff hmap_in_set_iff)
  define m1 :: "('a, 'd) BitswapMessage" where "m1 = (BitswapMessage_new (full m))\<lparr>wantlist := wantlist m\<rparr>"
  have 1: "decode_entries api len (map (Entry_to_pb api) (hvalues (wantlist m))) (BitswapMessage_new (full m)) = Inr m1"
    using decode_entries_encode [OF laws, of "[]" "wantlist m" "BitswapMessage_new (full m)" len] inv w
    by (simp add: m1_def msg_inv_def BitswapMessage_new_def)
  obtain ps where ps: "encode_payload api (hvalues (blocks m)) = Inr ps"
      "decode_payload api ps m1 = Inr (m1\<lparr>blocks := blocks m\<rparr>)"
    using decode_payload_encode [OF laws, of "[]" "blocks m" m1] inv ok
    by (auto simp: m1_def msg_inv_def BitswapMessage_new_def)
  have "dom (map_of (blocks m)) \<inter> fst ` set (block_presences m) = {}"
    using inv by (simp add: msg_inv_def dom_map_of_conv_image_fst)
  then have 3: "decode_presences api (map (\<lambda>(c, t). \<lparr>pbp_cid = cid_to_bytes api c, pbp_type = BlockPresenceType_to_pb t\<rparr>)
      (block_presences m)) (m1\<lparr>blocks := blocks m\<rparr>) = Inr (m1\<lparr>blocks := blocks m, block_presences := block_presences m\<rparr>)"
    using decode_presences_encode [OF laws, of "[]" "block_presences m" "m1\<lparr>blocks := blocks m\<rparr>"] inv
    by (simp add: m1_def msg_inv_def BitswapMessage_new_def)
  have "m1\<lparr>blocks := blocks m, block_presences := block_presences m, pending_bytes := pending_bytes m\<rparr> = m"
    by (simp add: m1_def BitswapMessage_new_def)
  then show ?thesis using 1 ps 3
    by (simp add: encode_as_proto_v1_def BitswapMessage_try_from_def encode_wantlist_def pb_Message_default_def Let_def)
qed

lemma verify_blocks_ok:
  assumes "msg_inv m"
  shows "list_all (\<lambda>(c, b). b_cid b = c \<and> verify_hash api c (b_data b) = Some True) (blocks (verify_blocks api m))"
proof -
  have "b_cid b = c" if "(c, b) \<in> set (blocks m)" for c b
    using that assms by (simp add: msg_inv_def hmap_in_set_iff)
  then show ?thesis
    by (auto simp: verify_blocks_def list_all_iff split: option.splits bool.splits)
qed

section \<open>Operation sequences\<close>

datatype ('cid, 'b) msg_op =
    MsgClear bool
  | MsgVerify
  | MsgSetPending int
  | MsgRemove 'cid
  | MsgCancel 'cid
  | MsgAddEntry 'cid int WantType bool
  | MsgAddBlock "('cid, 'b list) Block"
  | MsgAddPresence 'cid BlockPresenceType

fun msg_step ::
  "('cid, 'mh, 'code, 'b) cid_api \<Rightarrow> ('cid MEntry \<Rightarrow> nat) \<Rightarrow> ('cid, 'b) msg_op \<Rightarrow> ('cid, 'b) BitswapMessage \<Rightarrow>
   ('cid, 'b) BitswapMessage" where
  "msg_step api len (MsgClear f) m = BitswapMessage_clear f m"
| "msg_step api len MsgVerify m = verify_blocks api m"
| "msg_step api len (MsgSetPending n) m = set_pending_bytes n m"
| "msg_step api len (MsgRemove c) m = BitswapMessage_remove c m"
| "msg_step api len (MsgCancel c) m = snd (BitswapMessage_cancel len c m)"
| "msg_step api len (MsgAddEntry c p t d) m = snd (add_entry len c p t d m)"
| "msg_step api len (MsgAddBlock b) m = add_block b m"
| "msg_step api len (MsgAddPresence c t) m = add_block_presence c t m"

lemma msg_step_inv: "msg_inv m \<Longrightarrow> msg_inv (msg_step api len x m)"
proof (cases x)
  case (MsgRemove c)
  then show "msg_inv m \<Longrightarrow> ?thesis" by (auto simp: BitswapMessage_remove_def msg_inv_def)
next
  case (MsgClear f)
  then show ?thesis by (simp add: BitswapMessage_clear_def msg_inv_def)
next
  case (MsgSetPending n)
  then show "msg_inv m \<Longrightarrow> ?thesis" by (simp add: set_pending_bytes_def msg_inv_def)
qed (simp_all add: msg_inv_verify msg_inv_add_full_entry msg_inv_add_block msg_inv_add_block_presence
    BitswapMessage_cancel_def add_entry_def)

interpretation msg: component "\<lambda>m. \<exists>f. m = BitswapMessage_new f" "msg_step api len" msg_inv
  by unfold_locales (auto simp: msg_step_inv msg_inv_new)

section \<open>Decoded messages\<close>

lemma rbind_inv:
  "case r of Inl e \<Rightarrow> True | Inr x \<Rightarrow> P x \<Longrightarrow> (\<And>x. P x \<Longrightarrow> case f x of Inl e \<Rightarrow> True | Inr y \<Rightarrow> Q y) \<Longrightarrow>
   case rbind r f of Inl e \<Rightarrow> True | Inr y \<Rightarrow> Q y"
  by (cases r) simp_all

abbreviation decodes_to_inv :: "('cid, 'b) BitswapMessage result \<Rightarrow> bool" where
  "decodes_to_inv r \<equiv> (case r of Inl e \<Rightarrow> True | Inr m \<Rightarrow> msg_inv m)"

lemma decode_entries_inv: "msg_inv m \<Longrightarrow> decodes_to_inv (decode_entries api len es m)"
proof (induction es arbitrary: m)
  case (Cons e es)
  show ?case by (cases "cid_try_from api (pe_block e)")
    (simp_all add: from_option_def Cons.IH [OF msg_inv_add_full_entry [OF Cons.prems]])
qed simp

lemma decode_blocks_inv: "msg_inv m \<Longrightarrow> decodes_to_inv (decode_blocks api v0 ds m)"
proof (induction ds arbitrary: m)
  case (Cons d ds)
  show ?case by (cases "Block_from_v0_data api v0 d") (simp_all add: Cons.IH [OF msg_inv_add_block [OF Cons.prems]])
qed simp

lemma decode_payload_inv: "msg_inv m \<Longrightarrow> decodes_to_inv (decode_payload api bs m)"
proof (induction bs arbitrary: m)
  case (Cons b bs)
  note IH = Cons.IH [OF msg_inv_add_block [OF Cons.prems]]
  show ?case
  proof (cases "Prefix_new api (pbk_prefix b)")
    case (Inr p)
    then show ?thesis by (cases "Prefix_to_cid api p (pbk_data b)") (simp_all add: IH)
  qed simp
qed simp

lemma decode_presences_inv: "msg_inv m \<Longrightarrow> decodes_to_inv (decode_presences api ps m)"
proof (induction ps arbitrary: m)
  case (Cons p ps)
  show ?case by (cases "cid_try_from api (pbp_cid p)")
    (simp_all add: from_option_def Cons.IH [OF msg_inv_add_block_presence [OF Cons.prems]])
qed simp

lemma msg_inv_pending: "msg_inv (m\<lparr>pending_bytes := n\<rparr>) \<longleftrightarrow> msg_inv m"
  by (simp add: msg_inv_def)

lemma try_from_inv: "decodes_to_inv (BitswapMessage_try_from api len v0 pbm)"
  unfolding BitswapMessage_try_from_def Let_def
  by (intro rbind_inv [where P = msg_inv] decode_blocks_inv decode_payload_inv decode_presences_inv)
    (simp_all add: msg_inv_new decode_entries_inv msg_inv_pending split: option.split)

section \<open>Merging entries\<close>

lemma merge_entry_simps:
  "me_cancel (merge_entry p x t d e) \<longleftrightarrow> me_cancel e \<or> x"
  "me_send_dont_have (merge_entry p x t d e) \<longleftrightarrow> me_send_dont_have e \<or> d"
  "me_want_type (merge_entry p x t d e) = (if t = WantType_Block then WantType_Block else me_want_type e)"
  "me_priority (merge_entry p x t d e) = (if t = me_want_type e then p else me_priority e)"
  by (cases "me_want_type e"; cases t; simp add: merge_entry_def Let_def)+

type_synonym 'cid full_entry = "'cid \<times> int \<times> bool \<times> WantType \<times> bool"

definition add_full_entries ::
  "('cid MEntry \<Rightarrow> nat) \<Rightarrow> 'cid full_entry list \<Rightarrow> ('cid, 'b) BitswapMessage \<Rightarrow> ('cid, 'b) BitswapMessage" where
  "add_full_entries len xs m = fold (\<lambda>(c, p, x, t, d) m. snd (add_full_entry len c p x t d m)) xs m"

lemma add_full_entries_spec:
  "case map_of (wantlist (add_full_entries len xs m)) c of
     None \<Rightarrow> map_of (wantlist m) c = None \<and> c \<notin> fst ` set xs
   | Some e \<Rightarrow>
       let ys = filter (\<lambda>y. fst y = c) xs; es = (case map_of (wantlist m) c of None \<Rightarrow> [] | Some e0 \<Rightarrow> [e0])
       in (es \<noteq> [] \<or> ys \<noteq> []) \<and>
          (me_cancel e \<longleftrightarrow> list_ex me_cancel es \<or> list_ex (\<lambda>(c, p, x, t, d). x) ys) \<and>
          (me_send_dont_have e \<longleftrightarrow> list_ex me_send_dont_have es \<or> list_ex (\<lambda>(c, p, x, t, d). d) ys) \<and>
          (me_want_type e = WantType_Block \<longleftrightarrow>
             list_ex (\<lambda>e. me_want_type e = WantType_Block) es \<or> list_ex (\<lambda>(c, p, x, t, d). t = WantType_Block) ys)"
proof (induction xs arbitrary: m)
  case Nil
  then show ?case by (auto simp: add_full_entries_def split: option.split)
next
  case (Cons y xs)
  obtain c' p x t d where y: "y = (c', p, x, t, d)" by (metis prod_cases5)
  let ?m = "snd (add_full_entry len c' p x t d m)"
  have eq: "add_full_entries len (y # xs) m = add_full_entries len xs ?m" by (simp add: add_full_entries_def y)
  have w: "map_of (wantlist ?m) = (map_of (wantlist m))(c' \<mapsto>
      (case map_of (wantlist m) c' of Some e \<Rightarrow> merge_entry p x t d e
       | None \<Rightarrow> \<lparr>me_cid = c', me_priority = p, me_want_type = t, me_cancel = x, me_send_dont_have = d\<rparr>))"
    by (simp add: add_full_entry_def Let_def split: option.split)
  show ?case
  proof (cases "c' = c")
    case False
    then show ?thesis using Cons.IH [of ?m] w y unfolding eq by (auto split: option.splits)
  next
    case True
    then show ?thesis using Cons.IH [of ?m] y unfolding eq w
      by (cases "map_of (wantlist m) c") (auto simp: merge_entry_simps Let_def split: option.splits)
  qed
qed

section \<open>Properties\<close>

text \<open>C4: Whatever was put into a message, once its invalid blocks are removed, encoding it as a v1 protobuf
  message succeeds and decoding that gives the same message back: wantlist, blocks under their cids,
  block presences, pending bytes and the full flag.\<close>

theorem message_round_trip:
  assumes "cid_laws api"
  shows "let m = verify_blocks api (fold (msg_step api len) xs (BitswapMessage_new f))
    in \<exists>pb. encode_as_proto_v1 api m = Inr pb \<and> BitswapMessage_try_from api len' v0 pb = Inr m"
proof -
  have "msg_inv (fold (msg_step api len) xs (BitswapMessage_new f))" by (rule msg.reachable_inv) blast
  then show ?thesis
    unfolding Let_def by (intro encode_decode [OF assms] msg_inv_verify verify_blocks_ok)
qed

definition sample_api :: "(Version \<times> 64 word \<times> nat list, nat list, unit, nat) cid_api" where
  "sample_api =
     \<lparr>cid_to_bytes = (\<lambda>(v, c, h). (case v of V0 \<Rightarrow> 0 | V1 \<Rightarrow> 1) # unat c # h),
      cid_try_from = (\<lambda>bs. case bs of v # c # h \<Rightarrow> Some (if v = 0 then V0 else V1, of_nat c, h) | _ \<Rightarrow> None),
      cid_version = fst, cid_codec = (\<lambda>(v, c, h). c), cid_hash = (\<lambda>(v, c, h). h),
      cid_new = (\<lambda>v c h. Some (v, c, h)), mh_code = (\<lambda>h. 18), mh_digest_len = (\<lambda>h. of_nat (length h)),
      code_try_from = (\<lambda>n. Some ()), code_into = (\<lambda>u. 18), sha2_256 = (), code_digest = (\<lambda>u bs. bs),
      version_try_from = (\<lambda>n. if n = 0 then Some V0 else if n = 1 then Some V1 else None),
      version_into = (\<lambda>v. case v of V0 \<Rightarrow> 0 | V1 \<Rightarrow> 1),
      varint_encode = (\<lambda>n. [unat n]),
      varint_decode = (\<lambda>bs. case bs of [] \<Rightarrow> None | b # rest \<Rightarrow> Some (of_nat b, rest))\<rparr>"

lemma sample_api_laws: "cid_laws sample_api"
  by (auto simp: cid_laws_def sample_api_def split: Version.split)

theorem message_round_trip_witness:
  "cid_laws sample_api \<and>
   (let m = verify_blocks sample_api (fold (msg_step sample_api (\<lambda>e. 0))
         [MsgAddEntry (V1, 85, [1]) 5 WantType_Have True, MsgAddBlock \<lparr>b_cid = (V1, 85, [1, 2]), b_data = [1, 2]\<rparr>,
          MsgAddBlock \<lparr>b_cid = (V1, 85, [9]), b_data = [3]\<rparr>, MsgAddPresence (V0, 112, [4]) DontHave, MsgSetPending 7]
         (BitswapMessage_new True))
    in \<exists>pb. encode_as_proto_v1 sample_api m = Inr pb \<and>
         BitswapMessage_try_from sample_api (\<lambda>e. 0) (\<lambda>h. Some (V0, 112, h)) pb = Inr m)"
  by (rule conjI [OF sample_api_laws message_round_trip [OF sample_api_laws]])

text \<open>C30: A message that decodes successfully is well formed, whatever bytes the peer sent: every entry and block
  is stored under its own cid, and no cid has both a block and a block presence.\<close>

theorem decoded_message_wf:
  "case BitswapMessage_try_from api len v0 pbm of Inl e \<Rightarrow> True | Inr m \<Rightarrow> msg_inv m"
  by (rule try_from_inv)

text \<open>The entry a message holds for a cid, after any list of additions, is a cancel, asks for a DONT_HAVE,
  or is a want-block, exactly if one of the additions for that cid was; there is an entry exactly
  if there was an addition.\<close>

theorem add_entries_correct:
  "let ys = filter (\<lambda>y. fst y = c) xs
   in case map_of (wantlist (add_full_entries len xs (BitswapMessage_new f))) c of
        None \<Rightarrow> ys = []
      | Some e \<Rightarrow> ys \<noteq> [] \<and> me_cid e = c \<and>
          (me_cancel e \<longleftrightarrow> list_ex (\<lambda>(c, p, x, t, d). x) ys) \<and>
          (me_send_dont_have e \<longleftrightarrow> list_ex (\<lambda>(c, p, x, t, d). d) ys) \<and>
          (me_want_type e = WantType_Block \<longleftrightarrow> list_ex (\<lambda>(c, p, x, t, d). t = WantType_Block) ys)"
proof -
  let ?m = "add_full_entries len xs (BitswapMessage_new f)"
  have inv: "msg_inv ?m"
  proof -
    have "msg_inv m \<Longrightarrow> msg_inv (add_full_entries len xs m)" for m
      unfolding add_full_entries_def
      by (induction xs arbitrary: m) (auto simp: msg_inv_add_full_entry)
    then show ?thesis using msg_inv_new by blast
  qed
  have new: "map_of (wantlist (BitswapMessage_new f)) c = None" by (simp add: BitswapMessage_new_def)
  have "c \<notin> fst ` set xs \<Longrightarrow> filter (\<lambda>y. fst y = c) xs = []" by (auto simp: filter_empty_conv)
  then show ?thesis
    using add_full_entries_spec [where len = len and xs = xs and m = "BitswapMessage_new f" and c = c] inv
    by (auto simp: new Let_def msg_inv_def split: option.splits)
qed

end
