(* ===== verification/Ipfs_Path.thy ===== *)
theory Ipfs_Path
  imports Ipfs_Prelude "HOL-Library.Sublist"
begin

text \<open>
  Content-addressed paths (\<open>path.rs\<close>): a root, which is a cid, a peer id or a domain name, followed by
  segments. The text forms of cids and peer ids belong to their crates; the functions the code calls
  are the record \<open>name_api\<close>, and \<open>name_laws\<close> states that printed cids and peer ids parse back and
  contain no slash.
\<close>

section \<open>Paths\<close>

record ('cid, 'peer) name_api =
  cid_from_str :: "string \<Rightarrow> 'cid option"
  cid_to_string :: "'cid \<Rightarrow> string"
  peer_from_str :: "string \<Rightarrow> 'peer option"
  peer_to_base58 :: "'peer \<Rightarrow> string"
  peer_from_cid_hash :: "'cid \<Rightarrow> 'peer option"

abbreviation slash :: char where
  "slash \<equiv> CHR ''/''"

definition name_laws :: "('cid, 'peer) name_api \<Rightarrow> bool" where
  "name_laws api \<longleftrightarrow>
     (\<forall>c. cid_from_str api (cid_to_string api c) = Some c \<and> slash \<notin> set (cid_to_string api c)) \<and>
     (\<forall>p. peer_from_str api (peer_to_base58 api p) = Some p \<and> slash \<notin> set (peer_to_base58 api p))"

datatype ('cid, 'peer) PathRoot = Ipld 'cid | Ipns 'peer | Dns string

type_synonym SlashedPath = "string list"

record ('cid, 'peer) IpfsPath =
  root :: "('cid, 'peer) PathRoot"
  path :: SlashedPath

datatype IpfsPathError = InvalidPath string | SegmentContainsSlash string | CidError

text \<open>Splitting a string at every slash gives at least one, possibly empty, part.\<close>

fun split_slash :: "string \<Rightarrow> string list" where
  "split_slash [] = [[]]"
| "split_slash (c # cs) =
     (if c = slash then [] # split_slash cs
      else case split_slash cs of [] \<Rightarrow> [[c]] | part # parts \<Rightarrow> (c # part) # parts)"

text \<open>The loop pushes segments until an empty one; the flag says whether it succeeded.\<close>

fun push_split :: "string list \<Rightarrow> SlashedPath \<Rightarrow> bool \<times> SlashedPath" where
  "push_split [] p = (True, p)"
| "push_split (sub_path # split) p =
     (if sub_path = [] then (split = [], p)
      else push_split split (p @ [sub_path]))"

definition push_path :: "string \<Rightarrow> SlashedPath \<Rightarrow> IpfsPathError option \<times> SlashedPath" where
  "push_path s p =
     (if s = [] then (None, p)
      else let (ok, p') = push_split (split_slash s) p
           in (if ok then None else Some (SegmentContainsSlash s), p'))"

definition shift :: "nat \<Rightarrow> SlashedPath \<Rightarrow> SlashedPath checked" where
  "shift n p = (if n \<le> length p then Inr (drop n p) else Inl OutOfRange)"

definition truncate :: "nat \<Rightarrow> SlashedPath \<Rightarrow> SlashedPath" where
  "truncate n p = take n p"

text \<open>The comparison of a path with a slice of strings.\<close>

definition SlashedPath_eq_slice :: "SlashedPath \<Rightarrow> string list \<Rightarrow> bool" where
  "SlashedPath_eq_slice p other = list_all (\<lambda>(a, b). a = b) (zip p other)"

fun SlashedPath_fmt :: "SlashedPath \<Rightarrow> string" where
  "SlashedPath_fmt [] = []"
| "SlashedPath_fmt [s] = s"
| "SlashedPath_fmt (s # t # p) = s @ [slash] @ SlashedPath_fmt (t # p)"

section \<open>Roots and whole paths\<close>

definition PathRoot_cid :: "('cid, 'peer) PathRoot \<Rightarrow> 'cid option" where
  "PathRoot_cid r = (case r of Ipld cid \<Rightarrow> Some cid | _ \<Rightarrow> None)"

definition PathRoot_try_into_peer :: "('cid, 'peer) PathRoot \<Rightarrow> 'peer option" where
  "PathRoot_try_into_peer r = (case r of Ipns peer_id \<Rightarrow> Some peer_id | _ \<Rightarrow> None)"

definition PathRoot_fmt :: "('cid, 'peer) name_api \<Rightarrow> ('cid, 'peer) PathRoot \<Rightarrow> string" where
  "PathRoot_fmt api r =
     (let (prefix, key) =
            (case r of
               Ipld cid \<Rightarrow> (''/ipfs/'', cid_to_string api cid)
             | Ipns peer_id \<Rightarrow> (''/ipns/'', peer_to_base58 api peer_id)
             | Dns domain \<Rightarrow> (''/ipns/'', domain))
      in prefix @ key)"

definition IpfsPath_new :: "('cid, 'peer) PathRoot \<Rightarrow> ('cid, 'peer) IpfsPath" where
  "IpfsPath_new r = \<lparr>root = r, path = []\<rparr>"

definition ipns_root :: "('cid, 'peer) name_api \<Rightarrow> string \<Rightarrow> ('cid, 'peer) PathRoot" where
  "ipns_root api key =
     (case peer_from_str api key of
        Some peer_id \<Rightarrow> Ipns peer_id
      | None \<Rightarrow>
          (case Option.bind (cid_from_str api key) (peer_from_cid_hash api) of
             Some p \<Rightarrow> Ipns p
           | None \<Rightarrow> Dns key))"

definition cid_root :: "('cid, 'peer) name_api \<Rightarrow> string \<Rightarrow> IpfsPathError + ('cid, 'peer) PathRoot" where
  "cid_root api key = (case cid_from_str api key of Some cid \<Rightarrow> Inr (Ipld cid) | None \<Rightarrow> Inl CidError)"

text \<open>The root and the parts after it.\<close>

definition parse_root ::
  "('cid, 'peer) name_api \<Rightarrow> string \<Rightarrow> IpfsPathError + ('cid, 'peer) PathRoot \<times> string list" where
  "parse_root api s =
     (case split_slash s of
        [] \<Rightarrow> Inl (InvalidPath s)
      | first # subpath \<Rightarrow>
          (if first \<noteq> [] then rbind (cid_root api first) (\<lambda>r. Inr (r, subpath))
           else case subpath of
                  root_type # key # rest \<Rightarrow>
                    (if root_type = ''ipfs'' then rbind (cid_root api key) (\<lambda>r. Inr (r, rest))
                     else if root_type = ''ipld'' then rbind (cid_root api key) (\<lambda>r. Inr (r, rest))
                     else if root_type = ''ipns'' then Inr (ipns_root api key, rest)
                     else Inl (InvalidPath s))
                | _ \<Rightarrow> Inl (InvalidPath s)))"

definition IpfsPath_from_str :: "('cid, 'peer) name_api \<Rightarrow> string \<Rightarrow> IpfsPathError + ('cid, 'peer) IpfsPath" where
  "IpfsPath_from_str api s =
     rbind (parse_root api s) (\<lambda>(r, rest).
       let (ok, p) = push_split rest (path (IpfsPath_new r))
       in if ok then Inr ((IpfsPath_new r)\<lparr>path := p\<rparr>) else Inl (InvalidPath s))"

definition push_str :: "string \<Rightarrow> ('cid, 'peer) IpfsPath \<Rightarrow> IpfsPathError option \<times> ('cid, 'peer) IpfsPath" where
  "push_str s p = (let (err, q) = push_path s (path p) in (err, p\<lparr>path := q\<rparr>))"

definition sub_path :: "string \<Rightarrow> ('cid, 'peer) IpfsPath \<Rightarrow> IpfsPathError + ('cid, 'peer) IpfsPath" where
  "sub_path segments p = (case push_str segments p of (Some e, q) \<Rightarrow> Inl e | (None, q) \<Rightarrow> Inr q)"

definition into_shifted :: "nat \<Rightarrow> ('cid, 'peer) IpfsPath \<Rightarrow> SlashedPath checked" where
  "into_shifted n p = (if n \<le> length (path p) then shift n (path p) else Inl AssertFailed)"

definition into_truncated :: "nat \<Rightarrow> ('cid, 'peer) IpfsPath \<Rightarrow> SlashedPath checked" where
  "into_truncated n p = (if n \<le> length (path p) then Inr (truncate n (path p)) else Inl AssertFailed)"

definition IpfsPath_fmt :: "('cid, 'peer) name_api \<Rightarrow> ('cid, 'peer) IpfsPath \<Rightarrow> string" where
  "IpfsPath_fmt api p = PathRoot_fmt api (root p) @ (if path p \<noteq> [] then [slash] @ SlashedPath_fmt (path p) else [])"

section \<open>Splitting and joining\<close>

definition segment :: "string \<Rightarrow> bool" where
  "segment s \<longleftrightarrow> s \<noteq> [] \<and> slash \<notin> set s"

lemma split_slash_not_Nil [simp]: "split_slash s \<noteq> []"
  by (induction s) (auto split: list.split)

lemma split_slash_parts: "part \<in> set (split_slash s) \<Longrightarrow> slash \<notin> set part"
  by (induction s arbitrary: part) (auto split: list.splits if_splits)

lemma split_slash_no_slash: "slash \<notin> set s \<Longrightarrow> split_slash s = [s]"
  by (induction s) auto

lemma split_slash_append: "slash \<notin> set s \<Longrightarrow> split_slash (s @ slash # t) = s # split_slash t"
  by (induction s) auto

lemma split_slash_fmt: "list_all (\<lambda>s. slash \<notin> set s) (s # p) \<Longrightarrow> split_slash (SlashedPath_fmt (s # p)) = s # p"
proof (induction p arbitrary: s)
  case (Cons t p)
  then show ?case by (simp add: split_slash_append)
qed (simp add: split_slash_no_slash)

lemma push_split_segments: "list_all segment xs \<Longrightarrow> push_split xs p = (True, p @ xs)"
  by (induction xs arbitrary: p) (auto simp: segment_def)

lemma push_split_iff:
  "push_split xs p = (True, q) \<longleftrightarrow>
   (\<exists>ys. q = p @ ys \<and> [] \<notin> set ys \<and> (xs = ys \<or> xs = ys @ [[]]))"
proof (induction xs arbitrary: p)
  case (Cons x xs)
  show ?case
  proof (cases "x = []")
    case True
    then show ?thesis by (auto simp: Cons_eq_append_conv)
  next
    case False
    have "push_split (x # xs) p = (True, q) \<longleftrightarrow> (\<exists>ys. q = (p @ [x]) @ ys \<and> [] \<notin> set ys \<and> (xs = ys \<or> xs = ys @ [[]]))"
      using False Cons.IH by simp
    also have "\<dots> \<longleftrightarrow> (\<exists>ys. q = p @ ys \<and> [] \<notin> set ys \<and> (x # xs = ys \<or> x # xs = ys @ [[]]))"
      using False by (auto simp: Cons_eq_append_conv)
    finally show ?thesis .
  qed
qed auto

section \<open>Parsing and printing\<close>

definition path_ok :: "('cid, 'peer) name_api \<Rightarrow> ('cid, 'peer) IpfsPath \<Rightarrow> bool" where
  "path_ok api p \<longleftrightarrow> list_all segment (path p) \<and>
     (case root p of Dns d \<Rightarrow> slash \<notin> set d \<and> ipns_root api d = Dns d | _ \<Rightarrow> True)"

lemma split_slash_prefix:
  "split_slash (''/ipfs/'' @ r) = [] # ''ipfs'' # split_slash r" "split_slash (''/ipns/'' @ r) = [] # ''ipns'' # split_slash r"
  by (simp_all split: list.split)

lemma split_slash_key:
  "slash \<notin> set key \<Longrightarrow> list_all segment p \<Longrightarrow>
   split_slash (key @ (if p \<noteq> [] then [slash] @ SlashedPath_fmt p else [])) = key # p"
proof (cases p)
  case (Cons s q)
  assume "slash \<notin> set key" "list_all segment p"
  moreover from this have "list_all (\<lambda>s. slash \<notin> set s) (s # q)" using Cons by (auto simp: segment_def list_all_iff)
  ultimately show ?thesis using Cons by (simp add: split_slash_append split_slash_fmt del: SlashedPath_fmt.simps)
qed (simp add: split_slash_no_slash)

lemma parse_root_fmt:
  assumes laws: "name_laws api" and ok: "path_ok api p"
  shows "parse_root api (IpfsPath_fmt api p) = Inr (root p, path p)"
proof -
  have segs: "list_all segment (path p)" using ok by (simp add: path_ok_def)
  show ?thesis
  proof (cases "root p")
    case (Ipld c)
    have l: "cid_from_str api (cid_to_string api c) = Some c" "slash \<notin> set (cid_to_string api c)"
      using laws by (simp_all add: name_laws_def)
    have "split_slash (IpfsPath_fmt api p) = [] # ''ipfs'' # cid_to_string api c # path p"
      using split_slash_key [OF l(2) segs] Ipld
      by (simp only: IpfsPath_fmt_def PathRoot_fmt_def PathRoot.case Let_def prod.case append_assoc split_slash_prefix)
    then show ?thesis using Ipld l(1) by (simp add: parse_root_def cid_root_def)
  next
    case (Ipns q)
    have l: "peer_from_str api (peer_to_base58 api q) = Some q" "slash \<notin> set (peer_to_base58 api q)"
      using laws by (simp_all add: name_laws_def)
    have "split_slash (IpfsPath_fmt api p) = [] # ''ipns'' # peer_to_base58 api q # path p"
      using split_slash_key [OF l(2) segs] Ipns
      by (simp only: IpfsPath_fmt_def PathRoot_fmt_def PathRoot.case Let_def prod.case append_assoc split_slash_prefix)
    then show ?thesis using Ipns l(1) by (simp add: parse_root_def ipns_root_def)
  next
    case (Dns d)
    have l: "ipns_root api d = Dns d" "slash \<notin> set d" using ok Dns by (simp_all add: path_ok_def)
    have "split_slash (IpfsPath_fmt api p) = [] # ''ipns'' # d # path p"
      using split_slash_key [OF l(2) segs] Dns
      by (simp only: IpfsPath_fmt_def PathRoot_fmt_def PathRoot.case Let_def prod.case append_assoc split_slash_prefix)
    then show ?thesis using Dns l(1) by (simp add: parse_root_def)
  qed
qed

lemma from_str_fmt:
  assumes "name_laws api" "path_ok api p"
  shows "IpfsPath_from_str api (IpfsPath_fmt api p) = Inr p"
  using parse_root_fmt [OF assms] assms(2)
  by (simp add: IpfsPath_from_str_def IpfsPath_new_def path_ok_def push_split_segments)

lemma ipns_root_Dns: "ipns_root api key = Dns d \<Longrightarrow> d = key"
  by (auto simp: ipns_root_def split: option.splits)

lemma parse_root_ok:
  assumes "parse_root api s = Inr (r, rest)"
  shows "set rest \<subseteq> set (split_slash s)"
    "case r of Dns d \<Rightarrow> slash \<notin> set d \<and> ipns_root api d = Dns d | _ \<Rightarrow> True"
proof -
  have parts: "list_all (\<lambda>part. slash \<notin> set part) (split_slash s)" using split_slash_parts by (auto simp: list_all_iff)
  show "set rest \<subseteq> set (split_slash s)"
    using assms by (auto simp: parse_root_def rbind_Inr_iff split: list.splits if_splits)
  show "case r of Dns d \<Rightarrow> slash \<notin> set d \<and> ipns_root api d = Dns d | _ \<Rightarrow> True"
    using assms parts
    by (auto simp: parse_root_def cid_root_def rbind_Inr_iff split: list.splits if_splits option.splits PathRoot.splits
        dest: ipns_root_Dns)
qed

lemma from_str_ok:
  assumes "IpfsPath_from_str api s = Inr p"
  shows "path_ok api p"
proof -
  obtain r rest where r: "parse_root api s = Inr (r, rest)" "push_split rest [] = (True, path p)" "root p = r"
  proof (cases "parse_root api s")
    case (Inr a)
    obtain r rest where a: "a = (r, rest)" by (meson surj_pair)
    obtain ok q where q: "push_split rest [] = (ok, q)" by (meson surj_pair)
    from assms Inr a q have "ok \<and> p = \<lparr>root = r, path = q\<rparr>"
      by (simp add: IpfsPath_from_str_def IpfsPath_new_def split: if_splits)
    with Inr a q that show ?thesis by simp
  qed (use assms in \<open>simp add: IpfsPath_from_str_def\<close>)
  then obtain ys where "path p = ys" "[] \<notin> set ys" "rest = ys \<or> rest = ys @ [[]]"
    by (auto simp: push_split_iff)
  moreover from this have "set (path p) \<subseteq> set (split_slash s)" using parse_root_ok(1) [OF r(1)] by auto
  ultimately have "list_all segment (path p)"
    using split_slash_parts [of _ s] by (auto simp: segment_def list_all_iff)
  then show ?thesis using parse_root_ok(2) [OF r(1)] r(3) by (simp add: path_ok_def)
qed

section \<open>Properties\<close>

text \<open>C18: A path that parses prints to a text that parses to the same path; every segment of it is non-empty
  and contains no slash.\<close>

theorem path_round_trip:
  assumes "name_laws api" "IpfsPath_from_str api s = Inr p"
  shows "IpfsPath_from_str api (IpfsPath_fmt api p) = Inr p \<and> list_all segment (path p)"
  using from_str_fmt [OF assms(1) from_str_ok [OF assms(2)]] from_str_ok [OF assms(2)] by (simp add: path_ok_def)

definition sample_names :: "(nat, nat) name_api" where
  "sample_names =
     \<lparr>cid_from_str = (\<lambda>s. if s \<noteq> [] \<and> set s = {CHR ''Q''} then Some (length s - 1) else None),
      cid_to_string = (\<lambda>n. replicate (Suc n) (CHR ''Q'')),
      peer_from_str = (\<lambda>s. if s \<noteq> [] \<and> set s = {CHR ''P''} then Some (length s - 1) else None),
      peer_to_base58 = (\<lambda>n. replicate (Suc n) (CHR ''P'')),
      peer_from_cid_hash = (\<lambda>c. None)\<rparr>"

lemma sample_names_laws: "name_laws sample_names"
  by (simp add: name_laws_def sample_names_def del: replicate_Suc)

theorem path_round_trip_witness:
  "let p = \<lparr>root = Dns ''ex.com'', path = [''a'', ''b'']\<rparr>
   in name_laws sample_names \<and> IpfsPath_from_str sample_names ''/ipns/ex.com/a/b/'' = Inr p \<and>
      IpfsPath_from_str sample_names (IpfsPath_fmt sample_names p) = Inr p"
proof -
  have "IpfsPath_from_str sample_names ''/ipns/ex.com/a/b/'' = Inr \<lparr>root = Dns ''ex.com'', path = [''a'', ''b'']\<rparr>"
    by (simp add: IpfsPath_from_str_def parse_root_def ipns_root_def IpfsPath_new_def sample_names_def)
  with path_round_trip [OF sample_names_laws this] sample_names_laws show ?thesis unfolding Let_def by blast
qed

text \<open>Pushing a text onto a path succeeds exactly if no segment but a trailing one is empty, and then appends
  the segments; cutting a path at a position and joining the halves gives the path back, and a
  position beyond the end fails the assertion of both.\<close>

theorem sub_path_correct:
  "(case sub_path s p of
      Inr q \<Rightarrow> root q = root p \<and> (\<exists>ys. path q = path p @ ys \<and> [] \<notin> set ys \<and>
        (s = [] \<and> ys = [] \<or> split_slash s = ys \<or> split_slash s = ys @ [[]]))
    | Inl e \<Rightarrow> e = SegmentContainsSlash s \<and> s \<noteq> [] \<and> [] \<in> set (butlast (split_slash s))) \<and>
   (if n \<le> length (path p)
    then \<exists>a b. into_truncated n p = Inr a \<and> into_shifted n p = Inr b \<and> a @ b = path p \<and> length a = n
    else into_truncated n p = Inl AssertFailed \<and> into_shifted n p = Inl AssertFailed)"
proof (rule conjI)
  show "if n \<le> length (path p)
    then \<exists>a b. into_truncated n p = Inr a \<and> into_shifted n p = Inr b \<and> a @ b = path p \<and> length a = n
    else into_truncated n p = Inl AssertFailed \<and> into_shifted n p = Inl AssertFailed"
    by (simp add: into_truncated_def into_shifted_def shift_def truncate_def)
  obtain ok q where l: "push_split (split_slash s) (path p) = (ok, q)" by (meson surj_pair)
  show "case sub_path s p of
      Inr q \<Rightarrow> root q = root p \<and> (\<exists>ys. path q = path p @ ys \<and> [] \<notin> set ys \<and>
        (s = [] \<and> ys = [] \<or> split_slash s = ys \<or> split_slash s = ys @ [[]]))
    | Inl e \<Rightarrow> e = SegmentContainsSlash s \<and> s \<noteq> [] \<and> [] \<in> set (butlast (split_slash s))"
  proof (cases "s = []")
    case True
    then show ?thesis by (auto simp: sub_path_def push_str_def push_path_def)
  next
    case False
    show ?thesis
    proof (cases ok)
      case True
      then show ?thesis using l False push_split_iff [of "split_slash s" "path p" q]
        by (auto simp: sub_path_def push_str_def push_path_def)
    next
      case nok: False
      have "push_split xs r = (False, q) \<Longrightarrow> [] \<in> set (butlast xs)" for xs r
        by (induction xs arbitrary: r) (auto split: if_splits)
      then show ?thesis using l nok False by (auto simp: sub_path_def push_str_def push_path_def)
    qed
  qed
qed

text \<open>C35: Comparing a path with a slice of strings holds exactly if one is a prefix of the other; lengths are
  not compared, so the empty slice equals every path.\<close>

theorem slice_eq_is_prefix:
  "SlashedPath_eq_slice p other = (prefix p other \<or> prefix other p)"
proof (induction p arbitrary: other)
  case (Cons s p)
  then show ?case by (cases other) (auto simp: SlashedPath_eq_slice_def)
qed (simp add: SlashedPath_eq_slice_def)

end
