(* ===== verification/Dont_Have_Timeout.thy ===== *)
theory Dont_Have_Timeout
  imports Ipfs_Prelude Complex_Main
begin

text \<open>
  The manager that simulates a DONT_HAVE answer when a peer does not respond in time
  (\<open>client/message_queue/dont_have_timeout_manager.rs\<close>), with its worker task.

  Instants and durations are natural numbers of nanoseconds, and the difference of two instants
  saturates at zero, as it does in the standard library. An \<open>f64\<close> is a rational; every
  arithmetic operation returns its exact result rounded by \<open>rnd\<close>, which is an argument of the
  definitions. The clock is read once for every want that is looked at; \<open>clock n\<close> is the reading
  taken when \<open>n\<close> more wants remain in the queue. The channel of triggers holds any number of them;
  the code's holds sixteen and makes a further sender wait.
\<close>

section \<open>Durations and floating point numbers\<close>

abbreviation ns_per_s :: nat where
  "ns_per_s \<equiv> 1000000000"

definition as_secs_f64 :: "(rat \<Rightarrow> rat) \<Rightarrow> nat \<Rightarrow> rat" where
  "as_secs_f64 rnd d = rnd (rnd (of_nat (d div ns_per_s)) + rnd (of_nat (d mod ns_per_s) / of_nat ns_per_s))"

definition from_secs_f64 :: "rat \<Rightarrow> nat checked" where
  "from_secs_f64 s =
     (if 0 \<le> s \<and> s < 2 ^ 64 then Inr (nat \<lfloor>s * of_nat ns_per_s + 1 / 2\<rfloor>) else Inl OutOfRange)"

definition DONT_HAVE_TIMEOUT :: nat where
  "DONT_HAVE_TIMEOUT = 5 * ns_per_s"

definition MAX_EXPECTED_WANT_PROCESS_TIME :: nat where
  "MAX_EXPECTED_WANT_PROCESS_TIME = 2 * ns_per_s"

definition MAX_TIMEOUT :: nat where
  "MAX_TIMEOUT = 7 * ns_per_s"

definition PING_LATENCY_MULTIPLIER :: rat where
  "PING_LATENCY_MULTIPLIER = 3"

definition MESSAGE_LATENCY_ALPHA :: rat where
  "MESSAGE_LATENCY_ALPHA = 1 / 2"

definition MESSAGE_LATENCY_MULTIPLIER :: rat where
  "MESSAGE_LATENCY_MULTIPLIER = 2"

section \<open>State\<close>

record 'cid PendingWant =
  pw_cid :: 'cid
  pw_active :: bool
  pw_sent :: nat

record LatencyEwma =
  ewma_alpha :: rat
  ewma_samples :: nat
  ewma_latency :: nat

record ('cid, 'peer) dh_Inner =
  dh_target :: 'peer
  active_wants :: "('cid, 'cid PendingWant) hmap"
  want_queue :: "'cid PendingWant list"
  dh_timeout :: nat
  message_latency :: LatencyEwma

text \<open>The worker first pings the peer, then waits for triggers and for the delay.\<close>

datatype dh_worker = Pinging | Looping nat | Finished

record ('cid, 'peer) DontHaveTimeoutManager =
  max_timeout :: nat
  message_latency_multiplier :: rat
  worker :: "dh_worker option"
  triggers :: nat
  inner :: "('cid, 'peer) dh_Inner"

definition DontHaveTimeoutManager_new :: "'peer \<Rightarrow> ('cid, 'peer) DontHaveTimeoutManager" where
  "DontHaveTimeoutManager_new target =
     \<lparr>max_timeout = MAX_TIMEOUT, message_latency_multiplier = MESSAGE_LATENCY_MULTIPLIER,
      worker = None, triggers = 0,
      inner = \<lparr>dh_target = target, active_wants = [], want_queue = [], dh_timeout = DONT_HAVE_TIMEOUT,
               message_latency = \<lparr>ewma_alpha = MESSAGE_LATENCY_ALPHA, ewma_samples = 0, ewma_latency = 0\<rparr>\<rparr>\<rparr>"

section \<open>Latencies\<close>

definition LatencyEwma_update :: "(rat \<Rightarrow> rat) \<Rightarrow> nat \<Rightarrow> LatencyEwma \<Rightarrow> LatencyEwma checked" where
  "LatencyEwma_update rnd elapsed e =
     (let samples = ewma_samples e + 1
      in if samples \<ge> 2 ^ 64 then Inl Overflow
         else let alpha0 = rnd (1 / rnd (of_nat samples));
                  alpha = (if alpha0 < ewma_alpha e then ewma_alpha e else alpha0)
              in rbind (from_secs_f64
                   (rnd (rnd (as_secs_f64 rnd elapsed * alpha) + rnd (rnd (1 - alpha) * as_secs_f64 rnd (ewma_latency e)))))
                   (\<lambda>l. Inr (e\<lparr>ewma_samples := samples, ewma_latency := l\<rparr>)))"

definition calculate_timeout_from_message_latency :: "(rat \<Rightarrow> rat) \<Rightarrow> nat \<Rightarrow> rat \<Rightarrow> nat \<Rightarrow> nat checked" where
  "calculate_timeout_from_message_latency rnd latency multiplier maximum =
     rbind (from_secs_f64 (rnd (as_secs_f64 rnd latency * multiplier))) (\<lambda>timeout.
       Inr (if timeout > maximum then maximum else timeout))"

definition calculate_timeout_from_ping_latency :: "(rat \<Rightarrow> rat) \<Rightarrow> nat \<Rightarrow> nat \<Rightarrow> rat \<Rightarrow> nat \<Rightarrow> nat checked" where
  "calculate_timeout_from_ping_latency rnd latency process_time multiplier maximum =
     rbind (from_secs_f64 (rnd (as_secs_f64 rnd process_time + rnd (multiplier * as_secs_f64 rnd latency)))) (\<lambda>timeout.
       Inr (if timeout > maximum then maximum else timeout))"

section \<open>Operations of the manager\<close>

definition dh_trigger :: "('cid, 'peer) DontHaveTimeoutManager \<Rightarrow> ('cid, 'peer) DontHaveTimeoutManager" where
  "dh_trigger m = (if worker m \<noteq> None then m\<lparr>triggers := triggers m + 1\<rparr> else m)"

definition dh_start :: "('cid, 'peer) DontHaveTimeoutManager \<Rightarrow> ('cid, 'peer) DontHaveTimeoutManager" where
  "dh_start m = (if worker m \<noteq> None then m else m\<lparr>worker := Some Pinging\<rparr>)"

definition dh_stop :: "('cid, 'peer) DontHaveTimeoutManager \<Rightarrow> ('cid, 'peer) DontHaveTimeoutManager" where
  "dh_stop m = (if worker m \<noteq> None then m\<lparr>worker := Some Finished\<rparr> else m)"

definition update_message_latency ::
  "(rat \<Rightarrow> rat) \<Rightarrow> nat \<Rightarrow> ('cid, 'peer) DontHaveTimeoutManager \<Rightarrow> ('cid, 'peer) DontHaveTimeoutManager checked" where
  "update_message_latency rnd elapsed m =
     rbind (LatencyEwma_update rnd elapsed (message_latency (inner m))) (\<lambda>l.
     rbind (calculate_timeout_from_message_latency rnd (ewma_latency l) (message_latency_multiplier m) (max_timeout m)) (\<lambda>t.
       let m' = m\<lparr>inner := (inner m)\<lparr>message_latency := l, dh_timeout := t\<rparr>\<rparr>
       in Inr (if t < dh_timeout (inner m) then dh_trigger m' else m')))"

definition add_pending_one :: "nat \<Rightarrow> 'cid \<Rightarrow> ('cid, 'peer) dh_Inner \<Rightarrow> ('cid, 'peer) dh_Inner" where
  "add_pending_one start cid i =
     (if map_of (active_wants i) cid \<noteq> None then i
      else let pw = \<lparr>pw_cid = cid, pw_active = True, pw_sent = start\<rparr>
           in i\<lparr>active_wants := AList.update cid pw (active_wants i), want_queue := want_queue i @ [pw]\<rparr>)"

definition add_pending ::
  "nat \<Rightarrow> 'cid list \<Rightarrow> ('cid, 'peer) DontHaveTimeoutManager \<Rightarrow> ('cid, 'peer) DontHaveTimeoutManager" where
  "add_pending start pending m =
     (if pending = [] then m
      else let queue_was_empty = (active_wants (inner m) = []);
               m' = m\<lparr>inner := fold (add_pending_one start) pending (inner m)\<rparr>
           in if queue_was_empty then dh_trigger m' else m')"

text \<open>
  The flag \<open>active\<close> is cleared on the entry of the map just before that entry is removed; the
  queue holds a clone.
\<close>

definition cancel_pending ::
  "'cid list \<Rightarrow> ('cid, 'peer) DontHaveTimeoutManager \<Rightarrow> ('cid, 'peer) DontHaveTimeoutManager" where
  "cancel_pending cancels m =
     m\<lparr>inner := (inner m)\<lparr>active_wants := fold AList.delete cancels (active_wants (inner m))\<rparr>\<rparr>"

section \<open>Checking for timeouts\<close>

text \<open>The loop pops from the end of the queue, which is given in reverse.\<close>

fun check_loop ::
  "(nat \<Rightarrow> nat) \<Rightarrow> nat \<Rightarrow> 'cid PendingWant list \<Rightarrow> 'cid list \<Rightarrow> ('cid, 'cid PendingWant) hmap \<Rightarrow>
   'cid PendingWant list \<times> 'cid list \<times> ('cid, 'cid PendingWant) hmap" where
  "check_loop clock timeout [] expired active = ([], expired, active)"
| "check_loop clock timeout (pw # queue) expired active =
     (if pw_active pw
      then if clock (length queue) - pw_sent pw < timeout then (queue, expired, active)
           else check_loop clock timeout queue (expired @ [pw_cid pw]) (AList.delete (pw_cid pw) active)
      else check_loop clock timeout queue expired active)"

text \<open>Returns the delay until the next check, the keys that timed out and the new state.\<close>

definition check_for_timeouts ::
  "(nat \<Rightarrow> nat) \<Rightarrow> nat \<Rightarrow> ('cid, 'peer) dh_Inner \<Rightarrow> nat option \<times> 'cid list \<times> ('cid, 'peer) dh_Inner" where
  "check_for_timeouts clock now i =
     (if want_queue i = [] then (None, [], i)
      else let (queue, expired, active) = check_loop clock (dh_timeout i) (rev (want_queue i)) [] (active_wants i);
               i' = i\<lparr>want_queue := rev queue, active_wants := active\<rparr>
           in (case want_queue i' of
                 [] \<Rightarrow> None
               | oldest # _ \<Rightarrow> Some ((pw_sent oldest + dh_timeout i') - now),
               expired, i'))"

section \<open>The worker\<close>

text \<open>The end of the ping; \<open>None\<close> is a failed ping.\<close>

definition worker_ping ::
  "(rat \<Rightarrow> rat) \<Rightarrow> nat option \<Rightarrow> nat \<Rightarrow> ('cid, 'peer) DontHaveTimeoutManager \<Rightarrow>
   ('cid, 'peer) DontHaveTimeoutManager checked" where
  "worker_ping rnd ping now m =
     (if worker m \<noteq> Some Pinging then Inr m
      else let looping = (\<lambda>m. m\<lparr>worker := Some (Looping (now + DONT_HAVE_TIMEOUT))\<rparr>)
           in case ping of
                None \<Rightarrow> Inr (looping m)
              | Some latency \<Rightarrow>
                  (if ewma_samples (message_latency (inner m)) = 0
                   then rbind (calculate_timeout_from_ping_latency rnd latency MAX_EXPECTED_WANT_PROCESS_TIME
                          PING_LATENCY_MULTIPLIER MAX_TIMEOUT) (\<lambda>t.
                          Inr (looping (dh_trigger (m\<lparr>inner := (inner m)\<lparr>dh_timeout := t\<rparr>\<rparr>))))
                   else Inr (looping m)))"

definition worker_trigger ::
  "(nat \<Rightarrow> nat) \<Rightarrow> nat \<Rightarrow> ('cid, 'peer) DontHaveTimeoutManager \<Rightarrow> 'cid list \<times> ('cid, 'peer) DontHaveTimeoutManager" where
  "worker_trigger clock now m =
     (case worker m of
        Some (Looping d) \<Rightarrow>
          (if triggers m = 0 then ([], m)
           else let (next, expired, i) = check_for_timeouts clock now (inner m)
                in (expired, m\<lparr>triggers := triggers m - 1, inner := i,
                               worker := Some (Looping (case next of Some n \<Rightarrow> now + n | None \<Rightarrow> d))\<rparr>))
      | _ \<Rightarrow> ([], m))"

definition worker_delay ::
  "(nat \<Rightarrow> nat) \<Rightarrow> nat \<Rightarrow> ('cid, 'peer) DontHaveTimeoutManager \<Rightarrow> 'cid list \<times> ('cid, 'peer) DontHaveTimeoutManager" where
  "worker_delay clock now m =
     (case worker m of
        Some (Looping d) \<Rightarrow>
          (if now < d then ([], m)
           else let (next, expired, i) = check_for_timeouts clock now (inner m)
                in (expired, m\<lparr>inner := i,
                     worker := Some (Looping (now + (case next of Some n \<Rightarrow> n | None \<Rightarrow> 300 * ns_per_s)))\<rparr>))
      | _ \<Rightarrow> ([], m))"

text \<open>Everything that happens to the manager, with the keys that time out.\<close>

datatype 'cid dh_event =
    DhStart
  | DhStop
  | DhLatency nat
  | DhAdd nat "'cid list"
  | DhCancel "'cid list"
  | DhPing "nat option" nat
  | DhTrigger "nat \<Rightarrow> nat" nat
  | DhDelay "nat \<Rightarrow> nat" nat

fun dh_step ::
  "(rat \<Rightarrow> rat) \<Rightarrow> 'cid dh_event \<Rightarrow> ('cid, 'peer) DontHaveTimeoutManager \<Rightarrow>
   ('cid list \<times> ('cid, 'peer) DontHaveTimeoutManager) checked" where
  "dh_step rnd DhStart m = Inr ([], dh_start m)"
| "dh_step rnd DhStop m = Inr ([], dh_stop m)"
| "dh_step rnd (DhLatency elapsed) m = rbind (update_message_latency rnd elapsed m) (\<lambda>m'. Inr ([], m'))"
| "dh_step rnd (DhAdd start pending) m = Inr ([], add_pending start pending m)"
| "dh_step rnd (DhCancel cancels) m = Inr ([], cancel_pending cancels m)"
| "dh_step rnd (DhPing ping now) m = rbind (worker_ping rnd ping now m) (\<lambda>m'. Inr ([], m'))"
| "dh_step rnd (DhTrigger clock now) m = Inr (worker_trigger clock now m)"
| "dh_step rnd (DhDelay clock now) m = Inr (worker_delay clock now m)"

fun dh_run ::
  "(rat \<Rightarrow> rat) \<Rightarrow> 'cid dh_event list \<Rightarrow> ('cid, 'peer) DontHaveTimeoutManager \<Rightarrow>
   ('cid list \<times> ('cid, 'peer) DontHaveTimeoutManager) checked" where
  "dh_run rnd [] m = Inr ([], m)"
| "dh_run rnd (e # es) m =
     rbind (dh_step rnd e m) (\<lambda>(fired, m1).
     rbind (dh_run rnd es m1) (\<lambda>(fired', m2). Inr (fired @ fired', m2)))"

section \<open>Invariant\<close>

definition dh_inv :: "('cid, 'peer) DontHaveTimeoutManager \<Rightarrow> bool" where
  "dh_inv m \<longleftrightarrow>
     list_all pw_active (want_queue (inner m)) \<and> dh_timeout (inner m) \<le> MAX_TIMEOUT \<and> max_timeout m = MAX_TIMEOUT"

abbreviation queued :: "('cid, 'peer) dh_Inner \<Rightarrow> 'cid set" where
  "queued i \<equiv> pw_cid ` set (want_queue i)"

lemma dh_inv_new: "dh_inv (DontHaveTimeoutManager_new target)"
  by (simp add: dh_inv_def DontHaveTimeoutManager_new_def DONT_HAVE_TIMEOUT_def MAX_TIMEOUT_def)

lemma dh_trigger_simps [simp]:
  "inner (dh_trigger m) = inner m" "max_timeout (dh_trigger m) = max_timeout m" "worker (dh_trigger m) = worker m"
  by (simp_all add: dh_trigger_def)

lemma calculate_timeout_le:
  "calculate_timeout_from_message_latency rnd l x mx = Inr t \<Longrightarrow> t \<le> mx"
  "calculate_timeout_from_ping_latency rnd l pt x mx = Inr t \<Longrightarrow> t \<le> mx"
  by (auto simp: calculate_timeout_from_message_latency_def calculate_timeout_from_ping_latency_def rbind_Inr_iff)

lemma check_loop_sub:
  "check_loop clock t q ex act = (q', ex', act') \<Longrightarrow>
   set q' \<subseteq> set q \<and> set ex' \<subseteq> set ex \<union> pw_cid ` set q \<and> (\<forall>c. map_of act c \<noteq> None \<longrightarrow> c \<notin> pw_cid ` set q \<longrightarrow> map_of act' c \<noteq> None)"
proof (induction clock t q ex act rule: check_loop.induct)
  case (2 clock t pw q ex act)
  show ?case
  proof (cases "pw_active pw")
    case active: True
    show ?thesis
    proof (cases "clock (length q) - pw_sent pw < t")
      case True
      then show ?thesis using 2(3) active by auto
    next
      case False
      from 2(1) [OF active False] 2(3) active False show ?thesis by fastforce
    qed
  next
    case False
    from 2(2) [OF False] 2(3) False show ?thesis by auto
  qed
qed simp

lemma check_for_timeouts_sub:
  assumes "check_for_timeouts clock now i = (next, expired, i')"
  shows "set (want_queue i') \<subseteq> set (want_queue i)" "set expired \<subseteq> queued i" "dh_timeout i' = dh_timeout i"
    "map_of (active_wants i) c \<noteq> None \<Longrightarrow> c \<notin> queued i \<Longrightarrow> map_of (active_wants i') c \<noteq> None"
proof -
  obtain q ex act where l: "check_loop clock (dh_timeout i) (rev (want_queue i)) [] (active_wants i) = (q, ex, act)"
    by (metis prod_cases3)
  note sub = check_loop_sub [OF l]
  show "set (want_queue i') \<subseteq> set (want_queue i)" "set expired \<subseteq> queued i" "dh_timeout i' = dh_timeout i"
    using assms l sub by (auto simp: check_for_timeouts_def Let_def split: if_splits)
  show "map_of (active_wants i) c \<noteq> None \<Longrightarrow> c \<notin> queued i \<Longrightarrow> map_of (active_wants i') c \<noteq> None"
    using assms l sub by (auto simp: check_for_timeouts_def Let_def split: if_splits)
qed

lemma add_pending_fold:
  "set (want_queue (fold (add_pending_one start) pending i)) \<subseteq>
     set (want_queue i) \<union> {pw. pw_active pw \<and> pw_cid pw \<in> set pending \<and> map_of (active_wants i) (pw_cid pw) = None} \<and>
   dh_timeout (fold (add_pending_one start) pending i) = dh_timeout i \<and>
   (\<forall>c. map_of (active_wants i) c \<noteq> None \<longrightarrow> map_of (active_wants (fold (add_pending_one start) pending i)) c \<noteq> None)"
proof (induction pending arbitrary: i)
  case (Cons c pending)
  have one: "set (want_queue (add_pending_one start c i)) \<subseteq> set (want_queue i) \<union>
      {pw. pw_active pw \<and> pw_cid pw = c \<and> map_of (active_wants i) (pw_cid pw) = None}"
    "dh_timeout (add_pending_one start c i) = dh_timeout i"
    "\<And>d. map_of (active_wants i) d \<noteq> None \<Longrightarrow> map_of (active_wants (add_pending_one start c i)) d \<noteq> None"
    by (auto simp: add_pending_one_def Let_def)
  show ?case using Cons.IH [of "add_pending_one start c i"] one by (simp, blast)
qed simp

section \<open>Every step\<close>

fun dh_added :: "'cid dh_event \<Rightarrow> 'cid set" where
  "dh_added (DhAdd start pending) = set pending"
| "dh_added _ = {}"

fun dh_cancels :: "'cid dh_event \<Rightarrow> 'cid set" where
  "dh_cancels (DhCancel cs) = set cs"
| "dh_cancels _ = {}"

text \<open>A step that does not cancel a key queues a key only if it adds it and it is not active, and keeps it active
  unless it is queued.\<close>

definition dh_step_ok ::
  "'cid dh_event \<Rightarrow> ('cid, 'peer) DontHaveTimeoutManager \<Rightarrow> 'cid list \<Rightarrow> ('cid, 'peer) DontHaveTimeoutManager \<Rightarrow> bool" where
  "dh_step_ok e m fired m' \<longleftrightarrow>
     (dh_inv m \<longrightarrow> dh_inv m') \<and> set fired \<subseteq> queued (inner m) \<and>
     queued (inner m') \<subseteq> queued (inner m) \<union> {c \<in> dh_added e. map_of (active_wants (inner m)) c = None} \<and>
     (\<forall>c. map_of (active_wants (inner m)) c \<noteq> None \<longrightarrow> c \<notin> queued (inner m) \<union> dh_cancels e \<longrightarrow>
        map_of (active_wants (inner m')) c \<noteq> None)"

lemma dh_step_okI:
  assumes "check_for_timeouts clock now (inner m) = (next, fired, i)" "inner m' = i" "max_timeout m' = max_timeout m"
  shows "dh_step_ok e m fired m'"
proof -
  note sub = check_for_timeouts_sub [OF assms(1)]
  have "dh_inv m \<Longrightarrow> dh_inv m'" using sub(1,3) assms(2,3) by (auto simp: dh_inv_def list_all_iff)
  then show ?thesis using sub(1,2,4) assms(2) by (auto simp: dh_step_ok_def)
qed

lemma dh_step_ok_same: "inner m' = inner m \<Longrightarrow> max_timeout m' = max_timeout m \<Longrightarrow> dh_step_ok e m [] m'"
  by (simp add: dh_step_ok_def dh_inv_def)

lemma dh_step_ok_timeout:
  "inner m' = (inner m)\<lparr>message_latency := l, dh_timeout := t\<rparr> \<Longrightarrow> max_timeout m' = max_timeout m \<Longrightarrow>
   (dh_inv m \<Longrightarrow> t \<le> MAX_TIMEOUT) \<Longrightarrow> dh_step_ok e m [] m'"
  by (simp add: dh_step_ok_def dh_inv_def)

lemma dh_step_sound: "dh_step rnd e m = Inr (fired, m') \<Longrightarrow> dh_step_ok e m fired m'"
proof (cases e)
  case (DhLatency elapsed)
  assume "dh_step rnd e m = Inr (fired, m')"
  then obtain l t where lt: "calculate_timeout_from_message_latency rnd (ewma_latency l) (message_latency_multiplier m) (max_timeout m) = Inr t"
    and m': "inner m' = (inner m)\<lparr>message_latency := l, dh_timeout := t\<rparr>" "max_timeout m' = max_timeout m" "fired = []"
    using DhLatency by (auto simp: update_message_latency_def rbind_Inr_iff Let_def split: if_splits)
  have "dh_inv m \<Longrightarrow> t \<le> MAX_TIMEOUT" using calculate_timeout_le(1) [OF lt] by (simp add: dh_inv_def)
  with dh_step_ok_timeout [OF m'(1,2), of e] m'(3) show ?thesis by simp
next
  case (DhAdd start pending)
  assume s: "dh_step rnd e m = Inr (fired, m')"
  let ?i = "fold (add_pending_one start) pending (inner m)"
  have m': "inner m' = ?i" "max_timeout m' = max_timeout m" "fired = []"
    using s DhAdd by (auto simp: add_pending_def Let_def)
  have "dh_inv m \<Longrightarrow> dh_inv m'"
    using add_pending_fold [of start pending "inner m"] m' by (auto simp: dh_inv_def list_all_iff)
  then show ?thesis using add_pending_fold [of start pending "inner m"] m' DhAdd
    by (auto simp: dh_step_ok_def)
next
  case (DhCancel cs)
  assume "dh_step rnd e m = Inr (fired, m')"
  then show ?thesis using DhCancel by (auto simp: dh_step_ok_def cancel_pending_def dh_inv_def)
next
  case (DhPing ping now)
  assume s: "dh_step rnd e m = Inr (fired, m')"
  show ?thesis
  proof (cases "inner m' = inner m")
    case True
    then show ?thesis using s DhPing dh_step_ok_same [of m' m e]
      by (auto simp: worker_ping_def rbind_Inr_iff Let_def split: if_splits option.splits)
  next
    case False
    then obtain l t where "calculate_timeout_from_ping_latency rnd l MAX_EXPECTED_WANT_PROCESS_TIME
        PING_LATENCY_MULTIPLIER MAX_TIMEOUT = Inr t" and m': "inner m' = (inner m)\<lparr>dh_timeout := t\<rparr>"
      "max_timeout m' = max_timeout m" "fired = []"
      using s DhPing by (auto simp: worker_ping_def rbind_Inr_iff Let_def split: if_splits option.splits)
    then have "t \<le> MAX_TIMEOUT" using calculate_timeout_le(2) by blast
    with m' show ?thesis by (simp add: dh_step_ok_def dh_inv_def)
  qed
next
  case (DhTrigger clock now)
  assume s: "dh_step rnd e m = Inr (fired, m')"
  obtain nx ex i where c: "check_for_timeouts clock now (inner m) = (nx, ex, i)" by (metis prod_cases3)
  show ?thesis using s DhTrigger c dh_step_okI [OF c, of m' e] dh_step_ok_same [of m' m e]
    by (auto simp: worker_trigger_def Let_def split: option.splits dh_worker.splits if_splits)
next
  case (DhDelay clock now)
  assume s: "dh_step rnd e m = Inr (fired, m')"
  obtain nx ex i where c: "check_for_timeouts clock now (inner m) = (nx, ex, i)" by (metis prod_cases3)
  show ?thesis using s DhDelay c dh_step_okI [OF c, of m' e] dh_step_ok_same [of m' m e]
    by (auto simp: worker_delay_def Let_def split: option.splits dh_worker.splits if_splits)
qed (auto simp: dh_start_def dh_stop_def intro!: dh_step_ok_same split: if_splits)

lemma dh_run_sound:
  "dh_run rnd es m = Inr (fired, m') \<Longrightarrow>
   (dh_inv m \<longrightarrow> dh_inv m') \<and> set fired \<union> queued (inner m') \<subseteq> queued (inner m) \<union> (\<Union>e\<in>set es. dh_added e)"
proof (induction es arbitrary: m fired)
  case (Cons e es)
  then obtain f1 m1 f2 where one: "dh_step rnd e m = Inr (f1, m1)" and two: "dh_run rnd es m1 = Inr (f2, m')"
    and fired: "fired = f1 @ f2"
    by (auto simp: rbind_Inr_iff)
  have i: "dh_inv m \<longrightarrow> dh_inv m1" and f1: "set f1 \<subseteq> queued (inner m)" and m1: "queued (inner m1) \<subseteq> queued (inner m) \<union> dh_added e"
    using dh_step_sound [OF one] by (simp_all add: dh_step_ok_def, blast+)
  have "set fired \<union> queued (inner m') \<subseteq> set f1 \<union> queued (inner m1) \<union> (\<Union>e\<in>set es. dh_added e)"
    using Cons.IH [OF two] fired by auto
  also have "\<dots> \<subseteq> queued (inner m) \<union> (\<Union>e\<in>set (e # es). dh_added e)"
    using Un_mono [OF Un_least [OF subset_trans [OF f1 Un_upper1] m1] subset_refl [of "\<Union>e\<in>set es. dh_added e"]]
    by (simp add: Un_assoc)
  finally show ?case using Cons.IH [OF two] i by simp
qed simp

lemma dh_run_lost:
  assumes "dh_run rnd es m = Inr (fired, m')" "map_of (active_wants (inner m)) c \<noteq> None" "c \<notin> queued (inner m)"
    "c \<notin> (\<Union>e\<in>set es. dh_cancels e)"
  shows "c \<notin> set fired"
  using assms
proof (induction es arbitrary: m fired)
  case (Cons e es)
  from Cons.prems(1) obtain f1 m1 f2 where one: "dh_step rnd e m = Inr (f1, m1)" and two: "dh_run rnd es m1 = Inr (f2, m')"
    and fired: "fired = f1 @ f2"
    by (auto simp: rbind_Inr_iff)
  note ok = dh_step_sound [OF one]
  have "map_of (active_wants (inner m1)) c \<noteq> None" "c \<notin> queued (inner m1)" "c \<notin> set f1"
    using ok Cons.prems(2-4) by (auto simp: dh_step_ok_def)
  with Cons.IH [OF two] Cons.prems(4) fired show ?case by auto
qed simp

lemma check_loop_constant:
  "list_all pw_active q \<Longrightarrow>
   fst (snd (check_loop (\<lambda>_. now) t q ex act)) = ex @ map pw_cid (takeWhile (\<lambda>pw. t \<le> now - pw_sent pw) q)"
  by (induction q arbitrary: ex act) auto

lemma takeWhile_all_or_none:
  "sorted_wrt (\<lambda>a b. (P a \<longrightarrow> P b)) (x # xs) \<Longrightarrow> takeWhile P (x # xs) = (if P x then x # xs else [])"
  by (auto simp: takeWhile_eq_all_conv)

section \<open>Properties\<close>

text \<open>C31: Whatever happens to the manager, its timeout never exceeds the maximum, whatever the floating point
  rounding, and only keys that were added time out.\<close>

theorem timeouts_bounded:
  "case dh_run rnd es (DontHaveTimeoutManager_new target) of
     Inl e \<Rightarrow> e = Overflow \<or> e = OutOfRange
   | Inr (fired, m) \<Rightarrow> dh_timeout (inner m) \<le> MAX_TIMEOUT \<and> set fired \<subseteq> (\<Union>e\<in>set es. dh_added e)"
proof (cases "dh_run rnd es (DontHaveTimeoutManager_new target)")
  case (Inr r)
  then show ?thesis using dh_run_sound [of rnd es "DontHaveTimeoutManager_new target"] dh_inv_new [of target]
    by (cases r) (auto simp: dh_inv_def DontHaveTimeoutManager_new_def)
next
  case (Inl e)
  have "dh_step rnd x m = Inl e \<Longrightarrow> e = Overflow \<or> e = OutOfRange" for x and m :: "('a, 'b) DontHaveTimeoutManager"
    by (cases x) (auto simp: update_message_latency_def LatencyEwma_update_def worker_ping_def Let_def from_secs_f64_def
        calculate_timeout_from_message_latency_def calculate_timeout_from_ping_latency_def rbind_Inl_iff
        split: if_splits option.splits)
  then have "dh_run rnd es m = Inl e \<Longrightarrow> e = Overflow \<or> e = OutOfRange" for m :: "('a, 'b) DontHaveTimeoutManager"
    by (induction es arbitrary: m) (auto simp: rbind_Inl_iff)
  with Inl show ?thesis by simp
qed

text \<open>C32: A check looks at the newest want first: in a queue ordered by the time of sending, either every queued
  want has expired and all of them time out, or none does, however many of them are overdue. Cancelling keys changes
  nothing about which keys time out.\<close>

theorem check_all_or_nothing:
  assumes "want_queue i = q @ [newest]" "list_all pw_active (want_queue i)"
    and "sorted_wrt (\<lambda>a b. pw_sent a \<le> pw_sent b) (want_queue i)"
  shows "fst (snd (check_for_timeouts (\<lambda>_. now) now i)) =
           (if dh_timeout i \<le> now - pw_sent newest then map pw_cid (rev (want_queue i)) else []) \<and>
         fst (snd (check_for_timeouts clock now (inner (cancel_pending cs (m\<lparr>inner := i\<rparr>))))) =
           fst (snd (check_for_timeouts clock now i))"
proof (rule conjI)
  let ?P = "\<lambda>pw. dh_timeout i \<le> now - pw_sent pw"
  have "sorted_wrt (\<lambda>a b. ?P b \<longrightarrow> ?P a) (want_queue i)"
    by (rule sorted_wrt_mono_rel [OF _ assms(3)]) auto
  then have "sorted_wrt (\<lambda>a b. ?P a \<longrightarrow> ?P b) (newest # rev q)"
    using assms(1) by (simp add: sorted_wrt_rev sorted_wrt_append)
  from takeWhile_all_or_none [OF this]
  have tw: "takeWhile ?P (rev (want_queue i)) = (if ?P newest then rev (want_queue i) else [])"
    using assms(1) by simp
  have "list_all pw_active (rev (want_queue i))" using assms(2) by (simp add: list_all_iff)
  from check_loop_constant [OF this, of now "dh_timeout i" "[]" "active_wants i"] tw
  show "fst (snd (check_for_timeouts (\<lambda>_. now) now i)) =
           (if dh_timeout i \<le> now - pw_sent newest then map pw_cid (rev (want_queue i)) else [])"
    using assms(1) by (auto simp: check_for_timeouts_def Let_def split: prod.splits)
  have "fst (snd (check_loop clock t qs ex act)) = fst (snd (check_loop clock t qs ex act'))" for t qs ex act act'
    by (induction qs arbitrary: ex act act') auto
  then show "fst (snd (check_for_timeouts clock now (inner (cancel_pending cs (m\<lparr>inner := i\<rparr>))))) =
           fst (snd (check_for_timeouts clock now i))"
    by (simp add: check_for_timeouts_def cancel_pending_def Let_def case_prod_unfold) blast
qed

definition sample_inner :: "(nat, unit) dh_Inner" where
  "sample_inner =
     \<lparr>dh_target = (), active_wants = [(1, \<lparr>pw_cid = 1, pw_active = True, pw_sent = 0\<rparr>),
        (2, \<lparr>pw_cid = 2, pw_active = True, pw_sent = 9\<rparr>)],
      want_queue = [\<lparr>pw_cid = 1, pw_active = True, pw_sent = 0\<rparr>, \<lparr>pw_cid = 2, pw_active = True, pw_sent = 9\<rparr>],
      dh_timeout = 5, message_latency = \<lparr>ewma_alpha = 1 / 2, ewma_samples = 0, ewma_latency = 0\<rparr>\<rparr>"

theorem check_all_or_nothing_witness:
  "fst (snd (check_for_timeouts (\<lambda>_. 10) 10 sample_inner)) = [] \<and>
   fst (snd (check_for_timeouts (\<lambda>_. 14) 14 sample_inner)) = [2, 1]"
proof -
  let ?q = "[\<lparr>pw_cid = 1, pw_active = True, pw_sent = 0\<rparr>]" and ?n = "\<lparr>pw_cid = 2, pw_active = True, pw_sent = 9\<rparr>"
  have h: "want_queue sample_inner = ?q @ [?n]" "list_all pw_active (want_queue sample_inner)"
    "sorted_wrt (\<lambda>a b. pw_sent a \<le> pw_sent b) (want_queue sample_inner)"
    by (simp_all add: sample_inner_def)
  show ?thesis
    using check_all_or_nothing [OF h, of 10] check_all_or_nothing [OF h, of 14]
    by (simp add: sample_inner_def)
qed

text \<open>C33: A want that is the newest of the queue and has not expired when the queue is checked never times out:
  the check takes it out of the queue and leaves it active, so that no later addition queues it again, until it is
  cancelled.\<close>

theorem unexpired_want_is_lost:
  assumes "want_queue (inner m) = q @ [pw]" "pw_active pw" "pw_cid pw \<notin> pw_cid ` set q"
    and "map_of (active_wants (inner m)) (pw_cid pw) \<noteq> None" "clock (length q) - pw_sent pw < dh_timeout (inner m)"
    and "dh_run rnd es (m\<lparr>inner := snd (snd (check_for_timeouts clock now (inner m)))\<rparr>) = Inr (fired, m')"
    and "pw_cid pw \<notin> (\<Union>e\<in>set es. dh_cancels e)"
  shows "pw_cid pw \<notin> set fired"
proof (rule dh_run_lost [OF assms(6) _ _ assms(7)])
  show "pw_cid pw \<notin> queued (inner (m\<lparr>inner := snd (snd (check_for_timeouts clock now (inner m)))\<rparr>))"
    using assms(1,2,3,5) by (simp add: check_for_timeouts_def Let_def)
  show "map_of (active_wants (inner (m\<lparr>inner := snd (snd (check_for_timeouts clock now (inner m)))\<rparr>))) (pw_cid pw) \<noteq> None"
    using assms(1,2,4,5) by (simp add: check_for_timeouts_def Let_def)
qed

theorem unexpired_want_is_lost_witness:
  "let m = (DontHaveTimeoutManager_new ())\<lparr>worker := Some (Looping 0), inner := sample_inner\<rparr>;
       m1 = m\<lparr>inner := snd (snd (check_for_timeouts (\<lambda>_. 10) 10 (inner m)))\<rparr>
   in (case dh_run (\<lambda>x. x) [DhAdd 12 [2], DhDelay (\<lambda>_. 100) 100] m1 of
         Inl e \<Rightarrow> False | Inr (fired, m') \<Rightarrow> 1 \<in> set fired \<and> 2 \<notin> set fired)"
proof -
  let ?m = "(DontHaveTimeoutManager_new ())\<lparr>worker := Some (Looping 0), inner := sample_inner\<rparr>"
  let ?m1 = "?m\<lparr>inner := snd (snd (check_for_timeouts (\<lambda>_. 10) 10 (inner ?m)))\<rparr>"
  let ?es = "[DhAdd 12 [2], DhDelay (\<lambda>_. 100) 100]"
  let ?q = "[\<lparr>pw_cid = 1, pw_active = True, pw_sent = 0\<rparr>]" and ?n = "\<lparr>pw_cid = 2, pw_active = True, pw_sent = 9\<rparr>"
  obtain m' where run: "dh_run (\<lambda>x. x) ?es ?m1 = Inr ([1], m')"
    by (simp add: sample_inner_def check_for_timeouts_def add_pending_def add_pending_one_def worker_delay_def Let_def)
  have "(2::nat) \<notin> set [1]"
    using unexpired_want_is_lost [of ?m ?q ?n "\<lambda>_. 10" "\<lambda>x. x" ?es 10 "[1]" m'] run
    by (simp add: sample_inner_def)
  then show ?thesis unfolding Let_def run by simp
qed

end
