(* ===== verification/Message_Queue.thy ===== *)
theory Message_Queue
  imports Wantlist Bitswap_Message Dont_Have_Timeout
begin

text \<open>
  The message queue of one peer (\<open>client/message_queue.rs\<close>, \<open>client/message_queue/wantlist.rs\<close>): the
  wants and cancels that wait to be sent, their packing into messages of bounded size, and the
  event loop that decides when to send. It uses the wantlist, the bitswap message and the
  timeout manager of the theories it imports.

  The hash set of cancels is a list without duplicates. The network is an argument of the
  handlers: whether a sender for the peer can be made, whether it supports want-haves and whether
  sending succeeds. A handler reads the clock once. The event loop may handle any event that is
  ready; the order in which the \<open>select\<close> prefers them is not used.
\<close>

section \<open>Wants that are remembered after they are sent\<close>

record 'cid RecallWantlist =
  rw_pending :: "'cid Wantlist"
  rw_sent :: "'cid Wantlist"
  rw_sent_at :: "('cid, nat) hmap"

definition RecallWantlist_default :: "'cid RecallWantlist" where
  "RecallWantlist_default = \<lparr>rw_pending = Wantlist_default, rw_sent = Wantlist_default, rw_sent_at = []\<rparr>"

definition RecallWantlist_add :: "'cid \<Rightarrow> int \<Rightarrow> WantType \<Rightarrow> 'cid RecallWantlist \<Rightarrow> 'cid RecallWantlist" where
  "RecallWantlist_add cid priority want_type rw =
     rw\<lparr>rw_pending := snd (Wantlist_add cid priority want_type (rw_pending rw))\<rparr>"

definition RecallWantlist_remove :: "'cid \<Rightarrow> 'cid RecallWantlist \<Rightarrow> 'cid RecallWantlist" where
  "RecallWantlist_remove cid rw =
     rw\<lparr>rw_pending := snd (Wantlist_remove cid (rw_pending rw)), rw_sent := snd (Wantlist_remove cid (rw_sent rw)),
        rw_sent_at := AList.delete cid (rw_sent_at rw)\<rparr>"

definition RecallWantlist_remove_type :: "'cid \<Rightarrow> WantType \<Rightarrow> 'cid RecallWantlist \<Rightarrow> 'cid RecallWantlist" where
  "RecallWantlist_remove_type cid want_type rw =
     (let rw1 = rw\<lparr>rw_pending := snd (Wantlist_remove_type cid want_type (rw_pending rw))\<rparr>;
          (removed, sent) = Wantlist_remove_type cid want_type (rw_sent rw1);
          rw2 = rw1\<lparr>rw_sent := sent\<rparr>
      in if removed \<noteq> None then rw2\<lparr>rw_sent_at := AList.delete cid (rw_sent_at rw2)\<rparr> else rw2)"

definition mark_sent :: "'cid Entry \<Rightarrow> 'cid RecallWantlist \<Rightarrow> bool \<times> 'cid RecallWantlist" where
  "mark_sent e rw =
     (case Wantlist_remove_type (e_cid e) (e_want_type e) (rw_pending rw) of
        (None, pending) \<Rightarrow> (False, rw\<lparr>rw_pending := pending\<rparr>)
      | (Some _, pending) \<Rightarrow>
          (True, rw\<lparr>rw_pending := pending, rw_sent := snd (Wantlist_add (e_cid e) (e_priority e) (e_want_type e) (rw_sent rw))\<rparr>))"

definition clear_sent_at :: "'cid \<Rightarrow> 'cid RecallWantlist \<Rightarrow> 'cid RecallWantlist" where
  "clear_sent_at cid rw = rw\<lparr>rw_sent_at := AList.delete cid (rw_sent_at rw)\<rparr>"

definition sent_at :: "'cid \<Rightarrow> nat \<Rightarrow> 'cid RecallWantlist \<Rightarrow> 'cid RecallWantlist" where
  "sent_at cid since rw =
     (if \<not> Wantlist_contains (rw_sent rw) cid then rw\<lparr>rw_sent_at := AList.update cid since (rw_sent_at rw)\<rparr> else rw)"

record 'cid Wants =
  bcst_wants :: "'cid RecallWantlist"
  peer_wants :: "'cid RecallWantlist"
  cancels :: "'cid list"
  w_priority :: int

definition pending_work_count :: "'cid Wants \<Rightarrow> nat" where
  "pending_work_count w =
     Wantlist_len (rw_pending (bcst_wants w)) + Wantlist_len (rw_pending (peer_wants w)) + length (cancels w)"

definition has_pending_work :: "'cid Wants \<Rightarrow> bool" where
  "has_pending_work w \<longleftrightarrow> pending_work_count w > 0"

section \<open>The actor\<close>

datatype 'cid WantsUpdate =
    BroadcastWantHaves "'cid list"
  | UpdateWants "'cid list" "'cid list"
  | Cancels "'cid list"

record Config =
  max_message_size :: nat
  send_error_backof :: nat
  max_valid_latency :: nat
  max_priority :: int
  rebroadcast_interval :: nat
  send_message_max_delay :: nat
  send_message_cutoff :: nat
  send_message_debounce :: nat
  send_timeout :: nat
  max_retries :: nat

definition Config_default :: Config where
  "Config_default =
     \<lparr>max_message_size = 1024 * 1024 * 2, send_error_backof = 100000000, max_valid_latency = 30 * ns_per_s,
      max_priority = 2 ^ 31 - 1, rebroadcast_interval = 30 * ns_per_s, send_message_max_delay = 20000000,
      send_message_cutoff = 256, send_message_debounce = 1000000, send_timeout = 30 * ns_per_s, max_retries = 3\<rparr>"

text \<open>A sender is represented by whether it supports want-haves.\<close>

record ('cid, 'peer) MessageQueueActor =
  mq_peer :: 'peer
  mq_config :: Config
  mq_wants :: "'cid Wants"
  dh_timeout_manager :: "('cid, 'peer) DontHaveTimeoutManager"
  outgoing_work :: "nat list"
  mq_sender :: "bool option"

record mq_env =
  env_now :: nat
  env_sender :: "bool option"
  env_send_ok :: bool

definition MessageQueueActor_new :: "Config \<Rightarrow> 'peer \<Rightarrow> ('cid, 'peer) MessageQueueActor" where
  "MessageQueueActor_new config peer =
     \<lparr>mq_peer = peer, mq_config = config,
      mq_wants = \<lparr>bcst_wants = RecallWantlist_default, peer_wants = RecallWantlist_default, cancels = [],
                  w_priority = max_priority config\<rparr>,
      dh_timeout_manager = DontHaveTimeoutManager_new peer, outgoing_work = [], mq_sender = None\<rparr>"

text \<open>The channel of outgoing work holds two instants; a third is dropped.\<close>

definition signal_work :: "nat \<Rightarrow> ('cid, 'peer) MessageQueueActor \<Rightarrow> ('cid, 'peer) MessageQueueActor" where
  "signal_work now s = (if length (outgoing_work s) < 2 then s\<lparr>outgoing_work := outgoing_work s @ [now]\<rparr> else s)"

definition decr_i32 :: "int \<Rightarrow> int checked" where
  "decr_i32 p = (if p - 1 < - (2 ^ 31) then Inl Overflow else Inr (p - 1))"

definition add_bcst_want :: "'cid \<Rightarrow> 'cid Wants \<Rightarrow> 'cid Wants checked" where
  "add_bcst_want cid w =
     rbind (decr_i32 (w_priority w)) (\<lambda>p.
       Inr (w\<lparr>bcst_wants := RecallWantlist_add cid (w_priority w) WantType_Have (bcst_wants w),
              w_priority := p, cancels := removeAll cid (cancels w)\<rparr>))"

definition add_peer_want :: "WantType \<Rightarrow> 'cid \<Rightarrow> 'cid Wants \<Rightarrow> 'cid Wants checked" where
  "add_peer_want want_type cid w =
     rbind (decr_i32 (w_priority w)) (\<lambda>p.
       Inr (w\<lparr>peer_wants := RecallWantlist_add cid (w_priority w) want_type (peer_wants w),
              w_priority := p, cancels := removeAll cid (cancels w)\<rparr>))"

fun for_each :: "('x \<Rightarrow> 's \<Rightarrow> 's checked) \<Rightarrow> 'x list \<Rightarrow> 's \<Rightarrow> 's checked" where
  "for_each f [] s = Inr s"
| "for_each f (x # xs) s = rbind (f x s) (for_each f xs)"

definition cancel_want_one :: "'cid \<Rightarrow> bool \<times> 'cid Wants \<Rightarrow> bool \<times> 'cid Wants" where
  "cancel_want_one cid = (\<lambda>(work_ready, w).
     (let was_sent_bcst = Wantlist_contains (rw_sent (bcst_wants w)) cid;
          was_sent_peer = Wantlist_contains (rw_sent (peer_wants w)) cid;
          w' = w\<lparr>bcst_wants := RecallWantlist_remove cid (bcst_wants w),
                 peer_wants := RecallWantlist_remove cid (peer_wants w)\<rparr>
      in if was_sent_bcst \<or> was_sent_peer then (True, w'\<lparr>cancels := List.insert cid (cancels w')\<rparr>)
         else (work_ready, w')))"

fun handle_wants_update ::
  "mq_env \<Rightarrow> 'cid WantsUpdate \<Rightarrow> ('cid, 'peer) MessageQueueActor \<Rightarrow> ('cid, 'peer) MessageQueueActor checked" where
  "handle_wants_update env (BroadcastWantHaves want_haves) s =
     rbind (for_each add_bcst_want want_haves (mq_wants s)) (\<lambda>w. Inr (signal_work (env_now env) (s\<lparr>mq_wants := w\<rparr>)))"
| "handle_wants_update env (UpdateWants want_blocks want_haves) s =
     rbind (for_each (add_peer_want WantType_Have) want_haves (mq_wants s)) (\<lambda>w1.
     rbind (for_each (add_peer_want WantType_Block) want_blocks w1) (\<lambda>w2.
       Inr (signal_work (env_now env) (s\<lparr>mq_wants := w2\<rparr>))))"
| "handle_wants_update env (Cancels cs) s =
     (let s1 = s\<lparr>dh_timeout_manager := cancel_pending cs (dh_timeout_manager s)\<rparr>;
          (work_ready, w) = fold cancel_want_one cs (False, mq_wants s1);
          s2 = s1\<lparr>mq_wants := w\<rparr>
      in Inr (if work_ready then signal_work (env_now env) s2 else s2))"

section \<open>Packing a message\<close>

text \<open>
  The loops that add to the message share their shape: add, count, and stop once the message
  has reached the size limit. The result is the number of items added, whether the limit was
  reached, the size and the message.
\<close>

fun fill_message :: "('x \<Rightarrow> 'm \<Rightarrow> nat \<times> 'm) \<Rightarrow> nat \<Rightarrow> 'x list \<Rightarrow> nat \<Rightarrow> 'm \<Rightarrow> nat \<times> bool \<times> nat \<times> 'm" where
  "fill_message add limit [] sz m = (0, False, sz, m)"
| "fill_message add limit (x # xs) sz m =
     (let (n, m') = add x m; sz' = sz + n
      in if sz' \<ge> limit then (1, True, sz', m')
         else let (k, d, sz'', m'') = fill_message add limit xs sz' m' in (Suc k, d, sz'', m''))"

text \<open>Without support for want-haves the peer's want-haves are dropped.\<close>

fun drop_want_haves :: "'cid Entry list \<Rightarrow> 'cid RecallWantlist \<Rightarrow> 'cid Entry list \<times> 'cid RecallWantlist" where
  "drop_want_haves [] rw = ([], rw)"
| "drop_want_haves (e # es) rw =
     (if e_want_type e = WantType_Have
      then drop_want_haves es (RecallWantlist_remove_type (e_cid e) WantType_Have rw)
      else let (es', rw') = drop_want_haves es rw in (e # es', rw'))"

definition collect_pending :: "bool \<Rightarrow> 'cid Wants \<Rightarrow> 'cid Entry list \<times> 'cid Entry list \<times> 'cid list \<times> 'cid Wants" where
  "collect_pending supports_have w =
     (let (pe0, pending) = Wantlist_entries (rw_pending (peer_wants w));
          peer1 = (peer_wants w)\<lparr>rw_pending := pending\<rparr>;
          (pe, peer2) = (if supports_have then (pe0, peer1) else drop_want_haves pe0 peer1);
          (be, bpending) = Wantlist_entries (rw_pending (bcst_wants w))
      in (pe, be, cancels w, w\<lparr>peer_wants := peer2, bcst_wants := (bcst_wants w)\<lparr>rw_pending := bpending\<rparr>\<rparr>))"

definition pack_message ::
  "('cid MEntry \<Rightarrow> nat) \<Rightarrow> nat \<Rightarrow> bool \<Rightarrow> 'cid Entry list \<Rightarrow> 'cid Entry list \<Rightarrow> 'cid list \<Rightarrow>
   nat \<times> nat \<times> nat \<times> ('cid, 'b) BitswapMessage" where
  "pack_message len limit supports_have pe be cs =
     (let (sent_cancels, done1, size1, m1) = fill_message (BitswapMessage_cancel len) limit cs 0 (BitswapMessage_new False);
          (sent_peer, done2, size2, m2) =
            (if done1 then (0, True, size1, m1)
             else fill_message (\<lambda>e. add_entry len (e_cid e) (e_priority e) (e_want_type e) True) limit pe size1 m1);
          (sent_bcst, done3, size3, m3) =
            (if done2 then (0, True, size2, m2)
             else fill_message (\<lambda>e. add_entry len (e_cid e) (e_priority e)
                      (if supports_have then WantType_Have else WantType_Block) False) limit be size2 m2)
      in (sent_cancels, sent_peer, sent_bcst, m3))"

fun retain_marked ::
  "'cid Entry list \<Rightarrow> 'cid RecallWantlist \<Rightarrow> ('cid, 'b) BitswapMessage \<Rightarrow>
   'cid Entry list \<times> 'cid RecallWantlist \<times> ('cid, 'b) BitswapMessage" where
  "retain_marked [] rw m = ([], rw, m)"
| "retain_marked (e # es) rw m =
     (let (marked, rw') = mark_sent e rw
      in if \<not> marked then retain_marked es rw' (BitswapMessage_remove (e_cid e) m)
         else let (es', rw'', m') = retain_marked es rw' m in (e # es', rw'', m'))"

fun commit_cancels :: "'cid list \<Rightarrow> 'cid list \<Rightarrow> ('cid, 'b) BitswapMessage \<Rightarrow> 'cid list \<times> ('cid, 'b) BitswapMessage" where
  "commit_cancels [] cs m = (cs, m)"
| "commit_cancels (c # sent) cs m =
     (if c \<notin> set cs then commit_cancels sent cs (BitswapMessage_remove c m)
      else commit_cancels sent (removeAll c cs) m)"

definition sender_of :: "mq_env \<Rightarrow> ('cid, 'peer) MessageQueueActor \<Rightarrow> bool option" where
  "sender_of env s = (if mq_sender s = None then env_sender env else mq_sender s)"

text \<open>Returns nothing if no sender can be made.\<close>

definition extract_outgoing_message ::
  "('cid MEntry \<Rightarrow> nat) \<Rightarrow> mq_env \<Rightarrow> ('cid, 'peer) MessageQueueActor \<Rightarrow>
   (('cid, 'b) BitswapMessage \<times> 'cid Entry list \<times> 'cid Entry list) option \<times> ('cid, 'peer) MessageQueueActor" where
  "extract_outgoing_message len env s =
     (case sender_of env s of
        None \<Rightarrow> (None, s)
      | Some supports_have \<Rightarrow>
          (let (pe, be, cs, w) = collect_pending supports_have (mq_wants s);
               (sent_cancels, sent_peer, sent_bcst, m) =
                 pack_message len (max_message_size (mq_config s)) supports_have pe be cs;
               (pe', peer, m1) = retain_marked (take sent_peer pe) (peer_wants w) m;
               (be', bcst, m2) = retain_marked (take sent_bcst be) (bcst_wants w) m1;
               (cs', m3) = commit_cancels (take sent_cancels cs) (cancels w) m2
           in (Some (m3, pe', be'),
               s\<lparr>mq_sender := Some supports_have,
                 mq_wants := w\<lparr>peer_wants := peer, bcst_wants := bcst, cancels := cs'\<rparr>\<rparr>)))"

section \<open>Sending and answers\<close>

definition simulate_dont_have_with_timeout ::
  "nat \<Rightarrow> 'cid MEntry list \<Rightarrow> ('cid, 'peer) MessageQueueActor \<Rightarrow> ('cid, 'peer) MessageQueueActor" where
  "simulate_dont_have_with_timeout now wl s =
     s\<lparr>dh_timeout_manager := add_pending now
         (map me_cid (filter (\<lambda>e. me_want_type e = WantType_Block \<and> me_send_dont_have e \<and>
            Wantlist_contains (rw_sent (peer_wants (mq_wants s))) (me_cid e)) wl))
         (dh_timeout_manager s)\<rparr>"

definition record_sent_at ::
  "nat \<Rightarrow> 'cid Entry list \<Rightarrow> 'cid Entry list \<Rightarrow> 'cid Wants \<Rightarrow> 'cid Wants" where
  "record_sent_at now pe be w =
     w\<lparr>peer_wants := fold (\<lambda>e. sent_at (e_cid e) now) pe (peer_wants w),
       bcst_wants := fold (\<lambda>e. sent_at (e_cid e) now) be (bcst_wants w)\<rparr>"

text \<open>Returns whether the queue must stop, the message that was sent and the new state.\<close>

definition send_message ::
  "('cid MEntry \<Rightarrow> nat) \<Rightarrow> mq_env \<Rightarrow> ('cid, 'peer) MessageQueueActor \<Rightarrow>
   bool \<times> ('cid, 'b) BitswapMessage option \<times> ('cid, 'peer) MessageQueueActor" where
  "send_message len env s =
     (let s1 = s\<lparr>dh_timeout_manager := dh_start (dh_timeout_manager s)\<rparr>
      in case extract_outgoing_message len env s1 of
           (None, s2) \<Rightarrow> (True, None, s2)
         | (Some (m, pe, be), s2) \<Rightarrow>
             (if BitswapMessage_is_empty m then (False, None, s2)
              else if \<not> env_send_ok env then (True, None, s2)
              else let s3 = s2\<lparr>mq_wants := record_sent_at (env_now env) pe be (mq_wants s2)\<rparr>;
                       s4 = simulate_dont_have_with_timeout (env_now env) (hvalues (wantlist m)) s3;
                       s5 = (if has_pending_work (mq_wants s4) then signal_work (env_now env) s4 else s4)
                   in (False, Some m, s5)))"

definition send_if_ready ::
  "('cid MEntry \<Rightarrow> nat) \<Rightarrow> mq_env \<Rightarrow> ('cid, 'peer) MessageQueueActor \<Rightarrow>
   bool \<times> ('cid, 'b) BitswapMessage option \<times> ('cid, 'peer) MessageQueueActor" where
  "send_if_ready len env s = (if has_pending_work (mq_wants s) then send_message len env s else (False, None, s))"

definition transfer_rebroadcast_wants :: "('cid, 'peer) MessageQueueActor \<Rightarrow> bool \<times> ('cid, 'peer) MessageQueueActor" where
  "transfer_rebroadcast_wants s =
     (let w = mq_wants s
      in if Wantlist_is_empty (rw_sent (bcst_wants w)) \<and> Wantlist_is_empty (rw_sent (peer_wants w)) then (False, s)
         else (True, s\<lparr>mq_wants := w\<lparr>
           bcst_wants := (bcst_wants w)\<lparr>rw_pending := Wantlist_extend (rw_sent (bcst_wants w)) (rw_pending (bcst_wants w))\<rparr>,
           peer_wants := (peer_wants w)\<lparr>rw_pending := Wantlist_extend (rw_sent (peer_wants w)) (rw_pending (peer_wants w))\<rparr>\<rparr>\<rparr>))"

definition rebroadcast_wantlist ::
  "('cid MEntry \<Rightarrow> nat) \<Rightarrow> mq_env \<Rightarrow> ('cid, 'peer) MessageQueueActor \<Rightarrow>
   bool \<times> ('cid, 'b) BitswapMessage option \<times> ('cid, 'peer) MessageQueueActor" where
  "rebroadcast_wantlist len env s =
     (let (transferred, s') = transfer_rebroadcast_wants s
      in if transferred then send_message len env s' else (False, None, s'))"

definition earlier_valid :: "Config \<Rightarrow> nat \<Rightarrow> nat option \<Rightarrow> nat \<Rightarrow> bool" where
  "earlier_valid config now earliest since \<longleftrightarrow>
     (case earliest of None \<Rightarrow> True | Some e \<Rightarrow> since < e) \<and> now - since < max_valid_latency config"

definition response_one :: "Config \<Rightarrow> nat \<Rightarrow> 'cid \<Rightarrow> nat option \<times> 'cid Wants \<Rightarrow> nat option \<times> 'cid Wants" where
  "response_one config now cid = (\<lambda>(earliest, w).
     (let (earliest1, w1) =
            (case map_of (rw_sent_at (bcst_wants w)) cid of
               Some since \<Rightarrow> (if earlier_valid config now earliest since then Some since else earliest,
                          w\<lparr>bcst_wants := clear_sent_at cid (bcst_wants w)\<rparr>)
             | None \<Rightarrow> (earliest, w))
      in case map_of (rw_sent_at (peer_wants w1)) cid of
           Some since \<Rightarrow>
             (if earlier_valid config now earliest1 since
              then (Some since, w1\<lparr>peer_wants := clear_sent_at cid (peer_wants w1)\<rparr>)
              else (earliest1, w1))
         | None \<Rightarrow> (earliest1, w1)))"

definition handle_response ::
  "(rat \<Rightarrow> rat) \<Rightarrow> mq_env \<Rightarrow> 'cid list \<Rightarrow> ('cid, 'peer) MessageQueueActor \<Rightarrow> ('cid, 'peer) MessageQueueActor checked" where
  "handle_response rnd env response s =
     (let (earliest, w) = fold (response_one (mq_config s) (env_now env)) response (None, mq_wants s);
          s' = s\<lparr>mq_wants := w\<rparr>
      in case earliest of
           None \<Rightarrow> Inr s'
         | Some e \<Rightarrow>
             rbind (update_message_latency rnd (env_now env - e) (dh_timeout_manager s')) (\<lambda>m.
               Inr (s'\<lparr>dh_timeout_manager := m\<rparr>)))"

section \<open>The event loop\<close>

text \<open>The variables of \<open>run\<close>; \<open>ml_running\<close> is cleared when the loop is left.\<close>

record ('cid, 'peer) mq_loop =
  ml_actor :: "('cid, 'peer) MessageQueueActor"
  work_scheduled :: "nat option"
  schedule_work :: nat
  schedule_work_enabled :: bool
  ml_running :: bool

definition mq_loop_new :: "Config \<Rightarrow> 'peer \<Rightarrow> ('cid, 'peer) mq_loop" where
  "mq_loop_new config peer =
     \<lparr>ml_actor = MessageQueueActor_new config peer, work_scheduled = None, schedule_work = 100 * ns_per_s,
      schedule_work_enabled = False, ml_running = True\<rparr>"

datatype 'cid mq_event =
    EvWants "'cid WantsUpdate option"
  | EvResponses "'cid list option"
  | EvRebroadcast
  | EvOutgoing
  | EvScheduled
  | EvPing "nat option"
  | EvTrigger "nat \<Rightarrow> nat"
  | EvDelay "nat \<Rightarrow> nat"

datatype ('cid, 'peer, 'b) mq_output =
    SentMessage "('cid, 'b) BitswapMessage"
  | TimedOut 'peer "'cid list"

definition leave_loop :: "('cid, 'peer) mq_loop \<Rightarrow> ('cid, 'peer) mq_loop" where
  "leave_loop l =
     l\<lparr>ml_running := False,
       ml_actor := (ml_actor l)\<lparr>dh_timeout_manager := dh_stop (dh_timeout_manager (ml_actor l))\<rparr>\<rparr>"

text \<open>The end of a branch that may have tried to send.\<close>

definition after_send ::
  "bool \<times> ('cid, 'b) BitswapMessage option \<times> ('cid, 'peer) MessageQueueActor \<Rightarrow> ('cid, 'peer) mq_loop \<Rightarrow>
   ('cid, 'peer, 'b) mq_output list \<times> ('cid, 'peer) mq_loop" where
  "after_send r l =
     (case r of (fatal, m, s) \<Rightarrow>
        let l' = l\<lparr>ml_actor := s\<rparr>
        in (case m of None \<Rightarrow> [] | Some m \<Rightarrow> [SentMessage m], if fatal then leave_loop l' else l'))"

definition on_outgoing ::
  "('cid MEntry \<Rightarrow> nat) \<Rightarrow> mq_env \<Rightarrow> ('cid, 'peer) mq_loop \<Rightarrow> ('cid, 'peer, 'b) mq_output list \<times> ('cid, 'peer) mq_loop" where
  "on_outgoing len env l =
     (case outgoing_work (ml_actor l) of
        [] \<Rightarrow> ([], l)
      | when # rest \<Rightarrow>
          (let s = (ml_actor l)\<lparr>outgoing_work := rest\<rparr>;
               (first, enabled) =
                 (case work_scheduled l of
                    None \<Rightarrow> (when, schedule_work_enabled l)
                  | Some earlier \<Rightarrow> (earlier, False));
               l' = l\<lparr>ml_actor := s, work_scheduled := Some first, schedule_work_enabled := enabled\<rparr>
           in if pending_work_count (mq_wants s) > send_message_cutoff (mq_config s) \<or>
                 env_now env - first \<ge> send_message_max_delay (mq_config s)
              then let r = send_if_ready len env s
                   in after_send r (if fst r then l' else l'\<lparr>work_scheduled := None\<rparr>)
              else ([], l'\<lparr>schedule_work := env_now env + send_message_debounce (mq_config s),
                           schedule_work_enabled := True\<rparr>)))"

definition on_scheduled ::
  "('cid MEntry \<Rightarrow> nat) \<Rightarrow> mq_env \<Rightarrow> ('cid, 'peer) mq_loop \<Rightarrow> ('cid, 'peer, 'b) mq_output list \<times> ('cid, 'peer) mq_loop" where
  "on_scheduled len env l =
     (if \<not> schedule_work_enabled l \<or> env_now env < schedule_work l then ([], l)
      else after_send (send_if_ready len env (ml_actor l)) (l\<lparr>work_scheduled := None, schedule_work_enabled := False\<rparr>))"

definition timed_out :: "'peer \<Rightarrow> 'cid list \<Rightarrow> ('cid, 'peer, 'b) mq_output list" where
  "timed_out peer cids = (if cids = [] then [] else [TimedOut peer cids])"

text \<open>One turn of the loop, or one step of the worker of the timeout manager.\<close>

fun mq_step ::
  "(rat \<Rightarrow> rat) \<Rightarrow> ('cid MEntry \<Rightarrow> nat) \<Rightarrow> mq_env \<times> 'cid mq_event \<Rightarrow> ('cid, 'peer) mq_loop \<Rightarrow>
   (('cid, 'peer, 'b) mq_output list \<times> ('cid, 'peer) mq_loop) checked" where
  "mq_step rnd len (env, EvWants None) l = Inr ([], leave_loop l)"
| "mq_step rnd len (env, EvWants (Some u)) l =
     rbind (handle_wants_update env u (ml_actor l)) (\<lambda>s. Inr ([], l\<lparr>ml_actor := s\<rparr>))"
| "mq_step rnd len (env, EvResponses None) l = Inr ([], leave_loop l)"
| "mq_step rnd len (env, EvResponses (Some cids)) l =
     rbind (handle_response rnd env cids (ml_actor l)) (\<lambda>s. Inr ([], l\<lparr>ml_actor := s\<rparr>))"
| "mq_step rnd len (env, EvRebroadcast) l = Inr (after_send (rebroadcast_wantlist len env (ml_actor l)) l)"
| "mq_step rnd len (env, EvOutgoing) l = Inr (on_outgoing len env l)"
| "mq_step rnd len (env, EvScheduled) l = Inr (on_scheduled len env l)"
| "mq_step rnd len (env, EvPing ping) l =
     (let s = ml_actor l
      in rbind (worker_ping rnd ping (env_now env) (dh_timeout_manager s)) (\<lambda>m.
           Inr ([], l\<lparr>ml_actor := s\<lparr>dh_timeout_manager := m\<rparr>\<rparr>)))"
| "mq_step rnd len (env, EvTrigger clock) l =
     (let s = ml_actor l; (expired, m) = worker_trigger clock (env_now env) (dh_timeout_manager s)
      in Inr (timed_out (mq_peer s) expired, l\<lparr>ml_actor := s\<lparr>dh_timeout_manager := m\<rparr>\<rparr>))"
| "mq_step rnd len (env, EvDelay clock) l =
     (let s = ml_actor l; (expired, m) = worker_delay clock (env_now env) (dh_timeout_manager s)
      in Inr (timed_out (mq_peer s) expired, l\<lparr>ml_actor := s\<lparr>dh_timeout_manager := m\<rparr>\<rparr>))"

fun mq_run ::
  "(rat \<Rightarrow> rat) \<Rightarrow> ('cid MEntry \<Rightarrow> nat) \<Rightarrow> (mq_env \<times> 'cid mq_event) list \<Rightarrow> ('cid, 'peer) mq_loop \<Rightarrow>
   (('cid, 'peer, 'b) mq_output list \<times> ('cid, 'peer) mq_loop) checked" where
  "mq_run rnd len [] l = Inr ([], l)"
| "mq_run rnd len (e # es) l =
     (if \<not> ml_running l then Inr ([], l)
      else rbind (mq_step rnd len e l) (\<lambda>(out, l1).
           rbind (mq_run rnd len es l1) (\<lambda>(out', l2). Inr (out @ out', l2))))"

section \<open>The handle\<close>

text \<open>
  The handle other components hold: whether it still has its channels, and whether the actor still
  receives from them. A call returns the event it sends to the actor, if any.
\<close>

record MessageQueue =
  has_senders :: bool
  actor_receives :: bool

definition is_running :: "MessageQueue \<Rightarrow> bool" where
  "is_running q \<longleftrightarrow> has_senders q \<and> actor_receives q"

definition add_broadcast_want_haves :: "MessageQueue \<Rightarrow> 'cid list \<Rightarrow> 'cid mq_event option" where
  "add_broadcast_want_haves q want_haves =
     (if want_haves = [] \<or> \<not> is_running q then None else Some (EvWants (Some (BroadcastWantHaves want_haves))))"

definition add_wants :: "MessageQueue \<Rightarrow> 'cid list \<Rightarrow> 'cid list \<Rightarrow> 'cid mq_event option" where
  "add_wants q want_blocks want_haves =
     (if (want_blocks = [] \<and> want_haves = []) \<or> \<not> is_running q then None
      else Some (EvWants (Some (UpdateWants want_blocks want_haves))))"

definition add_cancels :: "MessageQueue \<Rightarrow> 'cid list \<Rightarrow> 'cid mq_event option" where
  "add_cancels q cs = (if cs = [] \<or> \<not> is_running q then None else Some (EvWants (Some (Cancels cs))))"

definition response_received :: "MessageQueue \<Rightarrow> 'cid list \<Rightarrow> 'cid mq_event option" where
  "response_received q cids = (if cids = [] \<or> \<not> is_running q then None else Some (EvResponses (Some cids)))"

definition MessageQueue_stop :: "MessageQueue \<Rightarrow> MessageQueue option" where
  "MessageQueue_stop q = (if has_senders q then Some (q\<lparr>has_senders := False, actor_receives := False\<rparr>) else None)"

section \<open>Invariant\<close>

definition pend :: "'cid RecallWantlist \<Rightarrow> 'cid set" where
  "pend rw = dom (Wantlist_get (rw_pending rw))"

definition sent :: "'cid RecallWantlist \<Rightarrow> 'cid set" where
  "sent rw = dom (Wantlist_get (rw_sent rw))"

definition rw_inv :: "'cid RecallWantlist \<Rightarrow> bool" where
  "rw_inv rw \<longleftrightarrow> Wantlist_inv (rw_pending rw) \<and> Wantlist_inv (rw_sent rw) \<and> rw_sent_at rw = []"

definition wanted :: "'cid Wants \<Rightarrow> 'cid set" where
  "wanted w = pend (bcst_wants w) \<union> sent (bcst_wants w) \<union> pend (peer_wants w) \<union> sent (peer_wants w)"

definition wants_inv :: "'cid Wants \<Rightarrow> bool" where
  "wants_inv w \<longleftrightarrow>
     rw_inv (bcst_wants w) \<and> rw_inv (peer_wants w) \<and> distinct (cancels w) \<and> set (cancels w) \<inter> wanted w = {}"

lemma dom_get_add: "dom (Wantlist_get (snd (Wantlist_add c p t wl))) = insert c (dom (Wantlist_get wl))"
  by (auto simp: Wantlist_get_add want_join_def split: if_splits option.splits)

lemma dom_get_remove: "dom (Wantlist_get (snd (Wantlist_remove c wl))) = dom (Wantlist_get wl) - {c}"
  by (simp add: Wantlist_get_remove)

lemma contains_iff: "Wantlist_contains wl c \<longleftrightarrow> c \<in> dom (Wantlist_get wl)"
  by (auto simp: Wantlist_contains_def Wantlist_get_def)

lemma dom_get_remove_type: "dom (Wantlist_get (snd (Wantlist_remove_type c t wl))) \<subseteq> dom (Wantlist_get wl)"
  by (auto simp: Wantlist_remove_type_def Wantlist_get_def split: option.splits if_splits)

lemma dom_get_extend:
  "Wantlist_inv other \<Longrightarrow> dom (Wantlist_get (Wantlist_extend other wl)) = dom (Wantlist_get wl) \<union> dom (Wantlist_get other)"
  by (auto simp: Wantlist_get_def Wantlist_extend_def fold_extend_get Wantlist_invD want_join_def
      split: option.splits if_splits)

lemma rw_inv_default: "rw_inv RecallWantlist_default" "pend RecallWantlist_default = {}" "sent RecallWantlist_default = {}"
  by (auto simp: pend_def sent_def rw_inv_def RecallWantlist_default_def Wantlist_get_def Wantlist_default_def Wantlist_inv_def keyed_def)

lemma rw_add:
  "rw_inv rw \<Longrightarrow> rw_inv (RecallWantlist_add c p t rw)" "pend (RecallWantlist_add c p t rw) = insert c (pend rw)"
  "sent (RecallWantlist_add c p t rw) = sent rw"
  by (simp_all add: pend_def sent_def RecallWantlist_add_def rw_inv_def Wantlist_inv_add dom_get_add)

lemma rw_remove:
  "rw_inv rw \<Longrightarrow> rw_inv (RecallWantlist_remove c rw)" "pend (RecallWantlist_remove c rw) = pend rw - {c}"
  "sent (RecallWantlist_remove c rw) = sent rw - {c}"
  by (simp_all add: pend_def sent_def RecallWantlist_remove_def rw_inv_def Wantlist_inv_remove dom_get_remove)

lemma rw_remove_type:
  "rw_inv rw \<Longrightarrow> rw_inv (RecallWantlist_remove_type c t rw)" "pend (RecallWantlist_remove_type c t rw) \<subseteq> pend rw"
  "sent (RecallWantlist_remove_type c t rw) \<subseteq> sent rw"
  using dom_get_remove_type [of c t "rw_pending rw"] dom_get_remove_type [of c t "rw_sent rw"]
  by (simp_all add: pend_def sent_def RecallWantlist_remove_type_def rw_inv_def Wantlist_inv_remove_type Let_def case_prod_unfold)

lemma for_each_inv:
  "(\<And>x s s'. P s \<Longrightarrow> f x s = Inr s' \<Longrightarrow> P s') \<Longrightarrow> P s \<Longrightarrow> for_each f xs s = Inr s' \<Longrightarrow> P s'"
  by (induction xs arbitrary: s) (auto simp: rbind_Inr_iff)

lemma wants_inv_add_bcst: "wants_inv w \<Longrightarrow> add_bcst_want c w = Inr w' \<Longrightarrow> wants_inv w'"
  by (auto simp: add_bcst_want_def rbind_Inr_iff wants_inv_def wanted_def rw_add distinct_removeAll)

lemma wants_inv_add_peer: "wants_inv w \<Longrightarrow> add_peer_want t c w = Inr w' \<Longrightarrow> wants_inv w'"
  by (auto simp: add_peer_want_def rbind_Inr_iff wants_inv_def wanted_def rw_add distinct_removeAll)

lemma wants_inv_cancel: "wants_inv (snd rw) \<Longrightarrow> wants_inv (snd (cancel_want_one c rw))"
  by (cases rw) (auto simp: cancel_want_one_def Let_def wants_inv_def wanted_def rw_remove)

lemma wants_inv_cancels: "wants_inv (snd rw) \<Longrightarrow> wants_inv (snd (fold cancel_want_one cs rw))"
  by (induction cs arbitrary: rw) (simp_all add: wants_inv_cancel)

lemma signal_work_simps [simp]:
  "mq_wants (signal_work now s) = mq_wants s" "dh_timeout_manager (signal_work now s) = dh_timeout_manager s"
  "mq_config (signal_work now s) = mq_config s" "mq_sender (signal_work now s) = mq_sender s"
  by (simp_all add: signal_work_def)

lemma wants_inv_update:
  assumes "wants_inv (mq_wants s)" "handle_wants_update env u s = Inr s'"
  shows "wants_inv (mq_wants s')"
proof (cases u)
  case (BroadcastWantHaves hs)
  then obtain w where "for_each add_bcst_want hs (mq_wants s) = Inr w" "mq_wants s' = w"
    using assms(2) by (auto simp: rbind_Inr_iff)
  with for_each_inv [where P = wants_inv, OF wants_inv_add_bcst assms(1)] show ?thesis by simp
next
  case (UpdateWants bs hs)
  then obtain w1 where w: "for_each (add_peer_want WantType_Have) hs (mq_wants s) = Inr w1"
    "for_each (add_peer_want WantType_Block) bs w1 = Inr (mq_wants s')"
    using assms(2) by (auto simp: rbind_Inr_iff)
  from for_each_inv [where P = wants_inv, OF wants_inv_add_peer assms(1) w(1)] have "wants_inv w1" .
  from for_each_inv [where P = wants_inv, OF wants_inv_add_peer this w(2)] show ?thesis .
next
  case (Cancels cs)
  then have "mq_wants s' = snd (fold cancel_want_one cs (False, mq_wants s))"
    using assms(2) by (auto simp: Let_def case_prod_unfold split: if_splits)
  then show ?thesis using wants_inv_cancels [of "(False, mq_wants s)" cs] assms(1) by simp
qed

section \<open>Packing keeps every want\<close>

lemma entries_spec:
  assumes "Wantlist_inv wl" "Wantlist_entries wl = (es, wl')"
  shows "Wantlist_inv wl'" "Wantlist_get wl' = Wantlist_get wl" "distinct (map e_cid es)"
    "e \<in> set es \<longleftrightarrow> Wantlist_get wl (e_cid e) = Some e" "e_cid ` set es = dom (Wantlist_get wl)"
    "length es = Wantlist_len wl" "Wantlist_len wl' = Wantlist_len wl"
proof -
  note inv = Wantlist_invD [OF assms(1)]
  have c: "mset es = mset (hvalues (wl_set wl))" "wl_set wl' = wl_set wl"
    using Wantlist_entries_contract(2,3) [OF assms(1)] assms(2) by simp_all
  have s: "set es = snd ` set (wl_set wl)" using mset_eq_setD [OF c(1)] by simp
  show "Wantlist_inv wl'" using Wantlist_inv_entries [OF assms(1)] assms(2) by simp
  show "Wantlist_get wl' = Wantlist_get wl" "Wantlist_len wl' = Wantlist_len wl"
    using c by (simp_all add: Wantlist_get_def Wantlist_len_def fun_eq_iff)
  show "length es = Wantlist_len wl" using mset_eq_length [OF c(1)] by (simp add: Wantlist_len_def)
  have k: "e_cid e = c" if "(c, e) \<in> set (wl_set wl)" for c e
    using inv that by (simp add: keyed_def set_hmap_ok)
  have "mset (map e_cid es) = mset (map (e_cid \<circ> snd) (wl_set wl))" using c(1) by (metis map_map mset_map)
  also have "map (e_cid \<circ> snd) (wl_set wl) = hkeys (wl_set wl)" using k by (auto intro!: map_cong)
  finally show "distinct (map e_cid es)" using inv(1) by (metis hmap_ok_def mset_eq_imp_distinct_iff)
  show 4: "e \<in> set es \<longleftrightarrow> Wantlist_get wl (e_cid e) = Some e" for e
    using inv k unfolding s by (auto simp: hmap_value_iff Wantlist_get_def keyed_def)
  show "e_cid ` set es = dom (Wantlist_get wl)"
  proof
    show "e_cid ` set es \<subseteq> dom (Wantlist_get wl)" using 4 by auto
    show "dom (Wantlist_get wl) \<subseteq> e_cid ` set es"
    proof
      fix c assume "c \<in> dom (Wantlist_get wl)"
      then obtain e where e: "Wantlist_get wl c = Some e" by auto
      then have "e_cid e = c" using inv(2) by (auto simp: keyed_def Wantlist_get_def)
      with e 4 [of e] show "c \<in> e_cid ` set es" by auto
    qed
  qed
qed

lemma mark_sent_pending:
  assumes "rw_inv rw" "Wantlist_get (rw_pending rw) (e_cid e) = Some e"
  obtains rw' where "mark_sent e rw = (True, rw')" "rw_inv rw'"
    "Wantlist_get (rw_pending rw') = (Wantlist_get (rw_pending rw))(e_cid e := None)"
    "sent rw' = insert (e_cid e) (sent rw)" "Suc (Wantlist_len (rw_pending rw')) = Wantlist_len (rw_pending rw)"
proof -
  let ?p = "snd (Wantlist_remove_type (e_cid e) (e_want_type e) (rw_pending rw))"
  let ?rw = "rw\<lparr>rw_pending := ?p, rw_sent := snd (Wantlist_add (e_cid e) (e_priority e) (e_want_type e) (rw_sent rw))\<rparr>"
  have m: "map_of (wl_set (rw_pending rw)) (e_cid e) = Some e" using assms(2) by (simp add: Wantlist_get_def)
  have ok: "hmap_ok (wl_set (rw_pending rw))" using assms(1) by (simp add: rw_inv_def Wantlist_invD)
  have r: "Wantlist_remove_type (e_cid e) (e_want_type e) (rw_pending rw) = (Some e, ?p)"
    "wl_set ?p = AList.delete (e_cid e) (wl_set (rw_pending rw))"
    using m by (auto simp: Wantlist_remove_type_def)
  show thesis
  proof (rule that [of ?rw])
    show "mark_sent e rw = (True, ?rw)" unfolding mark_sent_def by (subst r(1)) simp
    show "rw_inv ?rw" using assms(1) by (simp add: rw_inv_def Wantlist_inv_remove_type Wantlist_inv_add)
    show "Wantlist_get (rw_pending ?rw) = (Wantlist_get (rw_pending rw))(e_cid e := None)"
      using r(2) by (simp add: Wantlist_get_def fun_eq_iff)
    show "sent ?rw = insert (e_cid e) (sent rw)" by (simp add: sent_def dom_get_add)
    show "Suc (Wantlist_len (rw_pending ?rw)) = Wantlist_len (rw_pending rw)"
      using delete_Some_length [OF ok m] r(2) by (simp add: Wantlist_len_def)
  qed
qed

lemma retain_marked_spec:
  "rw_inv rw \<Longrightarrow> distinct (map e_cid es) \<Longrightarrow> \<forall>e\<in>set es. Wantlist_get (rw_pending rw) (e_cid e) = Some e \<Longrightarrow>
   \<exists>rw'. retain_marked es rw m = (es, rw', m) \<and> rw_inv rw' \<and> pend rw' = pend rw - e_cid ` set es \<and>
     sent rw' = sent rw \<union> e_cid ` set es \<and> Wantlist_len (rw_pending rw') + length es = Wantlist_len (rw_pending rw)"
proof (induction es arbitrary: rw)
  case (Cons e es)
  have "Wantlist_get (rw_pending rw) (e_cid e) = Some e" using Cons.prems(3) by simp
  from mark_sent_pending [OF Cons.prems(1) this]
  obtain rw1 where one: "mark_sent e rw = (True, rw1)" "rw_inv rw1"
    "Wantlist_get (rw_pending rw1) = (Wantlist_get (rw_pending rw))(e_cid e := None)"
    "sent rw1 = insert (e_cid e) (sent rw)" "Suc (Wantlist_len (rw_pending rw1)) = Wantlist_len (rw_pending rw)"
    by blast
  have d: "distinct (map e_cid es)" "\<forall>e\<in>set es. Wantlist_get (rw_pending rw1) (e_cid e) = Some e"
    using Cons.prems(2,3) one(3) by (auto simp: image_iff)
  from Cons.IH [OF one(2) d] obtain rw' where rest: "retain_marked es rw1 m = (es, rw', m)" "rw_inv rw'"
    "pend rw' = pend rw1 - e_cid ` set es" "sent rw' = sent rw1 \<union> e_cid ` set es"
    "Wantlist_len (rw_pending rw') + length es = Wantlist_len (rw_pending rw1)"
    by blast
  have "retain_marked (e # es) rw m = (e # es, rw', m)" using one(1) rest(1) by simp
  moreover have "pend rw' = pend rw - e_cid ` set (e # es)" using rest(3) one(3) by (auto simp: pend_def split: if_splits)
  moreover have "sent rw' = sent rw \<union> e_cid ` set (e # es)" using rest(4) one(4) by auto
  ultimately show ?case using rest(2,5) one(5) by auto
qed simp

lemma remove_type_pending_have:
  assumes "rw_inv rw" "Wantlist_get (rw_pending rw) c = Some e" "e_want_type e = WantType_Have"
  shows "Wantlist_get (rw_pending (RecallWantlist_remove_type c WantType_Have rw)) = (Wantlist_get (rw_pending rw))(c := None)"
    "Suc (Wantlist_len (rw_pending (RecallWantlist_remove_type c WantType_Have rw))) = Wantlist_len (rw_pending rw)"
proof -
  have m: "map_of (wl_set (rw_pending rw)) c = Some e" using assms(2) by (simp add: Wantlist_get_def)
  have ok: "hmap_ok (wl_set (rw_pending rw))" using assms(1) by (simp add: rw_inv_def Wantlist_invD)
  have "wl_set (rw_pending (RecallWantlist_remove_type c WantType_Have rw)) = AList.delete c (wl_set (rw_pending rw))"
    using m assms(3) by (simp add: RecallWantlist_remove_type_def Wantlist_remove_type_def Let_def case_prod_unfold)
  then show "Wantlist_get (rw_pending (RecallWantlist_remove_type c WantType_Have rw)) = (Wantlist_get (rw_pending rw))(c := None)"
    "Suc (Wantlist_len (rw_pending (RecallWantlist_remove_type c WantType_Have rw))) = Wantlist_len (rw_pending rw)"
    using delete_Some_length [OF ok m] by (simp_all add: Wantlist_get_def Wantlist_len_def fun_eq_iff)
qed

lemma remove_type_sent: "sent rw - {c} \<subseteq> sent (RecallWantlist_remove_type c ty rw)"
  by (auto simp: sent_def RecallWantlist_remove_type_def Wantlist_remove_type_def Wantlist_get_def Let_def case_prod_unfold
      split: option.splits if_splits)

lemma drop_want_haves_spec:
  "rw_inv rw \<Longrightarrow> distinct (map e_cid es) \<Longrightarrow> \<forall>e\<in>set es. Wantlist_get (rw_pending rw) (e_cid e) = Some e \<Longrightarrow>
   \<exists>rw'. drop_want_haves es rw = (filter (\<lambda>e. e_want_type e \<noteq> WantType_Have) es, rw') \<and> rw_inv rw' \<and>
     sent rw' \<subseteq> sent rw \<and> sent rw - e_cid ` set (filter (\<lambda>e. e_want_type e = WantType_Have) es) \<subseteq> sent rw' \<and>
     (\<forall>c. Wantlist_get (rw_pending rw') c =
        (if c \<in> e_cid ` set (filter (\<lambda>e. e_want_type e = WantType_Have) es) then None else Wantlist_get (rw_pending rw) c)) \<and>
     Wantlist_len (rw_pending rw') + length (filter (\<lambda>e. e_want_type e = WantType_Have) es) = Wantlist_len (rw_pending rw)"
proof (induction es arbitrary: rw)
  case (Cons e es)
  show ?case
  proof (cases "e_want_type e = WantType_Have")
    case False
    with Cons.IH [OF Cons.prems(1)] Cons.prems(2,3) show ?thesis by auto
  next
    case True
    let ?rw = "RecallWantlist_remove_type (e_cid e) WantType_Have rw"
    have "Wantlist_get (rw_pending rw) (e_cid e) = Some e" using Cons.prems(3) by simp
    note one = remove_type_pending_have [OF Cons.prems(1) this True]
    have d: "distinct (map e_cid es)" "\<forall>e\<in>set es. Wantlist_get (rw_pending ?rw) (e_cid e) = Some e"
      using Cons.prems(2,3) by (auto simp: one(1) image_iff)
    from Cons.IH [OF rw_remove_type(1) [OF Cons.prems(1)] d] obtain rw' where
      rest: "drop_want_haves es ?rw = (filter (\<lambda>e. e_want_type e \<noteq> WantType_Have) es, rw')" "rw_inv rw'" "sent rw' \<subseteq> sent ?rw"
      "sent ?rw - e_cid ` set (filter (\<lambda>e. e_want_type e = WantType_Have) es) \<subseteq> sent rw'"
      "\<forall>c. Wantlist_get (rw_pending rw') c =
        (if c \<in> e_cid ` set (filter (\<lambda>e. e_want_type e = WantType_Have) es) then None else Wantlist_get (rw_pending ?rw) c)"
      "Wantlist_len (rw_pending rw') + length (filter (\<lambda>e. e_want_type e = WantType_Have) es) = Wantlist_len (rw_pending ?rw)"
      by blast
    have "sent rw' \<subseteq> sent rw" by (rule subset_trans [OF rest(3) rw_remove_type(3)])
    moreover have "sent rw - e_cid ` set (filter (\<lambda>e. e_want_type e = WantType_Have) (e # es)) \<subseteq> sent rw'"
      using rest(4) remove_type_sent [of rw "e_cid e" WantType_Have] True by auto
    moreover have "\<forall>c. Wantlist_get (rw_pending rw') c =
        (if c \<in> e_cid ` set (filter (\<lambda>e. e_want_type e = WantType_Have) (e # es)) then None else Wantlist_get (rw_pending rw) c)"
      using rest(5) True by (simp add: one(1))
    ultimately show ?thesis using rest(1,2,6) one(2) True by simp
  qed
qed simp

text \<open>The pending want-haves, which are dropped for a peer that does not support them.\<close>

definition pending_haves :: "'cid RecallWantlist \<Rightarrow> 'cid set" where
  "pending_haves rw = {c. case Wantlist_get (rw_pending rw) c of None \<Rightarrow> False | Some e \<Rightarrow> e_want_type e = WantType_Have}"

text \<open>What packing starts from: the entries of the pending lists that it may send.\<close>

definition packable :: "'cid Entry list \<Rightarrow> 'cid RecallWantlist \<Rightarrow> bool" where
  "packable es rw \<longleftrightarrow>
     rw_inv rw \<and> distinct (map e_cid es) \<and> (\<forall>e\<in>set es. Wantlist_get (rw_pending rw) (e_cid e) = Some e) \<and>
     e_cid ` set es = pend rw \<and> length es = Wantlist_len (rw_pending rw)"

lemma packable_entries:
  assumes "rw_inv rw" "Wantlist_entries (rw_pending rw) = (es, p)"
  shows "packable es (rw\<lparr>rw_pending := p\<rparr>)" "pend (rw\<lparr>rw_pending := p\<rparr>) = pend rw" "sent (rw\<lparr>rw_pending := p\<rparr>) = sent rw"
    "Wantlist_len p = Wantlist_len (rw_pending rw)" "pending_haves (rw\<lparr>rw_pending := p\<rparr>) = pending_haves rw"
proof -
  have i: "Wantlist_inv (rw_pending rw)" using assms(1) by (simp add: rw_inv_def)
  note e = entries_spec [OF i assms(2)]
  show "packable es (rw\<lparr>rw_pending := p\<rparr>)"
    using e assms(1) by (simp add: packable_def rw_inv_def pend_def)
  show "pend (rw\<lparr>rw_pending := p\<rparr>) = pend rw" "sent (rw\<lparr>rw_pending := p\<rparr>) = sent rw"
    "Wantlist_len p = Wantlist_len (rw_pending rw)" "pending_haves (rw\<lparr>rw_pending := p\<rparr>) = pending_haves rw"
    using e(2,7) by (simp_all add: pend_def sent_def pending_haves_def)
qed

lemma packable_drop:
  assumes "packable es rw" "drop_want_haves es rw = (es', rw')"
  shows "packable es' rw'" "pend rw' = pend rw - pending_haves rw" "sent rw' \<subseteq> sent rw" "sent rw - pending_haves rw \<subseteq> sent rw'"
    "Wantlist_len (rw_pending rw') \<le> Wantlist_len (rw_pending rw)"
proof -
  have p: "rw_inv rw" "distinct (map e_cid es)" "\<forall>e\<in>set es. Wantlist_get (rw_pending rw) (e_cid e) = Some e"
    "e_cid ` set es = pend rw" "length es = Wantlist_len (rw_pending rw)"
    using assms(1) by (simp_all add: packable_def)
  let ?H = "\<lambda>e. e_want_type e = WantType_Have"
  from drop_want_haves_spec [OF p(1-3)] assms(2) have d: "es' = filter (\<lambda>e. \<not> ?H e) es" "rw_inv rw'" "sent rw' \<subseteq> sent rw"
    "sent rw - e_cid ` set (filter ?H es) \<subseteq> sent rw'"
    "\<forall>c. Wantlist_get (rw_pending rw') c = (if c \<in> e_cid ` set (filter ?H es) then None else Wantlist_get (rw_pending rw) c)"
    "Wantlist_len (rw_pending rw') + length (filter ?H es) = Wantlist_len (rw_pending rw)"
    by auto
  have disj: "e_cid e \<notin> e_cid ` set (filter ?H es)" if "e \<in> set es'" for e
    using that d(1) p(2) by (auto simp: distinct_map inj_on_def)
  have pend': "pend rw' = pend rw - e_cid ` set (filter ?H es)"
    unfolding pend_def dom_def using d(5) by auto
  have hv: "e_cid ` set (filter ?H es) = pending_haves rw"
  proof
    show "e_cid ` set (filter ?H es) \<subseteq> pending_haves rw" using p(3) by (auto simp: pending_haves_def)
    show "pending_haves rw \<subseteq> e_cid ` set (filter ?H es)"
    proof
      fix c assume "c \<in> pending_haves rw"
      then obtain e where e: "Wantlist_get (rw_pending rw) c = Some e" "?H e" by (auto simp: pending_haves_def split: option.splits)
      then have "c \<in> e_cid ` set es" using p(4) by (auto simp: pend_def)
      then show "c \<in> e_cid ` set (filter ?H es)" using e p(3) by fastforce
    qed
  qed
  have img: "e_cid ` set es' = pend rw'"
    unfolding pend' p(4) [symmetric] d(1) using disj d(1) by (auto simp: image_iff)
  have "length es' = Wantlist_len (rw_pending rw')"
    using sum_length_filter_compl [of ?H es] d(1,6) p(5) by simp
  moreover have "distinct (map e_cid es')" using p(2) d(1) by (simp add: distinct_map_filter)
  moreover have "\<forall>e\<in>set es'. Wantlist_get (rw_pending rw') (e_cid e) = Some e" using d(1,5) disj p(3) by auto
  ultimately show "packable es' rw'" using d(2) img by (simp add: packable_def)
  show "pend rw' = pend rw - pending_haves rw" "sent rw' \<subseteq> sent rw" "sent rw - pending_haves rw \<subseteq> sent rw'"
    "Wantlist_len (rw_pending rw') \<le> Wantlist_len (rw_pending rw)"
    using pend' d(3,4,6) hv by auto
qed

definition dropped_wants :: "bool \<Rightarrow> 'cid Wants \<Rightarrow> 'cid set" where
  "dropped_wants supports_have w = (if supports_have then {} else pending_haves (peer_wants w))"

lemma collect_pending_spec:
  assumes "wants_inv w" "collect_pending b w = (pe, be, cs, w')"
  shows "packable pe (peer_wants w')" "packable be (bcst_wants w')" "cs = cancels w" "cancels w' = cancels w"
    "pend (bcst_wants w') = pend (bcst_wants w)" "sent (bcst_wants w') = sent (bcst_wants w)"
    "pend (peer_wants w') = pend (peer_wants w) - dropped_wants b w" "sent (peer_wants w') \<subseteq> sent (peer_wants w)"
    "sent (peer_wants w) - dropped_wants b w \<subseteq> sent (peer_wants w')"
    "pending_work_count w' \<le> pending_work_count w"
proof -
  have i: "rw_inv (peer_wants w)" "rw_inv (bcst_wants w)" using assms(1) by (simp_all add: wants_inv_def)
  obtain pe0 pp where p0: "Wantlist_entries (rw_pending (peer_wants w)) = (pe0, pp)" by (meson surj_pair)
  obtain be0 bp where b0: "Wantlist_entries (rw_pending (bcst_wants w)) = (be0, bp)" by (meson surj_pair)
  let ?p1 = "(peer_wants w)\<lparr>rw_pending := pp\<rparr>"
  obtain pe1 p2 where p1: "(if b then (pe0, ?p1) else drop_want_haves pe0 ?p1) = (pe1, p2)" by (meson surj_pair)
  note pk = packable_entries [OF i(1) p0] and bk = packable_entries [OF i(2) b0]
  have w': "w' = w\<lparr>peer_wants := p2, bcst_wants := (bcst_wants w)\<lparr>rw_pending := bp\<rparr>\<rparr>" "pe = pe1" "be = be0" "cs = cancels w"
    using assms(2) p0 b0 p1 by (simp_all add: collect_pending_def)
  have q: "packable pe1 p2" "pend p2 = pend (peer_wants w) - dropped_wants b w" "sent p2 \<subseteq> sent (peer_wants w)"
    "sent (peer_wants w) - dropped_wants b w \<subseteq> sent p2" "Wantlist_len (rw_pending p2) \<le> Wantlist_len (rw_pending (peer_wants w))"
    using p1 pk packable_drop [OF pk(1), of pe1 p2] by (auto simp: dropped_wants_def split: if_splits)
  show "packable pe (peer_wants w')" "packable be (bcst_wants w')" "cs = cancels w" "cancels w' = cancels w"
    "pend (bcst_wants w') = pend (bcst_wants w)" "sent (bcst_wants w') = sent (bcst_wants w)"
    "pend (peer_wants w') = pend (peer_wants w) - dropped_wants b w" "sent (peer_wants w') \<subseteq> sent (peer_wants w)"
    "sent (peer_wants w) - dropped_wants b w \<subseteq> sent (peer_wants w')"
    using w' q bk by simp_all
  show "pending_work_count w' \<le> pending_work_count w" using w' q(5) bk(4) by (simp add: pending_work_count_def)
qed

lemma fill_message_spec:
  "fill_message add limit xs sz m = (k, d, sz', m') \<Longrightarrow>
   k \<le> length xs \<and> (xs \<noteq> [] \<longrightarrow> 0 < k) \<and> (\<not> d \<longrightarrow> k = length xs) \<and> m' = fold (\<lambda>x m. snd (add x m)) (take k xs) m"
proof (induction xs arbitrary: sz m k d sz' m')
  case (Cons x xs)
  obtain n m1 where a: "add x m = (n, m1)" by (meson surj_pair)
  obtain k1 d1 s1 m2 where r: "fill_message add limit xs (sz + n) m1 = (k1, d1, s1, m2)" by (rule prod_cases4)
  show ?case using Cons.prems Cons.IH [OF r] a r by (auto simp: Let_def split: if_splits)
qed simp

definition cancel_entry :: "'cid \<Rightarrow> 'cid full_entry" where
  "cancel_entry c = (c, 0, True, WantType_Block, False)"

definition want_entry :: "(WantType \<Rightarrow> WantType) \<Rightarrow> bool \<Rightarrow> 'cid Entry \<Rightarrow> 'cid full_entry" where
  "want_entry f d e = (e_cid e, e_priority e, False, f (e_want_type e), d)"

lemma fst_entries: "fst ` cancel_entry ` A = A" "fst ` want_entry f d ` E = e_cid ` E"
  by (simp_all add: image_image cancel_entry_def want_entry_def)

lemma filter_entries:
  "filter (\<lambda>(c, p, x, t, d). x) (map cancel_entry cs) = map cancel_entry cs"
  "filter (\<lambda>(c, p, x, t, d). x) (map (want_entry f d') es) = []"
  by (simp_all add: filter_map comp_def cancel_entry_def want_entry_def)

lemma pack_message_spec:
  fixes m :: "('cid, 'b) BitswapMessage"
  assumes "pack_message len limit b pe be cs = (nc, np, nb, m)"
  shows "nc \<le> length cs \<and> np \<le> length pe \<and> nb \<le> length be \<and> (cs \<noteq> [] \<or> pe \<noteq> [] \<or> be \<noteq> [] \<longrightarrow> 0 < nc + np + nb) \<and>
    m = add_full_entries len (map cancel_entry (take nc cs) @ map (want_entry (\<lambda>t. t) True) (take np pe) @
          map (want_entry (\<lambda>t. if b then WantType_Have else WantType_Block) False) (take nb be)) (BitswapMessage_new False)"
proof -
  let ?pa = "\<lambda>e. add_entry len (e_cid e) (e_priority e) (e_want_type e) True"
  let ?ba = "\<lambda>e. add_entry len (e_cid e) (e_priority e) (if b then WantType_Have else WantType_Block) False"
  obtain k1 d1 s1 and m1 :: "('cid, 'b) BitswapMessage"
    where 1: "fill_message (BitswapMessage_cancel len) limit cs 0 (BitswapMessage_new False) = (k1, d1, s1, m1)"
    by (rule prod_cases4)
  obtain k2 d2 s2 m2 where 2: "(if d1 then (0, True, s1, m1) else fill_message ?pa limit pe s1 m1) = (k2, d2, s2, m2)"
    by (rule prod_cases4)
  obtain k3 d3 s3 m3 where 3: "(if d2 then (0, True, s2, m2) else fill_message ?ba limit be s2 m2) = (k3, d3, s3, m3)"
    by (rule prod_cases4)
  have r: "nc = k1" "np = k2" "nb = k3" "m = m3"
    using assms unfolding pack_message_def Let_def 1 prod.case 2 3 by simp_all
  note f1 = fill_message_spec [OF 1]
  have f2: "k2 \<le> length pe \<and> m2 = fold (\<lambda>e m. snd (?pa e m)) (take k2 pe) m1 \<and> (d1 \<longrightarrow> k2 = 0 \<and> d2) \<and>
      (\<not> d1 \<longrightarrow> pe \<noteq> [] \<longrightarrow> 0 < k2) \<and> (\<not> d1 \<longrightarrow> \<not> d2 \<longrightarrow> k2 = length pe) \<and> (d2 \<longrightarrow> d1 \<or> pe \<noteq> [])"
    using 2 fill_message_spec [of ?pa limit pe s1 m1 k2 d2 s2 m2] by (cases pe) (auto split: if_splits)
  have f3: "k3 \<le> length be \<and> m3 = fold (\<lambda>e m. snd (?ba e m)) (take k3 be) m2 \<and> (\<not> d2 \<longrightarrow> be \<noteq> [] \<longrightarrow> 0 < k3)"
    using 3 fill_message_spec [of ?ba limit be s2 m2 k3 d3 s3 m3] by (auto split: if_splits)
  have d1: "d1 \<longrightarrow> cs \<noteq> []" using 1 by (cases cs) auto
  have "m3 = add_full_entries len (map cancel_entry (take k1 cs) @ map (want_entry (\<lambda>t. t) True) (take k2 pe) @
          map (want_entry (\<lambda>t. if b then WantType_Have else WantType_Block) False) (take k3 be)) (BitswapMessage_new False)"
    using f1 f2 f3
    by (simp add: add_full_entries_def fold_map comp_def cancel_entry_def want_entry_def BitswapMessage_cancel_def [abs_def]
        add_entry_def)
  then show ?thesis using f1 f2 f3 d1 r by auto
qed

definition msg_cancels :: "('cid, 'b) BitswapMessage \<Rightarrow> 'cid set" where
  "msg_cancels m = {c. case map_of (wantlist m) c of None \<Rightarrow> False | Some e \<Rightarrow> me_cancel e}"

definition msg_wants :: "('cid, 'b) BitswapMessage \<Rightarrow> 'cid set" where
  "msg_wants m = {c. case map_of (wantlist m) c of None \<Rightarrow> False | Some e \<Rightarrow> \<not> me_cancel e}"

lemma msg_of_entries:
  fixes xs :: "'cid full_entry list" and m :: "('cid, 'b) BitswapMessage"
  assumes m: "m = add_full_entries len xs (BitswapMessage_new False)"
  shows "msg_cancels m = fst ` set (filter (\<lambda>(c, p, x, t, d). x) xs)"
    "msg_wants m = fst ` set xs - fst ` set (filter (\<lambda>(c, p, x, t, d). x) xs)"
proof -
  have new: "map_of (wantlist (BitswapMessage_new False :: ('cid, 'b) BitswapMessage)) c = None" for c
    by (simp add: BitswapMessage_new_def)
  have s: "(map_of (wantlist m) c = None \<longleftrightarrow> c \<notin> fst ` set xs) \<and>
      (\<forall>e. map_of (wantlist m) c = Some e \<longrightarrow> (me_cancel e \<longleftrightarrow> c \<in> fst ` set (filter (\<lambda>(c, p, x, t, d). x) xs)))" for c
    using add_full_entries_spec [where len = len and xs = xs and c = c and
        m = "BitswapMessage_new False :: ('cid, 'b) BitswapMessage", folded m] new [of c]
    by (cases "map_of (wantlist m) c") (auto simp: Let_def list_ex_iff filter_empty_conv image_iff)
  show "msg_cancels m = fst ` set (filter (\<lambda>(c, p, x, t, d). x) xs)"
  proof (rule set_eqI)
    fix c show "c \<in> msg_cancels m \<longleftrightarrow> c \<in> fst ` set (filter (\<lambda>(c, p, x, t, d). x) xs)"
      using s [of c] by (cases "map_of (wantlist m) c") (auto simp: msg_cancels_def image_iff)
  qed
  show "msg_wants m = fst ` set xs - fst ` set (filter (\<lambda>(c, p, x, t, d). x) xs)"
  proof (rule set_eqI)
    fix c show "c \<in> msg_wants m \<longleftrightarrow> c \<in> fst ` set xs - fst ` set (filter (\<lambda>(c, p, x, t, d). x) xs)"
      using s [of c] by (cases "map_of (wantlist m) c") (auto simp: msg_wants_def)
  qed
qed

lemma commit_cancels_spec:
  "distinct xs \<Longrightarrow> set xs \<subseteq> set cs \<Longrightarrow> commit_cancels xs cs m = (filter (\<lambda>c. c \<notin> set xs) cs, m)"
proof (induction xs arbitrary: cs)
  case (Cons x xs)
  have "set xs \<subseteq> set (removeAll x cs)" using Cons.prems by auto
  with Cons show ?case by (simp add: removeAll_filter_not_eq conj_commute) (metis (mono_tags))
qed simp

section \<open>A packed message and the state after it\<close>

definition same_rest :: "('cid, 'peer) MessageQueueActor \<Rightarrow> ('cid, 'peer) MessageQueueActor \<Rightarrow> bool" where
  "same_rest s s' \<longleftrightarrow>
     mq_config s' = mq_config s \<and> dh_timeout_manager s' = dh_timeout_manager s \<and> outgoing_work s' = outgoing_work s"

lemma mark_taken:
  assumes "packable es rw" "n \<le> length es"
  shows "\<exists>rw'. retain_marked (take n es) rw m = (take n es, rw', m) \<and> rw_inv rw' \<and>
     e_cid ` set (take n es) = pend rw - pend rw' \<and> pend rw' \<subseteq> pend rw \<and> sent rw' = sent rw \<union> e_cid ` set (take n es) \<and>
     Wantlist_len (rw_pending rw') + n = Wantlist_len (rw_pending rw)"
proof -
  have p: "rw_inv rw" "distinct (map e_cid (take n es))"
    "\<forall>e\<in>set (take n es). Wantlist_get (rw_pending rw) (e_cid e) = Some e" "e_cid ` set (take n es) \<subseteq> pend rw"
    using assms(1) by (auto simp: packable_def take_map [symmetric] dest: in_set_takeD)
  from retain_marked_spec [OF p(1-3), of m] obtain rw' where
    r: "retain_marked (take n es) rw m = (take n es, rw', m)" "rw_inv rw'" "pend rw' = pend rw - e_cid ` set (take n es)"
    "sent rw' = sent rw \<union> e_cid ` set (take n es)"
    "Wantlist_len (rw_pending rw') + length (take n es) = Wantlist_len (rw_pending rw)"
    by blast
  have "e_cid ` set (take n es) = pend rw - pend rw'" using r(3) p(4) by auto
  then show ?thesis using r assms(2) by auto
qed

lemma length_filter_taken:
  assumes "distinct xs" "n \<le> length xs"
  shows "length (filter (\<lambda>x. x \<notin> set (take n xs)) xs) + n = length xs"
proof -
  have "set (take n xs) \<inter> set (drop n xs) = {}" by (rule set_take_disj_set_drop_if_distinct [OF assms(1) order_refl])
  then have "filter (\<lambda>x. x \<notin> set (take n xs)) (drop n xs) = drop n xs" by (intro filter_True) blast
  moreover have "filter (\<lambda>x. x \<notin> set (take n xs)) xs =
      filter (\<lambda>x. x \<notin> set (take n xs)) (take n xs) @ filter (\<lambda>x. x \<notin> set (take n xs)) (drop n xs)"
    by (simp only: filter_append [symmetric] append_take_drop_id)
  moreover have "filter (\<lambda>x. x \<notin> set (take n xs)) (take n xs) = []" by (simp add: filter_empty_conv)
  ultimately show ?thesis using assms(2) by simp
qed

lemma extract_spec:
  fixes r :: "(('cid, 'b) BitswapMessage \<times> 'cid Entry list \<times> 'cid Entry list) option"
  assumes inv: "wants_inv (mq_wants s)" and snd_ok: "sender_of env s = Some b"
    and ex: "extract_outgoing_message len env s = (r, s')"
  obtains m pe be where "r = Some (m, pe, be)" "wants_inv (mq_wants s')" "same_rest s s'" "mq_sender s' = Some b"
    "msg_cancels m = set (cancels (mq_wants s)) - set (cancels (mq_wants s'))"
    "set (cancels (mq_wants s')) \<subseteq> set (cancels (mq_wants s))"
    "msg_wants m = e_cid ` set pe \<union> e_cid ` set be"
    "e_cid ` set pe = pend (peer_wants (mq_wants s)) - pend (peer_wants (mq_wants s')) - dropped_wants b (mq_wants s)"
    "pend (peer_wants (mq_wants s')) \<inter> dropped_wants b (mq_wants s) = {}"
    "e_cid ` set be = pend (bcst_wants (mq_wants s)) - pend (bcst_wants (mq_wants s'))"
    "e_cid ` set pe \<subseteq> sent (peer_wants (mq_wants s'))" "e_cid ` set be \<subseteq> sent (bcst_wants (mq_wants s'))"
    "wanted (mq_wants s) - dropped_wants b (mq_wants s) \<subseteq> wanted (mq_wants s')" "wanted (mq_wants s') \<subseteq> wanted (mq_wants s)"
    "has_pending_work (mq_wants s) \<Longrightarrow> pending_work_count (mq_wants s') < pending_work_count (mq_wants s)"
proof -
  let ?w = "mq_wants s"
  obtain pe be cs w where c: "collect_pending b ?w = (pe, be, cs, w)" by (rule prod_cases4)
  note cp = collect_pending_spec [OF inv c]
  obtain nc np nb and m :: "('cid, 'b) BitswapMessage" where pk: "pack_message len (max_message_size (mq_config s)) b pe be cs = (nc, np, nb, m)"
    by (rule prod_cases4)
  note ps = pack_message_spec [OF pk]
  have n: "nc \<le> length cs" "np \<le> length pe" "nb \<le> length be" using ps by blast+
  from mark_taken [OF cp(1) n(2), of m] obtain peer where
    pr: "retain_marked (take np pe) (peer_wants w) m = (take np pe, peer, m)" "rw_inv peer"
    "e_cid ` set (take np pe) = pend (peer_wants w) - pend peer" "pend peer \<subseteq> pend (peer_wants w)"
    "sent peer = sent (peer_wants w) \<union> e_cid ` set (take np pe)"
    "Wantlist_len (rw_pending peer) + np = Wantlist_len (rw_pending (peer_wants w))"
    by blast
  from mark_taken [OF cp(2) n(3), of m] obtain bcst where
    br: "retain_marked (take nb be) (bcst_wants w) m = (take nb be, bcst, m)" "rw_inv bcst"
    "e_cid ` set (take nb be) = pend (bcst_wants w) - pend bcst" "pend bcst \<subseteq> pend (bcst_wants w)"
    "sent bcst = sent (bcst_wants w) \<union> e_cid ` set (take nb be)"
    "Wantlist_len (rw_pending bcst) + nb = Wantlist_len (rw_pending (bcst_wants w))"
    by blast
  have dc: "distinct (cancels ?w)" "set (cancels ?w) \<inter> wanted ?w = {}" using inv by (simp_all add: wants_inv_def)
  have cm: "commit_cancels (take nc cs) (cancels w) m = (filter (\<lambda>c. c \<notin> set (take nc cs)) (cancels ?w), m)"
    using commit_cancels_spec [of "take nc cs" "cancels w" m] cp(3,4) dc(1) set_take_subset [of nc cs] by simp
  let ?w' = "w\<lparr>peer_wants := peer, bcst_wants := bcst, cancels := filter (\<lambda>c. c \<notin> set (take nc cs)) (cancels ?w)\<rparr>"
  have r: "r = Some (m, take np pe, take nb be)" "s' = s\<lparr>mq_sender := Some b, mq_wants := ?w'\<rparr>"
    using ex unfolding extract_outgoing_message_def snd_ok by (simp_all add: c pk pr(1) br(1) cm Let_def)
  have sub: "wanted ?w' \<subseteq> wanted ?w"
    using pr(3-5) br(3-5) cp(5-8) by (auto simp: wanted_def)
  have fs: "fst ` set (map cancel_entry (take nc cs) @ map (want_entry (\<lambda>t. t) True) (take np pe) @
        map (want_entry (\<lambda>t. if b then WantType_Have else WantType_Block) False) (take nb be))
      = set (take nc cs) \<union> e_cid ` set (take np pe) \<union> e_cid ` set (take nb be)"
    by (simp add: image_Un fst_entries Un_assoc)
  have ff: "fst ` set (filter (\<lambda>(c, p, x, t, d). x) (map cancel_entry (take nc cs) @ map (want_entry (\<lambda>t. t) True) (take np pe) @
        map (want_entry (\<lambda>t. if b then WantType_Have else WantType_Block) False) (take nb be))) = set (take nc cs)"
    by (simp add: filter_entries fst_entries)
  have mc: "msg_cancels m = set (take nc cs)"
    and mw: "msg_wants m = (set (take nc cs) \<union> e_cid ` set (take np pe) \<union> e_cid ` set (take nb be)) - set (take nc cs)"
    using msg_of_entries [of m len "map cancel_entry (take nc cs) @ map (want_entry (\<lambda>t. t) True) (take np pe) @
        map (want_entry (\<lambda>t. if b then WantType_Have else WantType_Block) False) (take nb be)", unfolded fs ff] ps by simp_all
  have tc: "set (take nc cs) \<subseteq> set (cancels ?w)" using cp(3) set_take_subset [of nc cs] by simp
  have pw: "e_cid ` set (take np pe) \<subseteq> pend (peer_wants ?w)" "e_cid ` set (take nb be) \<subseteq> pend (bcst_wants ?w)"
    using pr(3) br(3) cp(5,7) by auto
  show thesis
  proof (rule that [OF r(1)])
    show "wants_inv (mq_wants s')" using r(2) pr(2) br(2) dc sub by (auto simp: wants_inv_def)
    show "same_rest s s'" "mq_sender s' = Some b" using r(2) by (simp_all add: same_rest_def)
    show "msg_cancels m = set (cancels ?w) - set (cancels (mq_wants s'))" using mc tc r(2) by auto
    show "set (cancels (mq_wants s')) \<subseteq> set (cancels ?w)" using r(2) by auto
    show "msg_wants m = e_cid ` set (take np pe) \<union> e_cid ` set (take nb be)"
    proof -
      have "set (take nc cs) \<inter> (e_cid ` set (take np pe) \<union> e_cid ` set (take nb be)) = {}"
        using tc pw dc(2) unfolding wanted_def by blast
      then show ?thesis using mw by blast
    qed
    show "e_cid ` set (take np pe) = pend (peer_wants ?w) - pend (peer_wants (mq_wants s')) - dropped_wants b ?w"
      "pend (peer_wants (mq_wants s')) \<inter> dropped_wants b ?w = {}"
      using pr(3,4) cp(7) r(2) by auto
    show "e_cid ` set (take nb be) = pend (bcst_wants ?w) - pend (bcst_wants (mq_wants s'))" using br(3) cp(5) r(2) by simp
    show "e_cid ` set (take np pe) \<subseteq> sent (peer_wants (mq_wants s'))" "e_cid ` set (take nb be) \<subseteq> sent (bcst_wants (mq_wants s'))"
      using pr(5) br(5) r(2) by simp_all
    show "wanted ?w - dropped_wants b ?w \<subseteq> wanted (mq_wants s')"
      using pr(3-5) br(3-5) cp(5-9) r(2) by (auto simp: wanted_def)
    show "wanted (mq_wants s') \<subseteq> wanted ?w" using sub r(2) by simp
    have l: "pending_work_count ?w' + nc + np + nb = pending_work_count w"
    proof -
      have "length (filter (\<lambda>c. c \<notin> set (take nc cs)) cs) + nc = length cs"
        using length_filter_taken [of cs nc] n(1) dc(1) cp(3) by simp
      then show ?thesis using pr(6) br(6) cp(3,4) by (simp add: pending_work_count_def)
    qed
    have z: "pending_work_count w = 0" if "nc + np + nb = 0"
      using ps that cp(1-4) by (auto simp: pending_work_count_def packable_def)
    show "has_pending_work ?w \<Longrightarrow> pending_work_count (mq_wants s') < pending_work_count ?w"
      using l z cp(10) r(2) by (cases "nc + np + nb = 0") (auto simp: has_pending_work_def)
  qed
qed

section \<open>Every step of the queue\<close>

abbreviation samples_of :: "('cid, 'peer) MessageQueueActor \<Rightarrow> nat" where
  "samples_of s \<equiv> ewma_samples (message_latency (inner (dh_timeout_manager s)))"

definition mq_inv :: "('cid, 'peer) MessageQueueActor \<Rightarrow> bool" where
  "mq_inv s \<longleftrightarrow> wants_inv (mq_wants s) \<and> samples_of s = 0"

lemma add_pending_latency [simp]: "message_latency (inner (add_pending now cs m)) = message_latency (inner m)"
proof -
  have "message_latency (fold (add_pending_one now) cs i) = message_latency i" for i :: "('a, 'b) dh_Inner"
    by (induction cs arbitrary: i) (simp_all add: add_pending_one_def Let_def)
  then show ?thesis by (simp add: add_pending_def Let_def)
qed

lemma dh_latency [simp]:
  "inner (dh_start m) = inner m" "inner (dh_stop m) = inner m"
  "message_latency (inner (cancel_pending cs m)) = message_latency (inner m)"
  "message_latency (snd (snd (check_for_timeouts clock now i))) = message_latency i"
  by (simp_all add: dh_start_def dh_stop_def cancel_pending_def check_for_timeouts_def Let_def case_prod_unfold)

lemma worker_latency:
  "worker_ping rnd ping now m = Inr m' \<Longrightarrow> message_latency (inner m') = message_latency (inner m)"
  "message_latency (inner (snd (worker_trigger clock now m))) = message_latency (inner m)"
  "message_latency (inner (snd (worker_delay clock now m))) = message_latency (inner m)"
  by (auto simp: worker_ping_def worker_trigger_def worker_delay_def rbind_Inr_iff Let_def case_prod_unfold
      split: if_splits option.splits dh_worker.splits)

lemma record_sent_at_id:
  fixes w :: "'cid Wants"
  assumes "e_cid ` set pe \<subseteq> sent (peer_wants w)" "e_cid ` set be \<subseteq> sent (bcst_wants w)"
  shows "record_sent_at now pe be w = w"
proof -
  have "e_cid ` set es \<subseteq> sent rw \<Longrightarrow> fold (\<lambda>e. sent_at (e_cid e) now) es rw = rw" for es :: "'cid Entry list" and rw
    by (induction es) (simp_all add: sent_at_def contains_iff sent_def)
  with assms show ?thesis by (simp add: record_sent_at_def)
qed

lemma send_message_spec:
  fixes mo :: "('cid, 'b) BitswapMessage option"
  assumes inv: "mq_inv s" and send: "send_message len env s = (fatal, mo, s')"
  shows "mq_inv s'"
    "sender_of env s \<noteq> None \<Longrightarrow> env_send_ok env \<Longrightarrow> sender_of env s' \<noteq> None \<and>
       (has_pending_work (mq_wants s) \<longrightarrow> pending_work_count (mq_wants s') < pending_work_count (mq_wants s))"
proof -
  let ?s1 = "s\<lparr>dh_timeout_manager := dh_start (dh_timeout_manager s)\<rparr>"
  have i1: "wants_inv (mq_wants ?s1)" "samples_of ?s1 = 0" using inv by (simp_all add: mq_inv_def)
  have so: "sender_of env ?s1 = sender_of env s" by (simp add: sender_of_def)
  have "mq_inv s' \<and> (sender_of env s \<noteq> None \<longrightarrow> env_send_ok env \<longrightarrow> sender_of env s' \<noteq> None \<and>
       (has_pending_work (mq_wants s) \<longrightarrow> pending_work_count (mq_wants s') < pending_work_count (mq_wants s)))"
  proof (cases "sender_of env s")
    case None
    then show ?thesis using send i1 so by (auto simp: send_message_def extract_outgoing_message_def mq_inv_def)
  next
    case (Some b)
    obtain r s2 where ex: "extract_outgoing_message len env ?s1 = (r :: (('cid, 'b) BitswapMessage \<times> _) option, s2)"
      by (meson surj_pair)
    from Some so have sb: "sender_of env ?s1 = Some b" by simp
    obtain m pe be where x: "r = Some (m, pe, be)" "wants_inv (mq_wants s2)" "same_rest ?s1 s2" "mq_sender s2 = Some b"
      "e_cid ` set pe \<subseteq> sent (peer_wants (mq_wants s2))" "e_cid ` set be \<subseteq> sent (bcst_wants (mq_wants s2))"
      "has_pending_work (mq_wants ?s1) \<Longrightarrow> pending_work_count (mq_wants s2) < pending_work_count (mq_wants ?s1)"
      by (rule extract_spec [OF i1(1) sb ex]) blast
    have s2: "samples_of s2 = 0" using x(3) i1(2) by (simp add: same_rest_def)
    have "mq_wants s' = mq_wants s2 \<and> samples_of s' = 0 \<and> mq_sender s' = Some b"
      using send s2 x(1,4) record_sent_at_id [OF x(5,6)] unfolding send_message_def Let_def ex prod.case
      by (auto simp: simulate_dont_have_with_timeout_def split: if_splits)
    then show ?thesis using x(2,7) by (simp add: mq_inv_def sender_of_def)
  qed
  then show "mq_inv s'" "sender_of env s \<noteq> None \<Longrightarrow> env_send_ok env \<Longrightarrow> sender_of env s' \<noteq> None \<and>
       (has_pending_work (mq_wants s) \<longrightarrow> pending_work_count (mq_wants s') < pending_work_count (mq_wants s))"
    by simp_all
qed

lemma handle_response_idle: "mq_inv s \<Longrightarrow> handle_response rnd env cids s = Inr s"
proof -
  assume "mq_inv s"
  then have e: "rw_sent_at (bcst_wants (mq_wants s)) = []" "rw_sent_at (peer_wants (mq_wants s)) = []"
    by (simp_all add: mq_inv_def wants_inv_def rw_inv_def)
  have "fold (response_one config now) cids (None, mq_wants s) = (None, mq_wants s)" for config now
    by (induction cids) (simp_all add: response_one_def e)
  then show ?thesis by (simp add: handle_response_def)
qed

lemma mq_inv_update: "mq_inv s \<Longrightarrow> handle_wants_update env u s = Inr s' \<Longrightarrow> mq_inv s'"
proof -
  assume i: "mq_inv s" and u: "handle_wants_update env u s = Inr s'"
  have "samples_of s' = samples_of s"
    using u by (cases u) (auto simp: rbind_Inr_iff Let_def case_prod_unfold split: if_splits)
  with i u wants_inv_update [of s env u s'] show ?thesis by (simp add: mq_inv_def)
qed

lemma rw_extend:
  assumes "rw_inv rw"
  shows "rw_inv (rw\<lparr>rw_pending := Wantlist_extend (rw_sent rw) (rw_pending rw)\<rparr>)"
    "pend (rw\<lparr>rw_pending := Wantlist_extend (rw_sent rw) (rw_pending rw)\<rparr>) = pend rw \<union> sent rw"
    "sent (rw\<lparr>rw_pending := Wantlist_extend (rw_sent rw) (rw_pending rw)\<rparr>) = sent rw"
  using assms by (simp_all add: rw_inv_def pend_def sent_def Wantlist_inv_extend dom_get_extend)

lemma mq_inv_rebroadcast: "mq_inv s \<Longrightarrow> transfer_rebroadcast_wants s = (t, s') \<Longrightarrow> mq_inv s'"
  by (auto simp: transfer_rebroadcast_wants_def mq_inv_def wants_inv_def wanted_def rw_extend Let_def split: if_splits)

lemma mq_inv_send_message:
  assumes "mq_inv s"
  shows "mq_inv (snd (snd (send_message len env s :: bool \<times> ('cid, 'b) BitswapMessage option \<times> _)))"
proof -
  obtain f s' and mo :: "('cid, 'b) BitswapMessage option" where e: "send_message len env s = (f, mo, s')"
    by (rule prod_cases3)
  from send_message_spec(1) [OF assms e] e show ?thesis by simp
qed

lemma mq_inv_send_if_ready: "mq_inv s \<Longrightarrow> mq_inv (snd (snd (send_if_ready len env s)))"
  by (simp add: send_if_ready_def mq_inv_send_message)

lemma mq_inv_after_send: "mq_inv (snd (snd r)) \<Longrightarrow> mq_inv (ml_actor (snd (after_send r l)))"
  by (cases r) (simp add: after_send_def Let_def leave_loop_def mq_inv_def)

lemma mq_inv_after_sendD: "after_send r l = (out, l') \<Longrightarrow> mq_inv (snd (snd r)) \<Longrightarrow> mq_inv (ml_actor l')"
  using mq_inv_after_send [of r l] by simp

lemma mq_inv_on_outgoing: "mq_inv (ml_actor l) \<Longrightarrow> mq_inv (ml_actor (snd (on_outgoing len env l)))"
proof (cases "outgoing_work (ml_actor l)")
  case (Cons t rest)
  assume i: "mq_inv (ml_actor l)"
  let ?s = "(ml_actor l)\<lparr>outgoing_work := rest\<rparr>"
  have "mq_inv ?s" using i by (simp add: mq_inv_def)
  with i Cons show ?thesis
    by (simp add: on_outgoing_def Let_def case_prod_unfold mq_inv_after_send mq_inv_send_if_ready)
qed (simp add: on_outgoing_def)

lemma mq_inv_rebroadcast_wantlist: "mq_inv s \<Longrightarrow> mq_inv (snd (snd (rebroadcast_wantlist len env s)))"
  by (cases "transfer_rebroadcast_wants s")
    (simp add: rebroadcast_wantlist_def mq_inv_rebroadcast mq_inv_send_message)

lemma mq_inv_leave: "mq_inv (ml_actor (leave_loop l)) \<longleftrightarrow> mq_inv (ml_actor l)"
  by (simp add: leave_loop_def mq_inv_def)

lemma mq_step_inv: "mq_inv (ml_actor l) \<Longrightarrow> mq_step rnd len e l = Inr (out, l') \<Longrightarrow> mq_inv (ml_actor l')"
proof (induction rnd len e l rule: mq_step.induct)
  case (4 rnd len env cids l)
  then show ?case by (auto simp: handle_response_idle)
next
  case (5 rnd len env l)
  from 5(2) have "after_send (rebroadcast_wantlist len env (ml_actor l)) l = (out, l')" by simp
  from mq_inv_after_sendD [OF this mq_inv_rebroadcast_wantlist [OF 5(1)]] show ?case .
next
  case (6 rnd len env l)
  from 6(2) have e: "on_outgoing len env l = (out, l')" by simp
  from 6(1) e show ?case by (metis mq_inv_on_outgoing snd_conv)
next
  case (7 rnd len env l)
  then show ?case
    by (auto simp: on_scheduled_def split: if_splits dest!: mq_inv_after_sendD intro!: mq_inv_send_if_ready)
next
  case (8 rnd len env ping l)
  then show ?case by (auto simp: Let_def rbind_Inr_iff mq_inv_def worker_latency(1))
next
  case (9 rnd len env clock l)
  then show ?case by (auto simp: Let_def mq_inv_def case_prod_unfold worker_latency(2))
next
  case (10 rnd len env clock l)
  then show ?case by (auto simp: Let_def mq_inv_def case_prod_unfold worker_latency(3))
qed (auto simp: mq_inv_leave rbind_Inr_iff dest: mq_inv_update)

lemma mq_run_inv:
  fixes out :: "('cid, 'peer, 'b) mq_output list"
  shows "mq_inv (ml_actor l) \<Longrightarrow> mq_run rnd len es l = Inr (out, l') \<Longrightarrow> mq_inv (ml_actor l')"
proof (induction es arbitrary: l out)
  case (Cons e es)
  show ?case
  proof (cases "ml_running l")
    case True
    then obtain l1 and o1 o2 :: "('cid, 'peer, 'b) mq_output list"
      where st: "mq_step rnd len e l = Inr (o1, l1)" "mq_run rnd len es l1 = Inr (o2, l')"
      using Cons.prems(2) by (auto simp: rbind_Inr_iff)
    from Cons.IH [OF mq_step_inv [OF Cons.prems(1) st(1)] st(2)] show ?thesis .
  qed (use Cons.prems in auto)
qed simp

lemma mq_inv_new: "mq_inv (ml_actor (mq_loop_new config peer))"
  by (simp add: mq_inv_def mq_loop_new_def MessageQueueActor_new_def wants_inv_def rw_inv_default wanted_def
      DontHaveTimeoutManager_new_def)

lemma mq_step_panic:
  "mq_inv (ml_actor l) \<Longrightarrow> mq_step rnd len e l = Inl p \<Longrightarrow> p = Overflow \<or> p = OutOfRange"
proof (induction rnd len e l rule: mq_step.induct)
  case (2 rnd len env u l)
  have "for_each f xs w = Inl p \<Longrightarrow> (\<And>x w. f x w = Inl p \<Longrightarrow> p = Overflow) \<Longrightarrow> p = Overflow" for f xs and w :: "'a Wants"
    by (induction xs arbitrary: w) (auto simp: rbind_Inl_iff)
  moreover have "add_bcst_want x w = Inl p \<Longrightarrow> p = Overflow" "add_peer_want t x w = Inl p \<Longrightarrow> p = Overflow" for t x and w :: "'a Wants"
    by (auto simp: add_bcst_want_def add_peer_want_def decr_i32_def rbind_Inl_iff split: if_splits)
  ultimately show ?case using 2 by (cases u) (auto simp: rbind_Inl_iff Let_def case_prod_unfold)
next
  case (8 rnd len env ping l)
  then show ?case
    by (auto simp: Let_def rbind_Inl_iff worker_ping_def calculate_timeout_from_ping_latency_def from_secs_f64_def
        split: if_splits option.splits)
qed (auto simp: handle_response_idle Let_def case_prod_unfold)

lemma mq_run_panic:
  fixes l :: "('cid, 'peer) mq_loop"
  assumes "mq_inv (ml_actor l)" "(mq_run rnd len es l :: (('cid, 'peer, 'b) mq_output list \<times> _) checked) = Inl p"
  shows "p = Overflow \<or> p = OutOfRange"
  using assms
proof (induction es arbitrary: l)
  case (Cons e es)
  show ?case
  proof (cases "mq_step rnd len e l :: (('cid, 'peer, 'b) mq_output list \<times> _) checked")
    case (Inl q)
    then show ?thesis using Cons.prems mq_step_panic [OF Cons.prems(1) Inl] by (simp split: if_splits)
  next
    case (Inr r)
    obtain o1 l1 where r: "r = (o1, l1)" by (meson surj_pair)
    from mq_step_inv [OF Cons.prems(1) Inr [unfolded r]] have i: "mq_inv (ml_actor l1)" .
    show ?thesis
      by (rule Cons.IH [OF i]) (use Cons.prems(2) Inr r in \<open>auto simp: rbind_Inl_iff split: if_splits\<close>)
  qed
qed simp

definition send_round ::
  "('cid MEntry \<Rightarrow> nat) \<Rightarrow> mq_env \<Rightarrow> ('cid, 'peer) MessageQueueActor \<Rightarrow> ('cid, 'peer) MessageQueueActor" where
  "send_round len env s =
     snd (snd (send_if_ready len env s :: bool \<times> ('cid, unit) BitswapMessage option \<times> ('cid, 'peer) MessageQueueActor))"

lemma send_round_spec:
  assumes "mq_inv s" "sender_of env s \<noteq> None" "env_send_ok env"
  shows "mq_inv (send_round len env s)" "sender_of env (send_round len env s) \<noteq> None"
    "pending_work_count (mq_wants (send_round len env s)) \<le> pending_work_count (mq_wants s) - 1"
proof -
  obtain f s' and mo :: "('a, unit) BitswapMessage option" where e: "send_message len env s = (f, mo, s')"
    by (rule prod_cases3)
  note sp = send_message_spec [OF assms(1) e] 
  show "mq_inv (send_round len env s)" "sender_of env (send_round len env s) \<noteq> None"
    "pending_work_count (mq_wants (send_round len env s)) \<le> pending_work_count (mq_wants s) - 1"
    using sp assms e by (auto simp: send_round_def send_if_ready_def has_pending_work_def)
qed

lemma send_rounds:
  "mq_inv s \<Longrightarrow> sender_of env s \<noteq> None \<Longrightarrow> env_send_ok env \<Longrightarrow>
   pending_work_count (mq_wants ((send_round len env ^^ n) s)) \<le> pending_work_count (mq_wants s) - n"
proof (induction n arbitrary: s)
  case (Suc n)
  note one = send_round_spec [OF Suc.prems, of len]
  from Suc.IH [OF one(1,2) Suc.prems(3)] one(3)
  have "pending_work_count (mq_wants ((send_round len env ^^ n) (send_round len env s))) \<le> pending_work_count (mq_wants s) - 1 - n"
    by linarith
  then show ?case by (simp add: funpow_swap1)
qed simp

section \<open>Properties\<close>

text \<open>C34: In every state the queue of a peer can reach, no time of sending is recorded, so a response never
  changes anything and the latency of the peer is never measured; the only panics are the exhausted priority and a
  ping latency out of range.\<close>

theorem latency_never_measured:
  "case (mq_run rnd len evs (mq_loop_new config peer) :: (('cid, 'peer, 'b) mq_output list \<times> _) checked) of
     Inl p \<Rightarrow> p = Overflow \<or> p = OutOfRange
   | Inr (out, l) \<Rightarrow>
       handle_response rnd env cids (ml_actor l) = Inr (ml_actor l) \<and>
       ewma_samples (message_latency (inner (dh_timeout_manager (ml_actor l)))) = 0"
proof -
  show ?thesis
  proof (cases "(mq_run rnd len evs (mq_loop_new config peer) :: (('cid, 'peer, 'b) mq_output list \<times> _) checked)")
    case (Inl p)
    with mq_run_panic [OF mq_inv_new Inl] show ?thesis by simp
  next
    case (Inr r)
    obtain out l where r: "r = (out, l)" by (meson surj_pair)
    from mq_run_inv [OF mq_inv_new Inr [unfolded r]] have i: "mq_inv (ml_actor l)" .
    with handle_response_idle [OF i] Inr r show ?thesis by (simp add: mq_inv_def)
  qed
qed

text \<open>C3: Packing a message never contradicts itself and loses no want but the want-haves of a peer that does not support
  them, in every state the queue can reach. The message cancels exactly the cancels that leave the queue, none of which
  is wanted. If the peer supports want-haves, the message asks for exactly the keys that leave the pending lists, these
  are remembered as sent, and the same keys are wanted as before. If it does not, every pending want-have of the peer
  leaves its pending list; apart from them the message asks for exactly the keys that leave the pending lists, these are
  remembered as sent, and no other key is lost.\<close>

theorem packing_keeps_wants:
  "case (mq_run rnd len evs (mq_loop_new config peer) :: (('cid, 'peer, 'b) mq_output list \<times> _) checked) of
     Inl p \<Rightarrow> p = Overflow \<or> p = OutOfRange
   | Inr (out, l) \<Rightarrow>
       (let s = ml_actor l; w = mq_wants s
        in case (extract_outgoing_message len env s :: (('cid, 'd) BitswapMessage \<times> _) option \<times> _) of
             (None, s') \<Rightarrow> sender_of env s = None \<and> s' = s
           | (Some (m, pe, be), s') \<Rightarrow>
               (let w' = mq_wants s'
                in msg_cancels m = set (cancels w) - set (cancels w') \<and> msg_cancels m \<inter> wanted w = {} \<and>
                   msg_wants m \<subseteq> sent (peer_wants w') \<union> sent (bcst_wants w') \<and>
                   (if sender_of env s = Some True
                    then wanted w' = wanted w \<and>
                         msg_wants m = (pend (peer_wants w) - pend (peer_wants w')) \<union> (pend (bcst_wants w) - pend (bcst_wants w'))
                    else pend (peer_wants w') \<inter> pending_haves (peer_wants w) = {} \<and>
                         wanted w - pending_haves (peer_wants w) \<subseteq> wanted w' \<and> wanted w' \<subseteq> wanted w \<and>
                         msg_wants m = (pend (peer_wants w) - pend (peer_wants w') - pending_haves (peer_wants w)) \<union>
                           (pend (bcst_wants w) - pend (bcst_wants w')))))"
proof (cases "(mq_run rnd len evs (mq_loop_new config peer) :: (('cid, 'peer, 'b) mq_output list \<times> _) checked)")
  case (Inl p)
  with mq_run_panic [OF mq_inv_new Inl] show ?thesis by simp
next
  case (Inr r)
  obtain out l where r: "r = (out, l)" by (meson surj_pair)
  let ?s = "ml_actor l"
  have i: "wants_inv (mq_wants ?s)" using mq_run_inv [OF mq_inv_new Inr [unfolded r]] by (simp add: mq_inv_def)
  show ?thesis
  proof (cases "sender_of env ?s")
    case None
    then show ?thesis using Inr r by (simp add: extract_outgoing_message_def Let_def)
  next
    case (Some b)
    obtain x s' where ex: "extract_outgoing_message len env ?s = (x :: (('cid, 'd) BitswapMessage \<times> _) option, s')"
      by (meson surj_pair)
    have dis: "set (cancels (mq_wants ?s)) \<inter> wanted (mq_wants ?s) = {}" using i by (simp add: wants_inv_def)
    show ?thesis
      by (rule extract_spec [OF i Some ex]) (use Inr r ex Some dis in \<open>auto simp: Let_def dropped_wants_def\<close>)
  qed
qed

text \<open>C9: However small the size limit of a message is, sending ends: from every state the queue can reach, as many
  rounds of sending as there are pending wants and cancels leave no pending work, provided that the network
  accepts the messages.\<close>

theorem sending_drains_queue:
  assumes "(mq_run rnd len evs (mq_loop_new config peer) :: (('cid, 'peer, 'b) mq_output list \<times> _) checked) = Inr (out, l)"
    and "sender_of env (ml_actor l) \<noteq> None" "env_send_ok env"
  shows "\<not> has_pending_work
           (mq_wants ((send_round len env ^^ pending_work_count (mq_wants (ml_actor l))) (ml_actor l)))"
  using send_rounds [OF mq_run_inv [OF mq_inv_new assms(1)] assms(2,3), where len = len and n = "pending_work_count (mq_wants (ml_actor l))"]
  by (simp add: has_pending_work_def)

definition tiny_config :: Config where
  "tiny_config = Config_default\<lparr>max_message_size := 1\<rparr>"

theorem sending_drains_queue_witness:
  "let env = \<lparr>env_now = 0, env_sender = Some True, env_send_ok = True\<rparr>
   in case (mq_run (\<lambda>x. x) (\<lambda>e. 5) [(env, EvWants (Some (UpdateWants [1, 2] [3])))] (mq_loop_new tiny_config ())
              :: ((nat, unit, unit) mq_output list \<times> _) checked) of
        Inl p \<Rightarrow> False
      | Inr (out, l) \<Rightarrow>
          pending_work_count (mq_wants (ml_actor l)) = 3 \<and>
          \<not> has_pending_work (mq_wants ((send_round (\<lambda>e. 5) env ^^ 3) (ml_actor l)))"
proof -
  let ?env = "\<lparr>env_now = 0, env_sender = Some True, env_send_ok = True\<rparr>"
  let ?evs = "[(?env, EvWants (Some (UpdateWants [1::nat, 2] [3])))]"
  let ?run = "mq_run (\<lambda>x. x) (\<lambda>e. 5) ?evs (mq_loop_new tiny_config ()) :: ((nat, unit, unit) mq_output list \<times> _) checked"
  have "case ?run of Inl p \<Rightarrow> False
      | Inr (out, l) \<Rightarrow> sender_of ?env (ml_actor l) \<noteq> None \<and> pending_work_count (mq_wants (ml_actor l)) = 3"
    by (simp add: mq_loop_new_def MessageQueueActor_new_def tiny_config_def Config_default_def add_peer_want_def decr_i32_def
        RecallWantlist_add_def RecallWantlist_default_def Wantlist_default_def Wantlist_add_def signal_work_def sender_of_def
        pending_work_count_def Wantlist_len_def) blast
  then obtain out l where run: "?run = Inr (out, l)" "sender_of ?env (ml_actor l) \<noteq> None"
    "pending_work_count (mq_wants (ml_actor l)) = 3"
    by (auto split: sum.splits)
  from sending_drains_queue [OF run(1,2)] run(3) show ?thesis unfolding Let_def run(1) by simp
qed

end
