(* ===== verification/Pin_Store.thy ===== *)
theory Pin_Store
  imports Ipfs_Prelude "HOL-Library.Char_ord" "HOL-Library.List_Lexorder"
begin

text \<open>
  Pins (\<open>repo/mod.rs\<close>) and their in-memory store (\<open>repo/datastore/memory.rs\<close>): a hash map from the bytes
  of a cid to a serialized pin document. A document says whether the cid is pinned directly, how it
  is pinned recursively and through which recursive roots it is pinned indirectly.

  The functions of the cid crate and of the JSON serializer that the code calls are the record
  \<open>pin_api\<close>; \<open>pin_laws\<close> states that what they write they read back and that \<open>new_v1\<close> gives a
  version 1 cid. A stream of references is the list of its items, each a cid or the error
  that ended it. The counter of references is an \<open>i32\<close>, as the source leaves its type to the
  default.

  The contract of the store is an abstract map from cids to pin states without documents, bytes or
  serialization; the store refines it.
\<close>

section \<open>Pins\<close>

datatype PinMode = Mode_Indirect | Mode_Direct | Mode_Recursive

datatype 'cid PinKind = IndirectFrom 'cid | Direct | Recursive nat | RecursiveIntention

datatype Recursive = Rec_Count nat | Rec_Intent | Rec_Not

definition Recursive_is_set :: "Recursive \<Rightarrow> bool" where
  "Recursive_is_set r = (case r of Rec_Count _ \<Rightarrow> True | Rec_Intent \<Rightarrow> True | Rec_Not \<Rightarrow> False)"

record PinDocument =
  pd_version :: nat
  pd_direct :: bool
  pd_recursive :: Recursive
  pd_cid_version :: nat
  indirect_by :: "string list"

datatype PinUpdateError =
    UnexpectedNumberOfDescendants nat nat
  | NotPinnedRecursive
  | AlreadyPinnedRecursive
  | CannotUnpinUnpinned
  | CannotUnpinDirectOnRecursivelyPinned

record ('cid, 'b) pin_api =
  pin_to_bytes :: "'cid \<Rightarrow> 'b list"
  pin_try_from :: "'b list \<Rightarrow> 'cid option"
  pin_to_string :: "'cid \<Rightarrow> string"
  pin_from_str :: "string \<Rightarrow> 'cid option"
  pin_is_v1 :: "'cid \<Rightarrow> bool"
  pin_new_v1 :: "'cid \<Rightarrow> 'cid"
  doc_to_vec :: "PinDocument \<Rightarrow> 'b list"
  doc_from_slice :: "'b list \<Rightarrow> PinDocument option"

definition pin_laws :: "('cid, 'b) pin_api \<Rightarrow> bool" where
  "pin_laws api \<longleftrightarrow>
     (\<forall>c. pin_try_from api (pin_to_bytes api c) = Some c) \<and>
     (\<forall>c. pin_from_str api (pin_to_string api c) = Some c) \<and>
     (\<forall>c. pin_is_v1 api (pin_new_v1 api c)) \<and>
     (\<forall>d. doc_from_slice api (doc_to_vec api d) = Some d)"

definition to_v1 :: "('cid, 'b) pin_api \<Rightarrow> 'cid \<Rightarrow> 'cid" where
  "to_v1 api c = (if pin_is_v1 api c then c else pin_new_v1 api c)"

section \<open>Documents\<close>

definition update_indirect :: "bool \<Rightarrow> string \<Rightarrow> PinDocument \<Rightarrow> bool \<times> PinDocument" where
  "update_indirect add root doc =
     (if indirect_by doc = []
      then if add then (True, doc\<lparr>indirect_by := indirect_by doc @ [root]\<rparr>) else (False, doc)
      else let set0 = sort (remdups (indirect_by doc));
               modified = (if add then root \<notin> set set0 else root \<in> set set0);
               set1 = (if add then (if root \<in> set set0 then set0 else insort root set0) else removeAll root set0)
           in (modified, doc\<lparr>indirect_by := set1\<rparr>))"

definition update_direct :: "bool \<Rightarrow> PinDocument \<Rightarrow> PinUpdateError + bool \<times> PinDocument" where
  "update_direct add doc =
     (if Recursive_is_set (pd_recursive doc) \<and> \<not> pd_direct doc \<and> add then Inl AlreadyPinnedRecursive
      else if \<not> add \<and> \<not> pd_direct doc
           then if \<not> Recursive_is_set (pd_recursive doc) then Inl CannotUnpinUnpinned
                else Inl CannotUnpinDirectOnRecursivelyPinned
           else Inr (pd_direct doc \<noteq> add, doc\<lparr>pd_direct := add\<rparr>))"

definition update_intention :: "bool \<Rightarrow> PinDocument \<Rightarrow> PinUpdateError + bool \<times> PinDocument" where
  "update_intention add doc =
     (if add
      then case pd_recursive doc of
             Rec_Count _ \<Rightarrow> Inl AlreadyPinnedRecursive
           | Rec_Intent \<Rightarrow> Inr (False, doc)
           | Rec_Not \<Rightarrow> Inr (True, doc\<lparr>pd_recursive := Rec_Intent, pd_direct := False\<rparr>)
      else case pd_recursive doc of
             Rec_Not \<Rightarrow> Inr (False, doc)
           | _ \<Rightarrow> Inr (True, doc\<lparr>pd_recursive := Rec_Not\<rparr>))"

definition update_recursive :: "bool \<Rightarrow> nat \<Rightarrow> PinDocument \<Rightarrow> PinUpdateError + bool \<times> PinDocument" where
  "update_recursive add descendants doc =
     (if add
      then case pd_recursive doc of
             Rec_Count other \<Rightarrow>
               (if other \<noteq> descendants then Inl (UnexpectedNumberOfDescendants other descendants) else Inr (False, doc))
           | _ \<Rightarrow> Inr (True, doc\<lparr>pd_recursive := Rec_Count descendants, pd_direct := False\<rparr>)
      else case pd_recursive doc of
             Rec_Count other \<Rightarrow>
               (if other \<noteq> descendants then Inl (UnexpectedNumberOfDescendants other descendants)
                else Inr (True, doc\<lparr>pd_recursive := Rec_Not\<rparr>))
           | Rec_Intent \<Rightarrow> Inr (True, doc\<lparr>pd_recursive := Rec_Not\<rparr>)
           | Rec_Not \<Rightarrow> Inl NotPinnedRecursive)"

definition PinDocument_update ::
  "('cid, 'b) pin_api \<Rightarrow> bool \<Rightarrow> 'cid PinKind \<Rightarrow> PinDocument \<Rightarrow> PinUpdateError + bool \<times> PinDocument" where
  "PinDocument_update api add kind doc =
     (case kind of
        IndirectFrom root \<Rightarrow> Inr (update_indirect add (pin_to_string api (to_v1 api root)) doc)
      | Direct \<Rightarrow> update_direct add doc
      | RecursiveIntention \<Rightarrow> update_intention add doc
      | Recursive descendants \<Rightarrow> update_recursive add descendants doc)"

definition can_remove :: "PinDocument \<Rightarrow> bool" where
  "can_remove doc \<longleftrightarrow> \<not> pd_direct doc \<and> \<not> Recursive_is_set (pd_recursive doc) \<and> indirect_by doc = []"

definition PinDocument_mode :: "PinDocument \<Rightarrow> PinMode option" where
  "PinDocument_mode doc =
     (if Recursive_is_set (pd_recursive doc) then Some Mode_Recursive
      else if indirect_by doc \<noteq> [] then Some Mode_Indirect
      else if pd_direct doc then Some Mode_Direct
      else None)"

text \<open>The inner \<open>None\<close> is the error of a cid that cannot be parsed.\<close>

definition pick_kind :: "('cid, 'b) pin_api \<Rightarrow> PinDocument \<Rightarrow> 'cid PinKind option option checked" where
  "pick_kind api doc =
     (case PinDocument_mode doc of
        None \<Rightarrow> Inr None
      | Some Mode_Recursive \<Rightarrow>
          (case pd_recursive doc of
             Rec_Intent \<Rightarrow> Inr (Some (Some RecursiveIntention))
           | Rec_Count n \<Rightarrow> Inr (Some (Some (Recursive n)))
           | Rec_Not \<Rightarrow> Inl AssertFailed)
      | Some Mode_Indirect \<Rightarrow>
          (case indirect_by doc of
             [] \<Rightarrow> Inl OutOfRange
           | s # _ \<Rightarrow> Inr (Some (map_option IndirectFrom (pin_from_str api s))))
      | Some Mode_Direct \<Rightarrow> Inr (Some (Some Direct)))"

section \<open>The store\<close>

type_synonym 'b pins = "('b list, 'b list) hmap"

datatype 'cid pin_error =
    SerdeError
  | UpdateError PinUpdateError
  | NotPinned
  | NotPinnedOrIndirect
  | PinnedIndirectlyThrough 'cid
  | RefsError
  | InvalidCid
  | InvalidMode
  | CidNotPinned 'cid
  | CidNotPinnedAs 'cid PinMode
  | PinPanic panic

definition new_document :: "('cid, 'b) pin_api \<Rightarrow> 'cid \<Rightarrow> PinDocument" where
  "new_document api target =
     \<lparr>pd_version = 0, pd_direct = False, pd_recursive = Rec_Not,
      pd_cid_version = (if pin_is_v1 api target then 1 else 0), indirect_by = []\<rparr>"

definition insert_pin :: "('cid, 'b) pin_api \<Rightarrow> 'cid \<Rightarrow> 'cid PinKind \<Rightarrow> 'b pins \<Rightarrow> 'cid pin_error + bool \<times> 'b pins" where
  "insert_pin api target kind g =
     (let key = pin_to_bytes api target
      in case map_of g key of
           Some raw \<Rightarrow>
             (case doc_from_slice api raw of
                None \<Rightarrow> Inl SerdeError
              | Some doc \<Rightarrow>
                  (case PinDocument_update api True kind doc of
                     Inl e \<Rightarrow> Inl (UpdateError e)
                   | Inr (modified, doc') \<Rightarrow>
                       Inr (if modified then (True, AList.update key (doc_to_vec api doc') g) else (False, g))))
         | None \<Rightarrow>
             (case PinDocument_update api True kind (new_document api target) of
                Inl e \<Rightarrow> Inl (PinPanic ExpectFailed)
              | Inr (_, doc') \<Rightarrow> Inr (True, AList.update key (doc_to_vec api doc') g)))"

definition remove_pin :: "('cid, 'b) pin_api \<Rightarrow> 'cid \<Rightarrow> 'cid PinKind \<Rightarrow> 'b pins \<Rightarrow> 'cid pin_error + bool \<times> 'b pins" where
  "remove_pin api target kind g =
     (let key = pin_to_bytes api target
      in case map_of g key of
           Some raw \<Rightarrow>
             (case doc_from_slice api raw of
                None \<Rightarrow> Inl SerdeError
              | Some doc \<Rightarrow>
                  (case PinDocument_update api False kind doc of
                     Inl e \<Rightarrow> Inl (UpdateError e)
                   | Inr (modified, doc') \<Rightarrow>
                       Inr (if \<not> modified then (False, g)
                            else if can_remove doc' then (True, AList.delete key g)
                            else (True, AList.update key (doc_to_vec api doc') g))))
         | None \<Rightarrow> Inl NotPinned)"

definition is_pinned :: "('cid, 'b) pin_api \<Rightarrow> 'cid \<Rightarrow> 'b pins \<Rightarrow> bool" where
  "is_pinned api block g \<longleftrightarrow> map_of g (pin_to_bytes api block) \<noteq> None"

text \<open>
  An operation returns its error, if any, and the store: a failing operation on several pins keeps
  what it already did.
\<close>

definition finish :: "'b pins \<Rightarrow> 'cid pin_error + bool \<times> 'b pins \<Rightarrow> 'cid pin_error option \<times> 'b pins" where
  "finish g r = (case r of Inl e \<Rightarrow> (Some e, g) | Inr (_, g') \<Rightarrow> (None, g'))"

definition insert_direct_pin :: "('cid, 'b) pin_api \<Rightarrow> 'cid \<Rightarrow> 'b pins \<Rightarrow> 'cid pin_error option \<times> 'b pins" where
  "insert_direct_pin api target g = finish g (insert_pin api target Direct g)"

definition remove_direct_pin :: "('cid, 'b) pin_api \<Rightarrow> 'cid \<Rightarrow> 'b pins \<Rightarrow> 'cid pin_error option \<times> 'b pins" where
  "remove_direct_pin api target g = finish g (remove_pin api target Direct g)"

abbreviation i32_max :: nat where
  "i32_max \<equiv> 2 ^ 31 - 1"

fun insert_refs ::
  "('cid, 'b) pin_api \<Rightarrow> 'cid PinKind \<Rightarrow> (unit + 'cid) list \<Rightarrow> nat \<Rightarrow> 'b pins \<Rightarrow> ('cid pin_error + nat) \<times> 'b pins" where
  "insert_refs api kind [] n g = (Inr n, g)"
| "insert_refs api kind (Inl _ # refs) n g = (Inl RefsError, g)"
| "insert_refs api kind (Inr next # refs) n g =
     (case insert_pin api next kind g of
        Inl e \<Rightarrow> (Inl e, g)
      | Inr (_, g') \<Rightarrow>
          (if n + 1 > i32_max then (Inl (PinPanic Overflow), g')
           else insert_refs api kind refs (n + 1) g'))"

definition insert_recursive_pin ::
  "('cid, 'b) pin_api \<Rightarrow> 'cid \<Rightarrow> (unit + 'cid) list \<Rightarrow> 'b pins \<Rightarrow> 'cid pin_error option \<times> 'b pins" where
  "insert_recursive_pin api target refs g =
     (case insert_pin api target RecursiveIntention g of
        Inl e \<Rightarrow> (Some e, g)
      | Inr (_, g1) \<Rightarrow>
          (case insert_refs api (IndirectFrom (to_v1 api target)) refs 0 g1 of
             (Inl e, g2) \<Rightarrow> (Some e, g2)
           | (Inr n, g2) \<Rightarrow> finish g2 (insert_pin api target (Recursive n) g2)))"

fun remove_refs ::
  "('cid, 'b) pin_api \<Rightarrow> 'cid PinKind \<Rightarrow> (unit + 'cid) list \<Rightarrow> 'b pins \<Rightarrow> 'cid pin_error option \<times> 'b pins" where
  "remove_refs api kind [] g = (None, g)"
| "remove_refs api kind (Inl _ # refs) g = (Some RefsError, g)"
| "remove_refs api kind (Inr next # refs) g =
     (case remove_pin api next kind g of
        Inl e \<Rightarrow> (Some e, g)
      | Inr (_, g') \<Rightarrow> remove_refs api kind refs g')"

definition remove_recursive_kind ::
  "('cid, 'b) pin_api \<Rightarrow> 'cid \<Rightarrow> 'cid PinKind \<Rightarrow> (unit + 'cid) list \<Rightarrow> 'b pins \<Rightarrow> 'cid pin_error option \<times> 'b pins" where
  "remove_recursive_kind api target kind refs g =
     (case remove_pin api target kind g of
        Inl e \<Rightarrow> (Some e, g)
      | Inr (_, g1) \<Rightarrow> remove_refs api (IndirectFrom (to_v1 api target)) refs g1)"

definition remove_recursive_pin ::
  "('cid, 'b) pin_api \<Rightarrow> 'cid \<Rightarrow> (unit + 'cid) list \<Rightarrow> 'b pins \<Rightarrow> 'cid pin_error option \<times> 'b pins" where
  "remove_recursive_pin api target refs g =
     (case map_of g (pin_to_bytes api target) of
        None \<Rightarrow> (Some NotPinnedOrIndirect, g)
      | Some raw \<Rightarrow>
          (case doc_from_slice api raw of
             None \<Rightarrow> (Some SerdeError, g)
           | Some doc \<Rightarrow>
               (case pick_kind api doc of
                  Inl p \<Rightarrow> (Some (PinPanic p), g)
                | Inr (Some (Some Direct)) \<Rightarrow> finish g (remove_pin api target Direct g)
                | Inr (Some (Some (IndirectFrom cid))) \<Rightarrow> (Some (PinnedIndirectlyThrough cid), g)
                | Inr (Some (Some kind)) \<Rightarrow> remove_recursive_kind api target kind refs g
                | _ \<Rightarrow> (Some NotPinnedOrIndirect, g))))"

section \<open>Listing and querying\<close>

type_synonym PinModeRequirement = "PinMode option"

definition kind_eq_mode :: "'cid PinKind \<Rightarrow> PinMode \<Rightarrow> bool" where
  "kind_eq_mode kind mode =
     (case (kind, mode) of
        (IndirectFrom _, Mode_Indirect) \<Rightarrow> True
      | (Direct, Mode_Direct) \<Rightarrow> True
      | (Recursive _, Mode_Recursive) \<Rightarrow> True
      | (RecursiveIntention, Mode_Recursive) \<Rightarrow> True
      | _ \<Rightarrow> False)"

definition requirement_matches :: "PinModeRequirement \<Rightarrow> (PinMode \<Rightarrow> bool) \<Rightarrow> bool" where
  "requirement_matches req eq = (case req of None \<Rightarrow> True | Some one \<Rightarrow> eq one)"

definition pin_list_one :: "('cid, 'b) pin_api \<Rightarrow> 'b list \<times> 'b list \<Rightarrow> 'cid pin_error + 'cid \<times> PinMode" where
  "pin_list_one api = (\<lambda>(key, raw).
     (case pin_try_from api key of
        None \<Rightarrow> Inl InvalidCid
      | Some cid \<Rightarrow>
          (case doc_from_slice api raw of
             None \<Rightarrow> Inl SerdeError
           | Some doc \<Rightarrow>
               (case PinDocument_mode doc of
                  None \<Rightarrow> Inl InvalidMode
                | Some mode \<Rightarrow> Inr (cid, mode)))))"

definition pin_list :: "('cid, 'b) pin_api \<Rightarrow> PinModeRequirement \<Rightarrow> 'b pins \<Rightarrow> ('cid pin_error + 'cid \<times> PinMode) list" where
  "pin_list api req g =
     filter (\<lambda>r. case r of Inr (_, mode) \<Rightarrow> requirement_matches req (\<lambda>m. mode = m) | Inl _ \<Rightarrow> True)
       (map (pin_list_one api) g)"

definition query_one ::
  "('cid, 'b) pin_api \<Rightarrow> PinModeRequirement \<Rightarrow> 'b pins \<Rightarrow> 'cid \<Rightarrow> 'cid pin_error + 'cid \<times> 'cid PinKind" where
  "query_one api req g cid =
     (case map_of g (pin_to_bytes api cid) of
        None \<Rightarrow> Inl (CidNotPinned cid)
      | Some raw \<Rightarrow>
          (case doc_from_slice api raw of
             None \<Rightarrow> Inl SerdeError
           | Some doc \<Rightarrow>
               (case pick_kind api doc of
                  Inl p \<Rightarrow> Inl (PinPanic p)
                | Inr None \<Rightarrow> Inl (CidNotPinned cid)
                | Inr (Some None) \<Rightarrow> Inl InvalidCid
                | Inr (Some (Some kind)) \<Rightarrow>
                    (if requirement_matches req (kind_eq_mode kind) then Inr (cid, kind)
                     else case req of Some mode \<Rightarrow> Inl (CidNotPinnedAs cid mode) | None \<Rightarrow> Inl (PinPanic ExpectFailed)))))"

fun collect_results :: "('e + 'a) list \<Rightarrow> 'e + 'a list" where
  "collect_results [] = Inr []"
| "collect_results (r # rs) = rbind r (\<lambda>x. rbind (collect_results rs) (\<lambda>xs. Inr (x # xs)))"

definition pin_query ::
  "('cid, 'b) pin_api \<Rightarrow> 'cid list \<Rightarrow> PinModeRequirement \<Rightarrow> 'b pins \<Rightarrow> 'cid pin_error + ('cid \<times> 'cid PinKind) list" where
  "pin_query api cids req g = collect_results (map (query_one api req g) cids)"

text \<open>The key-value part of the store.\<close>

record 'b MemDataStore =
  md_inner :: "('b list, 'b list) hmap"
  md_pin :: "'b pins"

definition MemDataStore_new :: "'b MemDataStore" where
  "MemDataStore_new = \<lparr>md_inner = [], md_pin = []\<rparr>"

definition data_contains :: "'b list \<Rightarrow> 'b MemDataStore \<Rightarrow> bool" where
  "data_contains key s \<longleftrightarrow> map_of (md_inner s) key \<noteq> None"

definition data_get :: "'b list \<Rightarrow> 'b MemDataStore \<Rightarrow> 'b list option" where
  "data_get key s = map_of (md_inner s) key"

definition data_put :: "'b list \<Rightarrow> 'b list \<Rightarrow> 'b MemDataStore \<Rightarrow> 'b MemDataStore" where
  "data_put key value s = s\<lparr>md_inner := AList.update key value (md_inner s)\<rparr>"

definition data_remove :: "'b list \<Rightarrow> 'b MemDataStore \<Rightarrow> 'b MemDataStore" where
  "data_remove key s = s\<lparr>md_inner := AList.delete key (md_inner s)\<rparr>"

definition data_iter :: "'b MemDataStore \<Rightarrow> ('b list \<times> 'b list) list" where
  "data_iter s = md_inner s"

definition data_wipe :: "'b MemDataStore \<Rightarrow> 'b MemDataStore" where
  "data_wipe s = s\<lparr>md_inner := [], md_pin := []\<rparr>"

section \<open>The contract\<close>

text \<open>What is known of a cid: nothing of documents, bytes or the order of roots.\<close>

record pin_state =
  s_direct :: bool
  s_recursive :: Recursive
  s_indirect :: "string set"

definition unpinned :: pin_state where
  "unpinned = \<lparr>s_direct = False, s_recursive = Rec_Not, s_indirect = {}\<rparr>"

definition spec_add :: "('cid, 'b) pin_api \<Rightarrow> 'cid PinKind \<Rightarrow> pin_state \<Rightarrow> PinUpdateError + pin_state" where
  "spec_add api kind st =
     (case kind of
        IndirectFrom r \<Rightarrow> Inr (st\<lparr>s_indirect := insert (pin_to_string api (to_v1 api r)) (s_indirect st)\<rparr>)
      | Direct \<Rightarrow> (if s_recursive st \<noteq> Rec_Not \<and> \<not> s_direct st then Inl AlreadyPinnedRecursive else Inr (st\<lparr>s_direct := True\<rparr>))
      | RecursiveIntention \<Rightarrow>
          (case s_recursive st of
             Rec_Not \<Rightarrow> Inr (st\<lparr>s_recursive := Rec_Intent, s_direct := False\<rparr>)
           | Rec_Intent \<Rightarrow> Inr st
           | Rec_Count _ \<Rightarrow> Inl AlreadyPinnedRecursive)
      | Recursive n \<Rightarrow>
          (case s_recursive st of
             Rec_Count m \<Rightarrow> (if m = n then Inr st else Inl (UnexpectedNumberOfDescendants m n))
           | _ \<Rightarrow> Inr (st\<lparr>s_recursive := Rec_Count n, s_direct := False\<rparr>)))"

definition spec_del :: "('cid, 'b) pin_api \<Rightarrow> 'cid PinKind \<Rightarrow> pin_state \<Rightarrow> PinUpdateError + pin_state" where
  "spec_del api kind st =
     (case kind of
        IndirectFrom r \<Rightarrow> Inr (st\<lparr>s_indirect := s_indirect st - {pin_to_string api (to_v1 api r)}\<rparr>)
      | Direct \<Rightarrow>
          (if s_direct st then Inr (st\<lparr>s_direct := False\<rparr>)
           else Inl (if s_recursive st = Rec_Not then CannotUnpinUnpinned else CannotUnpinDirectOnRecursivelyPinned))
      | RecursiveIntention \<Rightarrow> Inr (st\<lparr>s_recursive := Rec_Not\<rparr>)
      | Recursive n \<Rightarrow>
          (case s_recursive st of
             Rec_Count m \<Rightarrow> (if m = n then Inr (st\<lparr>s_recursive := Rec_Not\<rparr>) else Inl (UnexpectedNumberOfDescendants m n))
           | Rec_Intent \<Rightarrow> Inr (st\<lparr>s_recursive := Rec_Not\<rparr>)
           | Rec_Not \<Rightarrow> Inl NotPinnedRecursive))"

definition spec_kind :: "('cid, 'b) pin_api \<Rightarrow> pin_state \<Rightarrow> 'cid PinKind option" where
  "spec_kind api st =
     (case s_recursive st of
        Rec_Intent \<Rightarrow> Some RecursiveIntention
      | Rec_Count n \<Rightarrow> Some (Recursive n)
      | Rec_Not \<Rightarrow>
          (if s_indirect st \<noteq> {} then Some (IndirectFrom (the (pin_from_str api (Min (s_indirect st)))))
           else if s_direct st then Some Direct else None))"

type_synonym 'cid pin_map = "'cid \<Rightarrow> pin_state"

definition spec_insert :: "('cid, 'b) pin_api \<Rightarrow> 'cid \<Rightarrow> 'cid PinKind \<Rightarrow> 'cid pin_map \<Rightarrow> 'cid pin_error + 'cid pin_map" where
  "spec_insert api c kind f =
     (case spec_add api kind (f c) of Inl e \<Rightarrow> Inl (UpdateError e) | Inr st \<Rightarrow> Inr (f(c := st)))"

definition spec_remove :: "('cid, 'b) pin_api \<Rightarrow> 'cid \<Rightarrow> 'cid PinKind \<Rightarrow> 'cid pin_map \<Rightarrow> 'cid pin_error + 'cid pin_map" where
  "spec_remove api c kind f =
     (if f c = unpinned then Inl NotPinned
      else case spec_del api kind (f c) of Inl e \<Rightarrow> Inl (UpdateError e) | Inr st \<Rightarrow> Inr (f(c := st)))"

fun spec_insert_refs ::
  "('cid, 'b) pin_api \<Rightarrow> 'cid PinKind \<Rightarrow> (unit + 'cid) list \<Rightarrow> nat \<Rightarrow> 'cid pin_map \<Rightarrow> ('cid pin_error + nat) \<times> 'cid pin_map" where
  "spec_insert_refs api kind [] n f = (Inr n, f)"
| "spec_insert_refs api kind (Inl _ # refs) n f = (Inl RefsError, f)"
| "spec_insert_refs api kind (Inr c # refs) n f =
     (case spec_insert api c kind f of
        Inl e \<Rightarrow> (Inl e, f)
      | Inr f' \<Rightarrow> (if n + 1 > i32_max then (Inl (PinPanic Overflow), f') else spec_insert_refs api kind refs (n + 1) f'))"

fun spec_remove_refs ::
  "('cid, 'b) pin_api \<Rightarrow> 'cid PinKind \<Rightarrow> (unit + 'cid) list \<Rightarrow> 'cid pin_map \<Rightarrow> 'cid pin_error option \<times> 'cid pin_map" where
  "spec_remove_refs api kind [] f = (None, f)"
| "spec_remove_refs api kind (Inl _ # refs) f = (Some RefsError, f)"
| "spec_remove_refs api kind (Inr c # refs) f =
     (case spec_remove api c kind f of Inl e \<Rightarrow> (Some e, f) | Inr f' \<Rightarrow> spec_remove_refs api kind refs f')"

datatype 'cid pin_op =
    InsertDirect 'cid
  | RemoveDirect 'cid
  | InsertRecursive 'cid "(unit + 'cid) list"
  | RemoveRecursive 'cid "(unit + 'cid) list"

definition spec_finish :: "'cid pin_map \<Rightarrow> 'cid pin_error + 'cid pin_map \<Rightarrow> 'cid pin_error option \<times> 'cid pin_map" where
  "spec_finish f r = (case r of Inl e \<Rightarrow> (Some e, f) | Inr f' \<Rightarrow> (None, f'))"

fun spec_step :: "('cid, 'b) pin_api \<Rightarrow> 'cid pin_op \<Rightarrow> 'cid pin_map \<Rightarrow> 'cid pin_error option \<times> 'cid pin_map" where
  "spec_step api (InsertDirect c) f = spec_finish f (spec_insert api c Direct f)"
| "spec_step api (RemoveDirect c) f = spec_finish f (spec_remove api c Direct f)"
| "spec_step api (InsertRecursive c refs) f =
     (case spec_insert api c RecursiveIntention f of
        Inl e \<Rightarrow> (Some e, f)
      | Inr f1 \<Rightarrow>
          (case spec_insert_refs api (IndirectFrom (to_v1 api c)) refs 0 f1 of
             (Inl e, f2) \<Rightarrow> (Some e, f2)
           | (Inr n, f2) \<Rightarrow> spec_finish f2 (spec_insert api c (Recursive n) f2)))"
| "spec_step api (RemoveRecursive c refs) f =
     (case spec_kind api (f c) of
        None \<Rightarrow> (Some NotPinnedOrIndirect, f)
      | Some (IndirectFrom r) \<Rightarrow> (Some (PinnedIndirectlyThrough r), f)
      | Some Direct \<Rightarrow> spec_finish f (spec_remove api c Direct f)
      | Some kind \<Rightarrow>
          (case spec_remove api c kind f of
             Inl e \<Rightarrow> (Some e, f)
           | Inr f1 \<Rightarrow> spec_remove_refs api (IndirectFrom (to_v1 api c)) refs f1))"

fun pin_step :: "('cid, 'b) pin_api \<Rightarrow> 'cid pin_op \<Rightarrow> 'b pins \<Rightarrow> 'cid pin_error option \<times> 'b pins" where
  "pin_step api (InsertDirect c) g = insert_direct_pin api c g"
| "pin_step api (RemoveDirect c) g = remove_direct_pin api c g"
| "pin_step api (InsertRecursive c refs) g = insert_recursive_pin api c refs g"
| "pin_step api (RemoveRecursive c refs) g = remove_recursive_pin api c refs g"

section \<open>Documents implement pin states\<close>

definition doc_state :: "PinDocument \<Rightarrow> pin_state" where
  "doc_state d = \<lparr>s_direct = pd_direct d, s_recursive = pd_recursive d, s_indirect = set (indirect_by d)\<rparr>"

definition doc_ok :: "('cid, 'b) pin_api \<Rightarrow> PinDocument \<Rightarrow> bool" where
  "doc_ok api d \<longleftrightarrow>
     sorted_wrt (<) (indirect_by d) \<and> (\<forall>s\<in>set (indirect_by d). \<exists>r. s = pin_to_string api r) \<and>
     \<not> (pd_direct d \<and> pd_recursive d \<noteq> Rec_Not)"

lemma Recursive_is_set_iff: "Recursive_is_set r \<longleftrightarrow> r \<noteq> Rec_Not"
  by (cases r) (simp_all add: Recursive_is_set_def)

lemma can_remove_iff: "can_remove d \<longleftrightarrow> doc_state d = unpinned"
  by (auto simp: can_remove_def doc_state_def unpinned_def Recursive_is_set_iff)

lemma sorted_remdups_id: "sorted_wrt (<) (xs :: string list) \<Longrightarrow> sort (remdups xs) = xs"
  by (simp add: strict_sorted_iff distinct_remdups_id sorted_sort_id)

lemma update_indirect_spec:
  assumes "sorted_wrt (<) (indirect_by d)" "update_indirect add root d = (m, d')"
  shows "sorted_wrt (<) (indirect_by d')" "pd_direct d' = pd_direct d" "pd_recursive d' = pd_recursive d"
    "set (indirect_by d') = (if add then insert root (set (indirect_by d)) else set (indirect_by d) - {root})"
    "m \<longleftrightarrow> (root \<in> set (indirect_by d)) \<noteq> add"
proof -
  have s: "sorted (indirect_by d)" "distinct (indirect_by d)" using assms(1) by (simp_all add: strict_sorted_iff)
  show "sorted_wrt (<) (indirect_by d')"
    using assms(2) s sorted_remdups_id [OF assms(1)]
    by (auto simp: update_indirect_def Let_def strict_sorted_iff sorted_insort distinct_insort removeAll_filter_not_eq
        sorted_wrt_filter split: if_splits)
  show "pd_direct d' = pd_direct d" "pd_recursive d' = pd_recursive d"
    "set (indirect_by d') = (if add then insert root (set (indirect_by d)) else set (indirect_by d) - {root})"
    "m \<longleftrightarrow> (root \<in> set (indirect_by d)) \<noteq> add"
    using assms(2) sorted_remdups_id [OF assms(1)]
    by (auto simp: update_indirect_def Let_def set_insort_key split: if_splits)
qed

lemma update_add_spec:
  assumes "doc_ok api d"
  shows "case PinDocument_update api True kind d of
      Inl e \<Rightarrow> spec_add api kind (doc_state d) = Inl e
    | Inr (m, d') \<Rightarrow> spec_add api kind (doc_state d) = Inr (doc_state d') \<and> doc_ok api d' \<and>
        (m \<longleftrightarrow> doc_state d' \<noteq> doc_state d) \<and> doc_state d' \<noteq> unpinned"
proof (cases kind)
  case (IndirectFrom r)
  obtain m d' where u: "update_indirect True (pin_to_string api (to_v1 api r)) d = (m, d')" by (meson surj_pair)
  note sp = update_indirect_spec [OF _ u]
  show ?thesis using assms IndirectFrom u sp
    by (auto simp: PinDocument_update_def spec_add_def doc_ok_def doc_state_def unpinned_def)
next
  case Direct
  then show ?thesis using assms
    by (auto simp: PinDocument_update_def update_direct_def spec_add_def doc_ok_def doc_state_def unpinned_def
        Recursive_is_set_iff)
next
  case (Recursive n)
  then show ?thesis using assms
    by (auto simp: PinDocument_update_def update_recursive_def spec_add_def doc_ok_def doc_state_def unpinned_def
        split: Recursive.splits)
next
  case RecursiveIntention
  then show ?thesis using assms
    by (auto simp: PinDocument_update_def update_intention_def spec_add_def doc_ok_def doc_state_def unpinned_def
        split: Recursive.splits)
qed

lemma update_del_spec:
  assumes "doc_ok api d"
  shows "case PinDocument_update api False kind d of
      Inl e \<Rightarrow> spec_del api kind (doc_state d) = Inl e
    | Inr (m, d') \<Rightarrow> spec_del api kind (doc_state d) = Inr (doc_state d') \<and> doc_ok api d' \<and>
        (m \<longleftrightarrow> doc_state d' \<noteq> doc_state d)"
proof (cases kind)
  case (IndirectFrom r)
  obtain m d' where u: "update_indirect False (pin_to_string api (to_v1 api r)) d = (m, d')" by (meson surj_pair)
  note sp = update_indirect_spec [OF _ u]
  show ?thesis using assms IndirectFrom u sp
    by (auto simp: PinDocument_update_def spec_del_def doc_ok_def doc_state_def)
next
  case Direct
  then show ?thesis using assms
    by (auto simp: PinDocument_update_def update_direct_def spec_del_def doc_ok_def doc_state_def Recursive_is_set_iff)
next
  case (Recursive n)
  then show ?thesis using assms
    by (auto simp: PinDocument_update_def update_recursive_def spec_del_def doc_ok_def doc_state_def
        split: Recursive.splits)
next
  case RecursiveIntention
  then show ?thesis using assms
    by (auto simp: PinDocument_update_def update_intention_def spec_del_def doc_ok_def doc_state_def
        split: Recursive.splits)
qed

lemma pick_kind_spec:
  assumes "pin_laws api" "doc_ok api d"
  shows "pick_kind api d = Inr (map_option Some (spec_kind api (doc_state d)))"
proof (cases "pd_recursive d = Rec_Not \<and> indirect_by d \<noteq> []")
  case True
  then obtain s ss where ss: "indirect_by d = s # ss" by (cases "indirect_by d") auto
  have "Min (set (indirect_by d)) = s" using assms(2) ss by (auto simp: doc_ok_def intro!: Min_eqI)
  moreover obtain r where "s = pin_to_string api r" using assms(2) ss by (auto simp: doc_ok_def)
  ultimately show ?thesis using True ss assms(1)
    by (simp add: pick_kind_def PinDocument_mode_def spec_kind_def doc_state_def Recursive_is_set_def pin_laws_def)
next
  case False
  then show ?thesis
    by (auto simp: pick_kind_def PinDocument_mode_def spec_kind_def doc_state_def Recursive_is_set_def split: Recursive.splits)
qed

section \<open>The store implements the contract\<close>

definition pins_ok :: "('cid, 'b) pin_api \<Rightarrow> 'b pins \<Rightarrow> bool" where
  "pins_ok api g \<longleftrightarrow> hmap_ok g \<and>
     (\<forall>key raw. map_of g key = Some raw \<longrightarrow>
        (\<exists>c d. key = pin_to_bytes api c \<and> raw = doc_to_vec api d \<and> doc_ok api d \<and> doc_state d \<noteq> unpinned))"

definition pins_abs :: "('cid, 'b) pin_api \<Rightarrow> 'b pins \<Rightarrow> 'cid pin_map" where
  "pins_abs api g c =
     (case map_of g (pin_to_bytes api c) of
        None \<Rightarrow> unpinned
      | Some raw \<Rightarrow> (case doc_from_slice api raw of None \<Rightarrow> unpinned | Some d \<Rightarrow> doc_state d))"

lemma pin_lawsD:
  assumes "pin_laws api"
  shows "pin_to_bytes api c = pin_to_bytes api c' \<longleftrightarrow> c = c'" "doc_from_slice api (doc_to_vec api d) = Some d"
    "pin_try_from api (pin_to_bytes api c) = Some c" "pin_from_str api (pin_to_string api c) = Some c"
  using assms unfolding pin_laws_def by (metis option.inject)+

lemma pins_cases:
  assumes "pin_laws api" "pins_ok api g"
  obtains (absent) "map_of g (pin_to_bytes api c) = None" "pins_abs api g c = unpinned"
  | (present) d where "map_of g (pin_to_bytes api c) = Some (doc_to_vec api d)" "doc_ok api d" "doc_state d \<noteq> unpinned"
      "pins_abs api g c = doc_state d"
proof (cases "map_of g (pin_to_bytes api c)")
  case None
  then show thesis using absent by (simp add: pins_abs_def)
next
  case (Some raw)
  with assms(2) obtain d where "raw = doc_to_vec api d" "doc_ok api d" "doc_state d \<noteq> unpinned" unfolding pins_ok_def by blast
  with Some present pin_lawsD(2) [OF assms(1)] show thesis by (simp add: pins_abs_def)
qed

lemma pins_update:
  assumes "pin_laws api" "pins_ok api g"
  shows "doc_ok api d \<Longrightarrow> doc_state d \<noteq> unpinned \<Longrightarrow> pins_ok api (AList.update (pin_to_bytes api c) (doc_to_vec api d) g)"
    "pins_abs api (AList.update (pin_to_bytes api c) (doc_to_vec api d) g) = (pins_abs api g)(c := doc_state d)"
    "pins_ok api (AList.delete (pin_to_bytes api c) g)"
    "pins_abs api (AList.delete (pin_to_bytes api c) g) = (pins_abs api g)(c := unpinned)"
  using assms pin_lawsD [OF assms(1)]
  by (auto simp: pins_ok_def pins_abs_def fun_eq_iff split: if_splits)

lemma doc_ok_new: "doc_ok api (new_document api c)" "doc_state (new_document api c) = unpinned"
  by (simp_all add: doc_ok_def new_document_def doc_state_def unpinned_def)

lemma insert_pin_refines:
  assumes "pin_laws api" "pins_ok api g"
  shows "case insert_pin api c kind g of
      Inl e \<Rightarrow> spec_insert api c kind (pins_abs api g) = Inl e
    | Inr (m, g') \<Rightarrow> spec_insert api c kind (pins_abs api g) = Inr (pins_abs api g') \<and> pins_ok api g'"
proof (rule pins_cases [OF assms, of c])
  assume a: "map_of g (pin_to_bytes api c) = None" "pins_abs api g c = unpinned"
  have "\<exists>m d'. PinDocument_update api True kind (new_document api c) = Inr (m, d')"
    by (cases kind)
      (simp_all add: PinDocument_update_def new_document_def update_direct_def update_intention_def update_recursive_def
        update_indirect_def Recursive_is_set_def, blast+)
  then obtain m d' where u: "PinDocument_update api True kind (new_document api c) = Inr (m, d')" by blast
  show ?thesis
    using a u update_add_spec [OF doc_ok_new(1) [of api c], of kind] pins_update [OF assms] doc_ok_new(2) [of api c]
    by (simp add: insert_pin_def spec_insert_def)
next
  fix d
  assume p: "map_of g (pin_to_bytes api c) = Some (doc_to_vec api d)" "doc_ok api d" "doc_state d \<noteq> unpinned"
    "pins_abs api g c = doc_state d"
  have same: "(pins_abs api g)(c := doc_state d) = pins_abs api g" using p(4) by (simp add: fun_upd_idem)
  show ?thesis
    using p update_add_spec [OF p(2), of kind] pins_update [OF assms] pin_lawsD(2) [OF assms(1)] assms(2) same
    by (cases "PinDocument_update api True kind d") (auto simp: insert_pin_def spec_insert_def Let_def)
qed

lemma remove_pin_refines:
  assumes "pin_laws api" "pins_ok api g"
  shows "case remove_pin api c kind g of
      Inl e \<Rightarrow> spec_remove api c kind (pins_abs api g) = Inl e
    | Inr (m, g') \<Rightarrow> spec_remove api c kind (pins_abs api g) = Inr (pins_abs api g') \<and> pins_ok api g'"
proof (rule pins_cases [OF assms, of c])
  assume "map_of g (pin_to_bytes api c) = None" "pins_abs api g c = unpinned"
  then show ?thesis by (simp add: remove_pin_def spec_remove_def)
next
  fix d
  assume p: "map_of g (pin_to_bytes api c) = Some (doc_to_vec api d)" "doc_ok api d" "doc_state d \<noteq> unpinned"
    "pins_abs api g c = doc_state d"
  have same: "(pins_abs api g)(c := doc_state d) = pins_abs api g" using p(4) by (simp add: fun_upd_idem)
  show ?thesis
    using p update_del_spec [OF p(2), of kind] pins_update [OF assms] pin_lawsD(2) [OF assms(1)] assms(2) same
    by (cases "PinDocument_update api False kind d") (auto simp: remove_pin_def spec_remove_def can_remove_iff Let_def)
qed

lemma insert_refs_refines:
  assumes laws: "pin_laws api"
  shows "pins_ok api g \<Longrightarrow> insert_refs api kind refs n g = (r, g') \<Longrightarrow>
    spec_insert_refs api kind refs n (pins_abs api g) = (r, pins_abs api g') \<and> pins_ok api g'"
proof (induction refs arbitrary: n g)
  case (Cons x refs)
  show ?case
  proof (cases x)
    case (Inr c)
    from insert_pin_refines [OF laws Cons.prems(1), of c kind] Cons.IH Cons.prems Inr show ?thesis
      by (cases "insert_pin api c kind g") (auto split: if_splits)
  qed (use Cons.prems in auto)
qed simp

lemma remove_refs_refines:
  assumes laws: "pin_laws api"
  shows "pins_ok api g \<Longrightarrow> remove_refs api kind refs g = (r, g') \<Longrightarrow>
    spec_remove_refs api kind refs (pins_abs api g) = (r, pins_abs api g') \<and> pins_ok api g'"
proof (induction refs arbitrary: g)
  case (Cons x refs)
  show ?case
  proof (cases x)
    case (Inr c)
    from remove_pin_refines [OF laws Cons.prems(1), of c kind] Cons.IH Cons.prems Inr show ?thesis
      by (cases "remove_pin api c kind g") auto
  qed (use Cons.prems in auto)
qed simp

lemma finish_refines:
  assumes "pins_ok api g" "case r of Inl e \<Rightarrow> sr = Inl e | Inr (m, g') \<Rightarrow> sr = Inr (pins_abs api g') \<and> pins_ok api g'"
    and "finish g r = (e, g')"
  shows "spec_finish (pins_abs api g) sr = (e, pins_abs api g') \<and> pins_ok api g'"
  using assms by (cases r) (auto simp: finish_def spec_finish_def)

lemma remove_recursive_refines:
  assumes laws: "pin_laws api" and ok: "pins_ok api g" and st: "remove_recursive_pin api c refs g = (e, g')"
  shows "spec_step api (RemoveRecursive c refs) (pins_abs api g) = (e, pins_abs api g') \<and> pins_ok api g'"
proof (rule pins_cases [OF laws ok, of c])
  assume "map_of g (pin_to_bytes api c) = None" "pins_abs api g c = unpinned"
  then show ?thesis using st ok by (auto simp: remove_recursive_pin_def spec_kind_def unpinned_def)
next
  fix d
  assume p: "map_of g (pin_to_bytes api c) = Some (doc_to_vec api d)" "doc_ok api d" "doc_state d \<noteq> unpinned"
    "pins_abs api g c = doc_state d"
  note pk = pick_kind_spec [OF laws p(2)]
  have st': "(case spec_kind api (doc_state d) of
        None \<Rightarrow> (Some NotPinnedOrIndirect, g)
      | Some (IndirectFrom r) \<Rightarrow> (Some (PinnedIndirectlyThrough r), g)
      | Some Direct \<Rightarrow> finish g (remove_pin api c Direct g)
      | Some kind \<Rightarrow> remove_recursive_kind api c kind refs g) = (e, g')"
    using st p(1) pk pin_lawsD(2) [OF laws]
    by (auto simp: remove_recursive_pin_def split: option.splits PinKind.splits)
  have rk: "remove_recursive_kind api c kind refs g = (e, g') \<Longrightarrow>
      (case spec_remove api c kind (pins_abs api g) of
         Inl e \<Rightarrow> (Some e, pins_abs api g)
       | Inr f1 \<Rightarrow> spec_remove_refs api (IndirectFrom (to_v1 api c)) refs f1) = (e, pins_abs api g') \<and> pins_ok api g'" for kind
    using remove_pin_refines [OF laws ok, of c kind] remove_refs_refines [OF laws] ok
    by (cases "remove_pin api c kind g") (auto simp: remove_recursive_kind_def)
  show ?thesis
  proof (cases "spec_kind api (doc_state d)")
    case None
    then show ?thesis using st' p(4) ok by auto
  next
    case (Some kind)
    then show ?thesis
      using st' p(4) ok rk [of kind] finish_refines [OF ok remove_pin_refines [OF laws ok, of c Direct]]
      by (cases kind) auto
  qed
qed

lemma pin_step_refines:
  assumes laws: "pin_laws api" and ok: "pins_ok api g" and st: "pin_step api x g = (e, g')"
  shows "spec_step api x (pins_abs api g) = (e, pins_abs api g') \<and> pins_ok api g'"
proof (cases x)
  case (InsertDirect c)
  with st finish_refines [OF ok insert_pin_refines [OF laws ok, of c Direct]] show ?thesis by (simp add: insert_direct_pin_def)
next
  case (RemoveDirect c)
  with st finish_refines [OF ok remove_pin_refines [OF laws ok, of c Direct]] show ?thesis by (simp add: remove_direct_pin_def)
next
  case (RemoveRecursive c refs)
  with st remove_recursive_refines [OF laws ok] show ?thesis by simp
next
  case (InsertRecursive c refs)
  note one = insert_pin_refines [OF laws ok, of c RecursiveIntention]
  show ?thesis
  proof (cases "insert_pin api c RecursiveIntention g")
    case (Inl e1)
    then show ?thesis using st InsertRecursive one ok by (auto simp: insert_recursive_pin_def)
  next
    case (Inr mg)
    obtain m g1 where mg: "mg = (m, g1)" by (meson surj_pair)
    have g1: "spec_insert api c RecursiveIntention (pins_abs api g) = Inr (pins_abs api g1)" "pins_ok api g1"
      using one Inr mg by simp_all
    obtain r g2 where l: "insert_refs api (IndirectFrom (to_v1 api c)) refs 0 g1 = (r, g2)" by (meson surj_pair)
    note two = insert_refs_refines [OF laws g1(2) l]
    then have g2: "pins_ok api g2" by blast
    note three = finish_refines [OF g2 insert_pin_refines [OF laws g2, of c]]
    show ?thesis using st InsertRecursive Inr mg g1 l two three g2
      by (cases r) (auto simp: insert_recursive_pin_def)
  qed
qed

fun pin_run :: "('cid, 'b) pin_api \<Rightarrow> 'cid pin_op list \<Rightarrow> 'b pins \<Rightarrow> 'cid pin_error option list \<times> 'b pins" where
  "pin_run api [] g = ([], g)"
| "pin_run api (x # xs) g = (let (e, g1) = pin_step api x g; (es, g2) = pin_run api xs g1 in (e # es, g2))"

fun spec_run :: "('cid, 'b) pin_api \<Rightarrow> 'cid pin_op list \<Rightarrow> 'cid pin_map \<Rightarrow> 'cid pin_error option list \<times> 'cid pin_map" where
  "spec_run api [] f = ([], f)"
| "spec_run api (x # xs) f = (let (e, f1) = spec_step api x f; (es, f2) = spec_run api xs f1 in (e # es, f2))"

lemma pin_run_refines:
  assumes laws: "pin_laws api"
  shows "pins_ok api g \<Longrightarrow> pin_run api xs g = (es, g') \<Longrightarrow>
    spec_run api xs (pins_abs api g) = (es, pins_abs api g') \<and> pins_ok api g'"
proof (induction xs arbitrary: g es)
  case (Cons x xs)
  obtain e g1 where one: "pin_step api x g = (e, g1)" by (meson surj_pair)
  obtain es1 g2 where two: "pin_run api xs g1 = (es1, g2)" by (meson surj_pair)
  note r = pin_step_refines [OF laws Cons.prems(1) one]
  have "spec_run api xs (pins_abs api g1) = (es1, pins_abs api g2) \<and> pins_ok api g2"
    using Cons.IH [of g1 es1] r two Cons.prems(2) one by simp
  then show ?case using r one two Cons.prems(2) by simp
qed simp

lemma pins_empty: "pins_ok api []" "pins_abs api [] = (\<lambda>_. unpinned)"
  by (simp_all add: pins_ok_def pins_abs_def fun_eq_iff)

lemma pins_reachable_ok: "pin_laws api \<Longrightarrow> pins_ok api (snd (pin_run api xs []))"
  using pin_run_refines [OF _ pins_empty(1), of api xs] by (metis prod.collapse)

section \<open>Undoing a recursive pin\<close>

lemma spec_insert_refs_all:
  "distinct rs \<Longrightarrow> n + length rs \<le> i32_max \<Longrightarrow>
   spec_insert_refs api (IndirectFrom t) (map Inr rs) n f =
     (Inr (n + length rs),
      \<lambda>c. if c \<in> set rs then (f c)\<lparr>s_indirect := insert (pin_to_string api (to_v1 api t)) (s_indirect (f c))\<rparr> else f c)"
proof (induction rs arbitrary: n f)
  case (Cons r rs)
  let ?f = "f(r := (f r)\<lparr>s_indirect := insert (pin_to_string api (to_v1 api t)) (s_indirect (f r))\<rparr>)"
  have "spec_insert_refs api (IndirectFrom t) (map Inr (r # rs)) n f =
      spec_insert_refs api (IndirectFrom t) (map Inr rs) (n + 1) ?f"
    using Cons.prems(2) by (simp add: spec_insert_def spec_add_def)
  also have "\<dots> = (Inr (n + 1 + length rs), \<lambda>c. if c \<in> set rs
      then (?f c)\<lparr>s_indirect := insert (pin_to_string api (to_v1 api t)) (s_indirect (?f c))\<rparr> else ?f c)"
    using Cons.prems by (intro Cons.IH) simp_all
  finally show ?case using Cons.prems(1) by (auto simp: fun_eq_iff)
qed (simp add: fun_eq_iff)

lemma spec_remove_refs_all:
  "distinct rs \<Longrightarrow> list_all (\<lambda>c. pin_to_string api (to_v1 api t) \<in> s_indirect (f c)) rs \<Longrightarrow>
   spec_remove_refs api (IndirectFrom t) (map Inr rs) f =
     (None, \<lambda>c. if c \<in> set rs then (f c)\<lparr>s_indirect := s_indirect (f c) - {pin_to_string api (to_v1 api t)}\<rparr> else f c)"
proof (induction rs arbitrary: f)
  case (Cons r rs)
  let ?f = "f(r := (f r)\<lparr>s_indirect := s_indirect (f r) - {pin_to_string api (to_v1 api t)}\<rparr>)"
  have "f r \<noteq> unpinned" using Cons.prems(2) by (auto simp: unpinned_def)
  then have "spec_remove_refs api (IndirectFrom t) (map Inr (r # rs)) f =
      spec_remove_refs api (IndirectFrom t) (map Inr rs) ?f"
    by (simp add: spec_remove_def spec_del_def)
  also have "\<dots> = (None, \<lambda>c. if c \<in> set rs
      then (?f c)\<lparr>s_indirect := s_indirect (?f c) - {pin_to_string api (to_v1 api t)}\<rparr> else ?f c)"
    using Cons.prems by (intro Cons.IH) (auto simp: list_all_iff)
  finally show ?case using Cons.prems(1) by (auto simp: fun_eq_iff)
qed (simp add: fun_eq_iff)

lemma spec_recursive_round_trip:
  assumes "distinct rs" "length rs \<le> i32_max" "t \<notin> set rs" "s_recursive (f t) = Rec_Not" "\<not> s_direct (f t)"
    and "\<forall>c\<in>set rs. pin_to_string api (to_v1 api (to_v1 api t)) \<notin> s_indirect (f c)"
  obtains f1 where "spec_step api (InsertRecursive t (map Inr rs)) f = (None, f1)"
    "spec_step api (RemoveRecursive t (map Inr rs)) f1 = (None, f)" "s_recursive (f1 t) = Rec_Count (length rs)"
proof -
  let ?s = "pin_to_string api (to_v1 api (to_v1 api t))"
  let ?f0 = "f(t := (f t)\<lparr>s_recursive := Rec_Intent, s_direct := False\<rparr>)"
  let ?f1 = "\<lambda>c. if c \<in> set rs then (?f0 c)\<lparr>s_indirect := insert ?s (s_indirect (?f0 c))\<rparr> else ?f0 c"
  let ?f2 = "?f1(t := (f t)\<lparr>s_recursive := Rec_Count (length rs), s_direct := False\<rparr>)"
  let ?f3 = "?f2(t := f t)"
  have ins: "spec_step api (InsertRecursive t (map Inr rs)) f = (None, ?f2)"
    using assms(3,4) spec_insert_refs_all [OF assms(1), of 0 api "to_v1 api t" ?f0] assms(2)
    by (simp add: spec_insert_def spec_add_def spec_finish_def)
  have ft: "(f t)\<lparr>s_direct := False, s_recursive := Rec_Not\<rparr> = f t" using assms(4,5) by simp
  have "?f2 t \<noteq> unpinned" by (auto simp: unpinned_def dest!: arg_cong [where f = s_recursive])
  then have "spec_remove api t (Recursive (length rs)) ?f2 = Inr ?f3"
    using ft by (simp add: spec_remove_def spec_del_def)
  moreover have "spec_remove_refs api (IndirectFrom (to_v1 api t)) (map Inr rs) ?f3 = (None, f)"
  proof -
    have "list_all (\<lambda>c. ?s \<in> s_indirect (?f3 c)) rs" using assms(3) by (auto simp: list_all_iff)
    note rem = spec_remove_refs_all [OF assms(1) this]
    have "(\<lambda>c. if c \<in> set rs then (?f3 c)\<lparr>s_indirect := s_indirect (?f3 c) - {?s}\<rparr> else ?f3 c) = f"
    proof
      fix c show "(if c \<in> set rs then (?f3 c)\<lparr>s_indirect := s_indirect (?f3 c) - {?s}\<rparr> else ?f3 c) = f c"
        using assms(3,6) by (cases "c = t") auto
    qed
    with rem show ?thesis by (simp only:)
  qed
  ultimately have "spec_step api (RemoveRecursive t (map Inr rs)) ?f2 = (None, f)"
    by (simp add: spec_kind_def)
  with ins that show thesis by auto
qed

lemma recursive_pin_undone:
  assumes laws: "pin_laws api" and ok: "pins_ok api g" and "distinct rs" "length rs \<le> i32_max" "t \<notin> set rs"
    and "s_recursive (pins_abs api g t) = Rec_Not" "\<not> s_direct (pins_abs api g t)"
    and "\<forall>c\<in>set rs. pin_to_string api (to_v1 api (to_v1 api t)) \<notin> s_indirect (pins_abs api g c)"
  shows "\<exists>g1 g2. insert_recursive_pin api t (map Inr rs) g = (None, g1) \<and>
    remove_recursive_pin api t (map Inr rs) g1 = (None, g2) \<and> pins_abs api g2 = pins_abs api g \<and>
    s_recursive (pins_abs api g1 t) = Rec_Count (length rs)"
proof -
  obtain f1 where f1: "spec_step api (InsertRecursive t (map Inr rs)) (pins_abs api g) = (None, f1)"
    "spec_step api (RemoveRecursive t (map Inr rs)) f1 = (None, pins_abs api g)" "s_recursive (f1 t) = Rec_Count (length rs)"
    by (rule spec_recursive_round_trip [OF assms(3-8)])
  obtain e1 g1 where one: "pin_step api (InsertRecursive t (map Inr rs)) g = (e1, g1)" by (meson surj_pair)
  obtain e2 g2 where two: "pin_step api (RemoveRecursive t (map Inr rs)) g1 = (e2, g2)" by (meson surj_pair)
  have r1: "spec_step api (InsertRecursive t (map Inr rs)) (pins_abs api g) = (e1, pins_abs api g1)" "pins_ok api g1"
    using pin_step_refines [OF laws ok one] by blast+
  have "spec_step api (RemoveRecursive t (map Inr rs)) (pins_abs api g1) = (e2, pins_abs api g2)"
    using pin_step_refines [OF laws r1(2) two] by blast
  then have "e1 = None" "pins_abs api g1 = f1" "e2 = None" "pins_abs api g2 = pins_abs api g" using f1 r1 by auto
  then show ?thesis using one two f1(3) by auto
qed

section \<open>Listing\<close>

text \<open>The mode a listing reports for a pin.\<close>

definition spec_mode :: "pin_state \<Rightarrow> PinMode option" where
  "spec_mode st =
     (if s_recursive st \<noteq> Rec_Not then Some Mode_Recursive
      else if s_indirect st \<noteq> {} then Some Mode_Indirect
      else if s_direct st then Some Mode_Direct else None)"

lemma PinDocument_mode_spec: "PinDocument_mode d = spec_mode (doc_state d)"
  by (simp add: PinDocument_mode_def spec_mode_def doc_state_def Recursive_is_set_iff)

lemma spec_mode_None: "spec_mode st = None \<longleftrightarrow> st = unpinned"
  by (cases st) (auto simp: spec_mode_def unpinned_def)

lemma kind_eq_spec_mode: "spec_kind api st = Some k \<Longrightarrow> kind_eq_mode k m \<longleftrightarrow> spec_mode st = Some m"
  by (cases m) (auto simp: spec_kind_def spec_mode_def kind_eq_mode_def split: Recursive.splits if_splits)

lemma pin_list_one_spec:
  assumes "pin_laws api" "pins_ok api g" "(key, raw) \<in> set g"
  obtains c m where "key = pin_to_bytes api c" "pin_list_one api (key, raw) = Inr (c, m)" "spec_mode (pins_abs api g c) = Some m"
proof -
  have m: "map_of g key = Some raw" using assms(2,3) by (simp add: pins_ok_def set_hmap_ok)
  with assms(2) obtain c d where cd: "key = pin_to_bytes api c" "raw = doc_to_vec api d" "doc_state d \<noteq> unpinned"
    unfolding pins_ok_def by blast
  have "pins_abs api g c = doc_state d" using m cd pin_lawsD(2) [OF assms(1)] by (simp add: pins_abs_def)
  moreover obtain mo where "spec_mode (doc_state d) = Some mo" using cd(3) spec_mode_None [of "doc_state d"] by auto
  ultimately show thesis using that [of c mo] cd(1,2) pin_lawsD [OF assms(1)] by (simp add: pin_list_one_def PinDocument_mode_spec)
qed

lemma pin_list_spec:
  assumes "pin_laws api" "pins_ok api g"
  shows "distinct (pin_list api req g) \<and>
    set (pin_list api req g) = {Inr (c, m) |c m. spec_mode (pins_abs api g c) = Some m \<and> (req = None \<or> req = Some m)}"
proof -
  have dg: "distinct (map fst g)" using assms(2) by (simp add: pins_ok_def hmap_ok_def)
  have inj: "inj_on (pin_list_one api) (set g)"
  proof (rule inj_onI)
    fix x y assume xy: "x \<in> set g" "y \<in> set g" "pin_list_one api x = pin_list_one api y"
    obtain k r k' r' where p: "x = (k, r)" "y = (k', r')" by (meson surj_pair)
    obtain c m where x: "k = pin_to_bytes api c" "pin_list_one api (k, r) = Inr (c, m)"
      by (rule pin_list_one_spec [OF assms xy(1) [unfolded p]])
    obtain c' m' where y: "k' = pin_to_bytes api c'" "pin_list_one api (k', r') = Inr (c', m')"
      by (rule pin_list_one_spec [OF assms xy(2) [unfolded p]])
    have "k = k'" using x y xy(3) p by simp
    then show "x = y" using eq_key_imp_eq_value [OF dg, of k r r'] xy(1,2) p by simp
  qed
  moreover have "distinct g" using dg by (simp add: distinct_map)
  ultimately have "distinct (map (pin_list_one api) g)" by (simp only: distinct_map)
  moreover have "set (map (pin_list_one api) g) = {Inr (c, m) |c m. spec_mode (pins_abs api g c) = Some m}"
  proof (intro equalityI subsetI)
    fix x assume "x \<in> set (map (pin_list_one api) g)"
    then obtain k r where k: "(k, r) \<in> set g" "x = pin_list_one api (k, r)" by auto
    show "x \<in> {Inr (c, m) |c m. spec_mode (pins_abs api g c) = Some m}"
      by (rule pin_list_one_spec [OF assms k(1)]) (use k(2) in blast)
  next
    fix x :: "'a pin_error + 'a \<times> PinMode"
    assume "x \<in> {Inr (c, m) |c m. spec_mode (pins_abs api g c) = Some m}"
    then obtain c m where x: "x = Inr (c, m)" "spec_mode (pins_abs api g c) = Some m" by blast
    show "x \<in> set (map (pin_list_one api) g)"
    proof (rule pins_cases [OF assms, of c])
      assume "pins_abs api g c = unpinned"
      then show ?thesis using x(2) by (simp add: spec_mode_def unpinned_def)
    next
      fix d
      assume d: "map_of g (pin_to_bytes api c) = Some (doc_to_vec api d)" "pins_abs api g c = doc_state d"
      have "pin_list_one api (pin_to_bytes api c, doc_to_vec api d) = x"
        using x d(2) pin_lawsD [OF assms(1)] by (simp add: pin_list_one_def PinDocument_mode_spec)
      then show ?thesis using map_of_SomeD [OF d(1)] by force
    qed
  qed
  ultimately show ?thesis unfolding pin_list_def set_filter distinct_filter
    by (cases req) (auto simp: requirement_matches_def)
qed

section \<open>Properties\<close>

text \<open>C5: The store of serialized pin documents refines an abstract map from cids to pin states: every sequence of
  operations returns the same errors and leaves the same pins as the contract prescribes.\<close>

theorem pin_store_refines:
  assumes "pin_laws api"
  shows "spec_run api xs (\<lambda>_. unpinned) = (fst (pin_run api xs []), pins_abs api (snd (pin_run api xs [])))"
  using pin_run_refines [OF assms pins_empty(1), of xs "fst (pin_run api xs [])" "snd (pin_run api xs [])"]
  by (simp add: pins_empty(2))

definition sample_pins :: "(nat, nat + PinDocument) pin_api" where
  "sample_pins =
     \<lparr>pin_to_bytes = (\<lambda>c. [Inl c]), pin_try_from = (\<lambda>b. case b of [Inl c] \<Rightarrow> Some c | _ \<Rightarrow> None),
      pin_to_string = (\<lambda>c. replicate c (CHR ''x'')), pin_from_str = (\<lambda>s. Some (length s)),
      pin_is_v1 = (\<lambda>c. True), pin_new_v1 = (\<lambda>c. c), doc_to_vec = (\<lambda>d. [Inr d]),
      doc_from_slice = (\<lambda>b. case b of [Inr d] \<Rightarrow> Some d | _ \<Rightarrow> None)\<rparr>"

lemma sample_pins_laws: "pin_laws sample_pins"
  by (simp add: pin_laws_def sample_pins_def)

theorem pin_store_refines_witness:
  "pin_laws sample_pins \<and>
   fst (pin_run sample_pins [InsertDirect 1, InsertRecursive 1 [Inr 2], InsertDirect 1] []) =
     fst (spec_run sample_pins [InsertDirect 1, InsertRecursive 1 [Inr 2], InsertDirect 1] (\<lambda>_. unpinned)) \<and>
   fst (spec_run sample_pins [InsertDirect 1, InsertRecursive 1 [Inr 2], InsertDirect 1] (\<lambda>_. unpinned)) =
     [None, None, Some (UpdateError AlreadyPinnedRecursive)]"
proof -
  let ?xs = "[InsertDirect 1, InsertRecursive 1 [Inr 2], InsertDirect 1]"
  have "fst (spec_run sample_pins ?xs (\<lambda>_. unpinned)) = [None, None, Some (UpdateError AlreadyPinnedRecursive)]"
    by (simp add: spec_insert_def spec_add_def spec_finish_def unpinned_def)
  moreover have "fst (spec_run sample_pins ?xs (\<lambda>_. unpinned)) = fst (pin_run sample_pins ?xs [])"
    by (simp only: pin_store_refines [OF sample_pins_laws] fst_conv)
  ultimately show ?thesis using sample_pins_laws by simp
qed

text \<open>C36: Removing a recursive pin undoes inserting it: if the cid was not pinned directly or recursively and none of
  its references, each given once, was pinned through it, then inserting and removing the recursive pin succeed and
  leave every cid pinned as before.\<close>

theorem recursive_pin_round_trip:
  assumes laws: "pin_laws api"
    and "g = snd (pin_run api xs [])" "distinct rs" "length rs \<le> i32_max" "t \<notin> set rs"
    and "s_recursive (pins_abs api g t) = Rec_Not" "\<not> s_direct (pins_abs api g t)"
    and "\<forall>c\<in>set rs. pin_to_string api (to_v1 api (to_v1 api t)) \<notin> s_indirect (pins_abs api g c)"
  shows "\<exists>g1 g2. insert_recursive_pin api t (map Inr rs) g = (None, g1) \<and>
    remove_recursive_pin api t (map Inr rs) g1 = (None, g2) \<and> pins_abs api g2 = pins_abs api g \<and>
    s_recursive (pins_abs api g1 t) = Rec_Count (length rs)"
  using recursive_pin_undone [OF laws pins_reachable_ok [OF laws, of xs, folded assms(2)] assms(3-8)] .

theorem recursive_pin_round_trip_witness:
  "\<exists>g1 g2. insert_recursive_pin sample_pins 1 [Inr 2, Inr 3] (snd (pin_run sample_pins [InsertDirect 2] [])) = (None, g1) \<and>
     remove_recursive_pin sample_pins 1 [Inr 2, Inr 3] g1 = (None, g2) \<and>
     pins_abs sample_pins g2 2 = \<lparr>s_direct = True, s_recursive = Rec_Not, s_indirect = {}\<rparr>"
proof -
  let ?g = "snd (pin_run sample_pins [InsertDirect 2] [])"
  have g: "?g = [([Inl 2], [Inr \<lparr>pd_version = 0, pd_direct = True, pd_recursive = Rec_Not, pd_cid_version = 1, indirect_by = []\<rparr>])]"
    by (simp add: insert_direct_pin_def insert_pin_def finish_def sample_pins_def new_document_def PinDocument_update_def
        update_direct_def Recursive_is_set_def)
  have a: "pins_abs sample_pins ?g c =
      (if c = 2 then \<lparr>s_direct = True, s_recursive = Rec_Not, s_indirect = {}\<rparr> else unpinned)" for c
    unfolding g by (simp add: pins_abs_def sample_pins_def doc_state_def)
  have "\<exists>g1 g2. insert_recursive_pin sample_pins 1 (map Inr [2, 3]) ?g = (None, g1) \<and>
      remove_recursive_pin sample_pins 1 (map Inr [2, 3]) g1 = (None, g2) \<and> pins_abs sample_pins g2 = pins_abs sample_pins ?g \<and>
      s_recursive (pins_abs sample_pins g1 1) = Rec_Count (length [2::nat, 3])"
    by (rule recursive_pin_round_trip [OF sample_pins_laws refl]) (simp_all add: a unpinned_def del: pin_run.simps)
  then obtain g1 g2 where r: "insert_recursive_pin sample_pins 1 (map Inr [2, 3]) ?g = (None, g1)"
      "remove_recursive_pin sample_pins 1 (map Inr [2, 3]) g1 = (None, g2)" "pins_abs sample_pins g2 = pins_abs sample_pins ?g"
    by blast
  have "pins_abs sample_pins g2 2 = \<lparr>s_direct = True, s_recursive = Rec_Not, s_indirect = {}\<rparr>" unfolding r(3) a by simp
  with r(1,2) show ?thesis by auto
qed

text \<open>C37: Whatever was pinned and unpinned, every stored document can be read. Listing pins with a requirement on the mode
  yields exactly the pinned cids whose mode meets it, each once and with its mode, and no error. A query for a cid, with or
  without such a requirement, answers with the kind of its pin; it fails exactly if the cid is not pinned, or is pinned with
  another mode than the required one.\<close>

theorem pin_queries_total:
  assumes "pin_laws api" "g = snd (pin_run api xs [])"
  shows "distinct (pin_list api req g) \<and>
    set (pin_list api req g) = {Inr (c, m) |c m. spec_mode (pins_abs api g c) = Some m \<and> (req = None \<or> req = Some m)} \<and>
    (is_pinned api c g \<longleftrightarrow> pins_abs api g c \<noteq> unpinned) \<and>
    query_one api req g c =
      (case spec_kind api (pins_abs api g c) of
         None \<Rightarrow> Inl (CidNotPinned c)
       | Some k \<Rightarrow>
           (case req of
              None \<Rightarrow> Inr (c, k)
            | Some m \<Rightarrow> if spec_mode (pins_abs api g c) = Some m then Inr (c, k) else Inl (CidNotPinnedAs c m)))"
proof -
  have ok: "pins_ok api g" using pins_reachable_ok [OF assms(1)] assms(2) by simp
  have "query_one api req g c =
      (case spec_kind api (pins_abs api g c) of None \<Rightarrow> Inl (CidNotPinned c)
       | Some k \<Rightarrow> (case req of None \<Rightarrow> Inr (c, k)
            | Some m \<Rightarrow> if spec_mode (pins_abs api g c) = Some m then Inr (c, k) else Inl (CidNotPinnedAs c m))) \<and>
      (is_pinned api c g \<longleftrightarrow> pins_abs api g c \<noteq> unpinned)"
  proof (rule pins_cases [OF assms(1) ok, of c])
    assume "map_of g (pin_to_bytes api c) = None" "pins_abs api g c = unpinned"
    then show ?thesis by (simp add: is_pinned_def query_one_def spec_kind_def unpinned_def)
  next
    fix d
    assume p: "map_of g (pin_to_bytes api c) = Some (doc_to_vec api d)" "doc_ok api d" "doc_state d \<noteq> unpinned"
      "pins_abs api g c = doc_state d"
    show ?thesis using p pick_kind_spec [OF assms(1) p(2)] pin_lawsD(2) [OF assms(1)]
      by (auto simp: is_pinned_def query_one_def requirement_matches_def kind_eq_spec_mode split: option.split)
  qed
  then show ?thesis using pin_list_spec [OF assms(1) ok, of req] by blast
qed

theorem pin_queries_total_witness:
  "let g = snd (pin_run sample_pins [InsertDirect 2] [])
   in pin_laws sample_pins \<and> set (pin_list sample_pins None g) = {Inr (2, Mode_Direct)} \<and>
      set (pin_list sample_pins (Some Mode_Recursive) g) = {} \<and> is_pinned sample_pins 2 g \<and>
      query_one sample_pins (Some Mode_Direct) g 2 = Inr (2, Direct) \<and>
      query_one sample_pins (Some Mode_Recursive) g 2 = Inl (CidNotPinnedAs 2 Mode_Recursive) \<and>
      query_one sample_pins None g 3 = Inl (CidNotPinned 3)"
proof -
  let ?g = "snd (pin_run sample_pins [InsertDirect 2] [])"
  have g: "?g = [([Inl 2], [Inr \<lparr>pd_version = 0, pd_direct = True, pd_recursive = Rec_Not, pd_cid_version = 1, indirect_by = []\<rparr>])]"
    by (simp add: insert_direct_pin_def insert_pin_def finish_def sample_pins_def new_document_def PinDocument_update_def
        update_direct_def Recursive_is_set_def)
  have a: "pins_abs sample_pins ?g c =
      (if c = 2 then \<lparr>s_direct = True, s_recursive = Rec_Not, s_indirect = {}\<rparr> else unpinned)" for c
    unfolding g by (simp add: pins_abs_def sample_pins_def doc_state_def)
  have m: "spec_mode (pins_abs sample_pins ?g c) = (if c = 2 then Some Mode_Direct else None)" for c
    unfolding a by (simp add: spec_mode_def unpinned_def)
  note q = pin_queries_total [OF sample_pins_laws, of ?g "[InsertDirect 2]", OF refl]
  have "set (pin_list sample_pins None ?g) = {Inr (2, Mode_Direct)}" "set (pin_list sample_pins (Some Mode_Recursive) ?g) = {}"
    using q [of None] q [of "Some Mode_Recursive"] unfolding m by (auto simp del: pin_run.simps split: if_splits)
  moreover have "is_pinned sample_pins 2 ?g" "query_one sample_pins (Some Mode_Direct) ?g 2 = Inr (2, Direct)"
      "query_one sample_pins (Some Mode_Recursive) ?g 2 = Inl (CidNotPinnedAs 2 Mode_Recursive)"
      "query_one sample_pins None ?g 3 = Inl (CidNotPinned 3)"
    using conjunct2 [OF conjunct2 [OF q [of "Some Mode_Direct" 2]]] conjunct2 [OF conjunct2 [OF q [of "Some Mode_Recursive" 2]]]
      conjunct2 [OF conjunct2 [OF q [of None 3]]]
    unfolding a by (simp_all add: spec_kind_def spec_mode_def unpinned_def del: pin_run.simps)
  ultimately show ?thesis using sample_pins_laws unfolding Let_def by blast
qed

end
