(* ===== verification/Ipld_Refs.thy ===== *)
theory Ipld_Refs
  imports Ipfs_Prelude
begin

text \<open>
  The walk over the references of IPLD documents (\<open>refs.rs\<close>): breadth first, optionally reporting
  each document once, optionally bounded in depth.

  The codec of a cid, the decoder of a block and the iterator over the values of a document are
  functions of libipld and are the record \<open>ipld_api\<close>. A document is the type of libipld with its public
  constructors; a map is an association list. The stream is the list of its items and
  how it ended: at its end, in a panic, or suspended in a \<open>get_block\<close> whose block is awaited from the
  network. What loading a block gives is an argument of the walk.

  The walk may not end on a cyclic graph, so its loop is a partial function; for a walk
  that reports each document once it is shown to end, and to report
  exactly the documents that can be reached.
\<close>

section \<open>Documents\<close>

datatype 'cid ipld =
    Ipld_Null
  | Ipld_Bool bool
  | Ipld_Integer int
  | Ipld_Float nat
  | Ipld_String string
  | Ipld_Bytes "nat list"
  | Ipld_List "'cid ipld list"
  | Ipld_Map "(string \<times> 'cid ipld) list"
  | Ipld_Link 'cid

record ('cid, 'blk) ipld_api =
  codec_is_dagpb :: "'cid \<Rightarrow> bool"
  block_decode :: "'blk \<Rightarrow> 'cid ipld option"
  ipld_iter :: "'cid ipld \<Rightarrow> 'cid ipld list"

record 'cid Edge =
  source :: 'cid
  destination :: 'cid
  link_name :: "string option"

datatype 'cid IpldRefsError = Loading | BlockNotFound 'cid

record IpldRefs =
  max_depth :: "nat option"
  unique :: bool
  download_blocks :: bool

definition IpldRefs_default :: IpldRefs where
  "IpldRefs_default = \<lparr>max_depth = None, unique = False, download_blocks = True\<rparr>"

definition with_max_depth :: "nat \<Rightarrow> IpldRefs \<Rightarrow> IpldRefs" where
  "with_max_depth depth opts = opts\<lparr>max_depth := Some depth\<rparr>"

definition with_only_unique :: "IpldRefs \<Rightarrow> IpldRefs" where
  "with_only_unique opts = opts\<lparr>unique := True\<rparr>"

definition with_existing_blocks :: "IpldRefs \<Rightarrow> IpldRefs" where
  "with_existing_blocks opts = opts\<lparr>download_blocks := False\<rparr>"

section \<open>The links of a document\<close>

text \<open>One entry of the list \<open>Links\<close>: an entry without \<open>Hash\<close> is skipped, any other deviation panics.\<close>

definition dagpb_link :: "'cid ipld \<Rightarrow> (string option \<times> 'cid) option checked" where
  "dagpb_link ipld =
     (case ipld of
        Ipld_Map m \<Rightarrow>
          (case map_of m ''Hash'' of
             Some (Ipld_Link cid) \<Rightarrow>
               (case map_of m ''Name'' of
                  Some (Ipld_String s) \<Rightarrow> (if s = ''/'' then Inl AssertFailed else Inr (Some (Some s, cid)))
                | _ \<Rightarrow> Inl AssertFailed)
           | Some _ \<Rightarrow> Inl AssertFailed
           | None \<Rightarrow> Inr None)
      | _ \<Rightarrow> Inl AssertFailed)"

fun dagpb_link_list :: "'cid ipld list \<Rightarrow> (string option \<times> 'cid) list checked" where
  "dagpb_link_list [] = Inr []"
| "dagpb_link_list (x # xs) =
     rbind (dagpb_link x) (\<lambda>l. rbind (dagpb_link_list xs) (\<lambda>ls. Inr (case l of None \<Rightarrow> ls | Some e \<Rightarrow> e # ls)))"

definition dagpb_links :: "'cid ipld \<Rightarrow> (string option \<times> 'cid) list checked" where
  "dagpb_links ipld =
     (case ipld of
        Ipld_Map m \<Rightarrow> (case map_of m ''Links'' of Some (Ipld_List v) \<Rightarrow> dagpb_link_list v | _ \<Rightarrow> Inl AssertFailed)
      | _ \<Rightarrow> Inr [])"

definition ipld_links :: "('cid, 'blk) ipld_api \<Rightarrow> 'cid \<Rightarrow> 'cid ipld \<Rightarrow> (string option \<times> 'cid) list checked" where
  "ipld_links api cid ipld =
     (if codec_is_dagpb api cid then dagpb_links ipld
      else Inr (List.map_filter (\<lambda>val. case val of Ipld_Link c \<Rightarrow> Some (None, c) | _ \<Rightarrow> None) (ipld_iter api ipld)))"

section \<open>The walk\<close>

type_synonym 'cid work = "(nat \<times> 'cid \<times> 'cid \<times> string option) list"

datatype 'blk loaded = Loaded 'blk | LoadFailed | LoadPending

datatype 'cid walk_end = Finished | Suspended 'cid | Panicked panic

type_synonym 'cid walk = "('cid IpldRefsError + 'cid Edge) list \<times> 'cid walk_end"

text \<open>Queues the links of a document at a depth and marks them if each is reported once.\<close>

fun push_links ::
  "bool \<Rightarrow> nat \<Rightarrow> 'cid \<Rightarrow> (string option \<times> 'cid) list \<Rightarrow> 'cid work \<Rightarrow> 'cid list \<Rightarrow> 'cid work \<times> 'cid list" where
  "push_links uniq depth origin [] work seen = (work, seen)"
| "push_links uniq depth origin ((name, next) # ls) work seen =
     (if uniq \<and> next \<in> set seen then push_links uniq depth origin ls work seen
      else push_links uniq depth origin ls (work @ [(depth, next, origin, name)]) (if uniq then next # seen else seen))"

fun start_links ::
  "('cid, 'blk) ipld_api \<Rightarrow> bool \<Rightarrow> ('cid \<times> 'cid ipld) list \<Rightarrow> 'cid work \<Rightarrow> 'cid list \<Rightarrow> ('cid work \<times> 'cid list) checked" where
  "start_links api uniq [] work seen = Inr (work, seen)"
| "start_links api uniq ((origin, ipld) # iplds) work seen =
     rbind (ipld_links api origin ipld) (\<lambda>ls.
       let (work', seen') = push_links uniq 0 origin ls work seen in start_links api uniq iplds work' seen')"

abbreviation u64_max :: nat where
  "u64_max \<equiv> 2 ^ 64 - 1"

partial_function (option) refs_loop ::
  "('cid, 'blk) ipld_api \<Rightarrow> ('cid \<Rightarrow> 'blk loaded) \<Rightarrow> IpldRefs \<Rightarrow> 'cid work \<Rightarrow> 'cid list \<Rightarrow>
   ('cid IpldRefsError + 'cid Edge) list \<Rightarrow> 'cid walk option" where
  "refs_loop api load opts work seen items =
     (case work of
        [] \<Rightarrow> Some (items, Finished)
      | (depth, cid, src, name) # rest \<Rightarrow>
          (if (case max_depth opts of Some d \<Rightarrow> d \<le> depth | None \<Rightarrow> False) then refs_loop api load opts rest seen items
           else if max_depth opts = Some u64_max then Some (items, Panicked Overflow)
           else let traverse_links = (case max_depth opts of Some d \<Rightarrow> d + 1 \<noteq> depth | None \<Rightarrow> True)
           in (case load cid of
                 LoadPending \<Rightarrow> Some (items, Suspended cid)
               | LoadFailed \<Rightarrow>
                   (if download_blocks opts then refs_loop api load opts rest seen items
                    else Some (items @ [Inl (BlockNotFound cid)], Finished))
               | Loaded block \<Rightarrow>
                   (case block_decode api block of
                      None \<Rightarrow> refs_loop api load opts rest seen (items @ [Inl Loading])
                    | Some ipld \<Rightarrow>
                        (let edge = \<lparr>source = src, destination = cid, link_name = name\<rparr>
                         in if \<not> traverse_links then refs_loop api load opts rest seen (items @ [Inr edge])
                            else (case ipld_links api cid ipld of
                                    Inl p \<Rightarrow> Some (items, Panicked p)
                                  | Inr ls \<Rightarrow>
                                      (let (work', seen') = push_links (unique opts) (depth + 1) cid ls rest seen
                                       in if depth = u64_max \<and> work' \<noteq> rest then Some (items, Panicked Overflow)
                                          else refs_loop api load opts work' seen' (items @ [Inr edge]))))))))"

definition iplds_refs_inner ::
  "('cid, 'blk) ipld_api \<Rightarrow> ('cid \<Rightarrow> 'blk loaded) \<Rightarrow> IpldRefs \<Rightarrow> ('cid \<times> 'cid ipld) list \<Rightarrow> 'cid walk option" where
  "iplds_refs_inner api load opts iplds =
     (if max_depth opts = Some 0 then Some ([], Finished)
      else case start_links api (unique opts) iplds [] [] of
             Inl p \<Rightarrow> Some ([], Panicked p)
           | Inr (work, seen) \<Rightarrow> refs_loop api load opts work seen [])"

definition refs_of_resolved ::
  "('cid, 'blk) ipld_api \<Rightarrow> ('cid \<Rightarrow> 'blk loaded) \<Rightarrow> IpldRefs \<Rightarrow> ('cid \<times> 'cid ipld) list \<Rightarrow> 'cid walk option" where
  "refs_of_resolved api load opts iplds = iplds_refs_inner api load opts iplds"

text \<open>The stream with the errors of a loading; an item with another error panics when it is yielded.\<close>

fun map_loading :: "('cid IpldRefsError + 'cid Edge) list \<Rightarrow> 'cid walk_end \<Rightarrow> (unit + 'cid Edge) list \<times> 'cid walk_end" where
  "map_loading [] e = ([], e)"
| "map_loading (Inl (BlockNotFound _) # items) e = ([], Panicked AssertFailed)"
| "map_loading (Inl Loading # items) e = apfst (Cons (Inl ())) (map_loading items e)"
| "map_loading (Inr edge # items) e = apfst (Cons (Inr edge)) (map_loading items e)"

definition iplds_refs ::
  "('cid, 'blk) ipld_api \<Rightarrow> ('cid \<Rightarrow> 'blk loaded) \<Rightarrow> ('cid \<times> 'cid ipld) list \<Rightarrow> nat option \<Rightarrow> bool \<Rightarrow>
   ((unit + 'cid Edge) list \<times> 'cid walk_end) option" where
  "iplds_refs api load iplds depth uniq =
     map_option (\<lambda>(items, e). map_loading items e)
       (iplds_refs_inner api load \<lparr>max_depth = depth, unique = uniq, download_blocks = True\<rparr> iplds)"

section \<open>Reachable documents\<close>

text \<open>The links that a walk follows from a cid: none if its block cannot be loaded and decoded.\<close>

definition decoded :: "('cid, 'blk) ipld_api \<Rightarrow> ('cid \<Rightarrow> 'blk loaded) \<Rightarrow> 'cid \<Rightarrow> 'cid ipld option" where
  "decoded api load cid = (case load cid of Loaded b \<Rightarrow> block_decode api b | _ \<Rightarrow> None)"

definition succs :: "('cid, 'blk) ipld_api \<Rightarrow> ('cid \<Rightarrow> 'blk loaded) \<Rightarrow> 'cid \<Rightarrow> 'cid set" where
  "succs api load cid =
     (case decoded api load cid of
        None \<Rightarrow> {}
      | Some ipld \<Rightarrow> (case ipld_links api cid ipld of Inl _ \<Rightarrow> {} | Inr ls \<Rightarrow> snd ` set ls))"

inductive refs_reach :: "('cid, 'blk) ipld_api \<Rightarrow> ('cid \<Rightarrow> 'blk loaded) \<Rightarrow> 'cid set \<Rightarrow> 'cid \<Rightarrow> bool"
  for api load S where
  reach_start: "c \<in> S \<Longrightarrow> refs_reach api load S c"
| reach_step: "refs_reach api load S c \<Longrightarrow> d \<in> succs api load c \<Longrightarrow> refs_reach api load S d"

text \<open>No block is awaited and no document makes the links panic.\<close>

definition walkable :: "('cid, 'blk) ipld_api \<Rightarrow> ('cid \<Rightarrow> 'blk loaded) \<Rightarrow> 'cid set \<Rightarrow> bool" where
  "walkable api load C \<longleftrightarrow>
     (\<forall>c\<in>C. load c \<noteq> LoadPending \<and>
        (case decoded api load c of None \<Rightarrow> True | Some ipld \<Rightarrow> \<exists>ls. ipld_links api c ipld = Inr ls))"

definition edges :: "('cid IpldRefsError + 'cid Edge) list \<Rightarrow> 'cid list" where
  "edges items = List.map_filter (\<lambda>i. case i of Inr e \<Rightarrow> Some (destination e) | Inl _ \<Rightarrow> None) items"

lemma edges_simps [simp]:
  "edges [] = []" "edges (xs @ ys) = edges xs @ edges ys" "edges (Inl e # xs) = edges xs"
  "edges (Inr e' # xs) = destination e' # edges xs"
  by (simp_all add: edges_def List.map_filter_def)

abbreviation work_cids :: "'cid work \<Rightarrow> 'cid list" where
  "work_cids work \<equiv> map (\<lambda>(_, c, _). c) work"

lemma push_links_unique:
  "push_links True depth origin ls work seen = (work', seen') \<Longrightarrow>
   \<exists>new. work' = work @ new \<and> seen' = rev (work_cids new) @ seen \<and> distinct (work_cids new) \<and>
         set (work_cids new) \<inter> set seen = {} \<and> set (work_cids new) = snd ` set ls - set seen \<and>
         (\<forall>w\<in>set new. fst w = depth)"
proof (induction ls arbitrary: work seen)
  case Nil
  then show ?case by simp
next
  case (Cons l ls)
  obtain name nxt where l: "l = (name, nxt)" by (meson surj_pair)
  show ?case
  proof (cases "nxt \<in> set seen")
    case True
    have "push_links True depth origin ls work seen = (work', seen')" using Cons.prems True l by simp
    from Cons.IH [OF this] True l show ?thesis by auto
  next
    case False
    have "push_links True depth origin ls (work @ [(depth, nxt, origin, name)]) (nxt # seen) = (work', seen')"
      using Cons.prems False l by simp
    from Cons.IH [OF this] obtain new where
      n: "work' = work @ (depth, nxt, origin, name) # new" "seen' = rev (work_cids new) @ nxt # seen"
        "distinct (work_cids new)" "set (work_cids new) \<inter> set (nxt # seen) = {}"
        "set (work_cids new) = snd ` set ls - set (nxt # seen)" "\<forall>w\<in>set new. fst w = depth"
      by auto
    show ?thesis
      by (rule exI [of _ "(depth, nxt, origin, name) # new"]) (use n l False in \<open>auto simp del: set_map\<close>)
  qed
qed

text \<open>
  What a walk takes from its queue until it ends: everything queued and what that leads to, nothing
  that was taken before.
\<close>

definition pops :: "('cid, 'blk) ipld_api \<Rightarrow> ('cid \<Rightarrow> 'blk loaded) \<Rightarrow> 'cid work \<Rightarrow> 'cid list \<Rightarrow> 'cid set \<Rightarrow> bool" where
  "pops api load work seen P \<longleftrightarrow>
     set (work_cids work) \<subseteq> P \<and> P \<inter> (set seen - set (work_cids work)) = {} \<and>
     (\<forall>c\<in>P. succs api load c \<subseteq> P \<union> set seen) \<and> (\<forall>c\<in>P. refs_reach api load (set (work_cids work)) c)"

lemma refs_reach_trans:
  "refs_reach api load S' x \<Longrightarrow> \<forall>s\<in>S'. refs_reach api load S s \<Longrightarrow> refs_reach api load S x"
  by (induction rule: refs_reach.induct) (auto intro: reach_step)

lemma pops_step:
  assumes "pops api load (rest @ new) (rev (work_cids new) @ seen) P"
    and "set (work_cids ((d, c, s, n) # rest)) \<subseteq> set seen" and "distinct (work_cids ((d, c, s, n) # rest))"
    and "set (work_cids new) \<inter> set seen = {}" and "set (work_cids new) = succs api load c - set seen"
  shows "pops api load ((d, c, s, n) # rest) seen (insert c P)" and "c \<notin> P"
proof -
  let ?W = "set (work_cids ((d, c, s, n) # rest))" and ?N = "set (work_cids new)" and ?R = "set (work_cids rest)"
  have W: "?W = insert c ?R" "c \<notin> ?R" "c \<in> set seen" "?R \<subseteq> set seen" using assms(2,3) by auto
  have P: "?R \<union> ?N \<subseteq> P" "P \<inter> (?N \<union> set seen - (?R \<union> ?N)) = {}" "\<forall>x\<in>P. succs api load x \<subseteq> P \<union> (?N \<union> set seen)"
    "\<forall>x\<in>P. refs_reach api load (?R \<union> ?N) x"
    using assms(1) unfolding pops_def by (simp_all add: Un_commute)
  show c: "c \<notin> P" using P(2) W assms(4) by blast
  have "\<forall>x\<in>?R \<union> ?N. refs_reach api load ?W x"
  proof
    fix x assume "x \<in> ?R \<union> ?N"
    then consider "x \<in> ?R" | "x \<in> succs api load c" using assms(5) by blast
    then show "refs_reach api load ?W x"
      by cases (use W(1) in \<open>blast intro: reach_start reach_step\<close>)+
  qed
  then have r: "refs_reach api load ?W x" if "x \<in> P" for x
    using refs_reach_trans [OF bspec [OF P(4) that]] by simp
  show "pops api load ((d, c, s, n) # rest) seen (insert c P)"
    unfolding pops_def
  proof (intro conjI)
    show "?W \<subseteq> insert c P" using P(1) W(1) by blast
    show "insert c P \<inter> (set seen - ?W) = {}" using P(2) W assms(4) by blast
    show "\<forall>x\<in>insert c P. succs api load x \<subseteq> insert c P \<union> set seen" using P(1,3) assms(5) by blast
    show "\<forall>x\<in>insert c P. refs_reach api load ?W x" using r W(1) by (blast intro: reach_start)
  qed
qed

lemma pops_done: "pops api load [] seen {}"
  by (simp add: pops_def)

section \<open>A walk that reports each document once\<close>

abbreviation once :: "bool \<Rightarrow> IpldRefs" where
  "once dl \<equiv> \<lparr>max_depth = None, unique = True, download_blocks = dl\<rparr>"

definition undecodable :: "('cid, 'blk) ipld_api \<Rightarrow> ('cid \<Rightarrow> 'blk loaded) \<Rightarrow> 'cid \<Rightarrow> bool" where
  "undecodable api load c \<longleftrightarrow> (\<exists>b. load c = Loaded b \<and> block_decode api b = None)"

text \<open>The items of a walk that took the cids \<open>P\<close>.\<close>

definition reports :: "('cid, 'blk) ipld_api \<Rightarrow> ('cid \<Rightarrow> 'blk loaded) \<Rightarrow> 'cid set \<Rightarrow> ('cid IpldRefsError + 'cid Edge) list \<Rightarrow> bool" where
  "reports api load P items \<longleftrightarrow>
     distinct (edges items) \<and> set (edges items) = {c \<in> P. decoded api load c \<noteq> None} \<and>
     ((\<exists>e. Inl e \<in> set items) \<longleftrightarrow> (\<exists>c\<in>P. undecodable api load c))"

lemma reports_insert:
  assumes "reports api load P items" "c \<notin> P"
  shows "load c = LoadFailed \<Longrightarrow> reports api load (insert c P) items"
    and "undecodable api load c \<Longrightarrow> reports api load (insert c P) (Inl e # items)"
    and "decoded api load c = Some i \<Longrightarrow> destination x = c \<Longrightarrow> reports api load (insert c P) (Inr x # items)"
  using assms by (auto simp: reports_def undecodable_def decoded_def split: loaded.splits)

definition loop_inv :: "('cid, 'blk) ipld_api \<Rightarrow> ('cid \<Rightarrow> 'blk loaded) \<Rightarrow> 'cid set \<Rightarrow> nat \<Rightarrow> 'cid work \<Rightarrow> 'cid list \<Rightarrow> bool" where
  "loop_inv api load C k work seen \<longleftrightarrow>
     finite C \<and> (\<forall>c\<in>C. succs api load c \<subseteq> C) \<and>
     set seen \<subseteq> C \<and> set (work_cids work) \<subseteq> set seen \<and> distinct (work_cids work) \<and>
     (\<forall>w\<in>set work. fst w \<le> k) \<and> k + card (C - set seen) + length work \<le> card C"

lemma loop_inv_next:
  assumes "loop_inv api load C k ((d, c, s, n) # rest) seen"
    and "distinct (work_cids new)" and "set (work_cids new) \<inter> set seen = {}"
    and "set (work_cids new) = succs api load c - set seen" and "\<forall>w\<in>set new. fst w \<le> d + 1"
  shows "loop_inv api load C (k + 1) (rest @ new) (rev (work_cids new) @ seen)"
    and "card (C - set (rev (work_cids new) @ seen)) + length (rest @ new) <
         card (C - set seen) + length ((d, c, s, n) # rest)"
proof -
  let ?N = "set (work_cids new)" and ?seen' = "rev (work_cids new) @ seen"
  have I: "finite C" "\<forall>c\<in>C. succs api load c \<subseteq> C" "set seen \<subseteq> C"
    "c \<in> set seen" "set (work_cids rest) \<subseteq> set seen" "distinct (work_cids rest)" "d \<le> k"
    "\<forall>w\<in>set rest. fst w \<le> k" "k + card (C - set seen) + Suc (length rest) \<le> card C"
    using assms(1) by (auto simp: loop_inv_def)
  have N: "?N \<subseteq> C - set seen" using assms(3,4) I(2-4) by blast
  have "card ?N = length new" using distinct_card [OF assms(2)] by simp
  moreover have "C - set ?seen' = (C - set seen) - ?N" by auto
  moreover have "card ((C - set seen) - ?N) = card (C - set seen) - card ?N"
    using N I(1) by (intro card_Diff_subset) (auto intro: finite_subset)
  moreover have "card ?N \<le> card (C - set seen)" using N I(1) by (intro card_mono) auto
  ultimately have sz: "card (C - set ?seen') + length new = card (C - set seen)" by simp
  then show "card (C - set ?seen') + length (rest @ new) < card (C - set seen) + length ((d, c, s, n) # rest)"
    by simp
  have "distinct (work_cids (rest @ new))" using I(5,6) assms(2,3) by (simp del: set_map) blast
  moreover have "\<forall>w\<in>set (rest @ new). fst w \<le> k + 1" using I(7,8) assms(5) by fastforce
  moreover have "set (work_cids (rest @ new)) \<subseteq> set ?seen'" using I(5) by (simp del: set_map) blast
  moreover have "set ?seen' \<subseteq> C" using N I(3) by (simp del: set_map) blast
  ultimately show "loop_inv api load C (k + 1) (rest @ new) ?seen'"
    using I(1,2,9) sz unfolding loop_inv_def by (simp del: set_map set_append)
qed

lemma walkableD:
  assumes "walkable api load C" "c \<in> C"
  shows "load c \<noteq> LoadPending" "decoded api load c = Some i \<Longrightarrow> \<exists>ls. ipld_links api c i = Inr ls"
  using assms by (auto simp: walkable_def)

text \<open>One iteration stops the walk or continues it: what it queues and what it reports.\<close>

definition stuck :: "('cid, 'blk) ipld_api \<Rightarrow> ('cid \<Rightarrow> 'blk loaded) \<Rightarrow> nat \<Rightarrow> 'cid \<Rightarrow> 'cid set \<Rightarrow> bool" where
  "stuck api load d c seen \<longleftrightarrow>
     load c = LoadPending \<or> (\<exists>i p. decoded api load c = Some i \<and> ipld_links api c i = Inl p) \<or>
     d = u64_max \<and> \<not> succs api load c \<subseteq> seen"

lemma refs_loop_stuck:
  assumes "stuck api load d c (set seen)"
  shows "\<exists>e. e \<noteq> Finished \<and> (\<forall>x. e = Suspended x \<longrightarrow> load x = LoadPending) \<and>
    (\<forall>dl. refs_loop api load (once dl) ((d, c, s, n) # rest) seen items = Some (items, e))"
proof -
  consider "load c = LoadPending" | i p b where "load c = Loaded b" "block_decode api b = Some i" "ipld_links api c i = Inl p"
    | i ls b where "load c = Loaded b" "block_decode api b = Some i" "ipld_links api c i = Inr ls" "d = u64_max"
        "\<not> succs api load c \<subseteq> set seen"
    using assms
    by (cases "load c"; cases "decoded api load c"; cases "ipld_links api c (the (decoded api load c))")
      (auto simp: stuck_def decoded_def succs_def)
  then show ?thesis
  proof cases
    case 3
    obtain work' seen' where pl: "push_links True (d + 1) c ls rest seen = (work', seen')" by (meson surj_pair)
    have "succs api load c = snd ` set ls" using 3 by (simp add: succs_def decoded_def)
    then have "work' \<noteq> rest" using push_links_unique [OF pl] 3(5) by auto
    then show ?thesis
      using 3 pl by (intro exI [of _ "Panicked Overflow"]) (simp add: refs_loop.simps [of _ _ _ "_ # _"] Let_def)
  qed (auto simp: refs_loop.simps [of _ _ _ "_ # _"] Let_def)
qed

lemma refs_loop_step:
  assumes "\<not> stuck api load d c (set seen)"
  shows "\<exists>new pre. (\<forall>dl. dl \<or> load c \<noteq> LoadFailed \<longrightarrow>
             refs_loop api load (once dl) ((d, c, s, n) # rest) seen items =
             refs_loop api load (once dl) (rest @ new) (rev (work_cids new) @ seen) (items @ pre)) \<and>
           distinct (work_cids new) \<and> set (work_cids new) \<inter> set seen = {} \<and>
           set (work_cids new) = succs api load c - set seen \<and> (\<forall>w\<in>set new. fst w \<le> d + 1) \<and>
           (\<forall>P its. reports api load P its \<longrightarrow> c \<notin> P \<longrightarrow> reports api load (insert c P) (pre @ its))"
proof (cases "decoded api load c")
  case None
  then have s0: "succs api load c = {}" by (simp add: succs_def)
  show ?thesis
  proof (cases "load c")
    case LoadFailed
    then show ?thesis
      using s0 reports_insert(1) [of api load _ _ c]
      by (intro exI [of _ "[]"] exI [of _ "[]"]) (simp add: refs_loop.simps [of _ _ _ "_ # _"])
  next
    case (Loaded b)
    then have "block_decode api b = None" "undecodable api load c"
      using None by (simp_all add: decoded_def undecodable_def)
    then show ?thesis
      using Loaded s0 reports_insert(2) [of api load _ _ c]
      by (intro exI [of _ "[]"] exI [of _ "[Inl Loading]"]) (simp add: refs_loop.simps [of _ _ _ "_ # _"])
  qed (use assms in \<open>simp add: stuck_def\<close>)
next
  case (Some i)
  then obtain b where b: "load c = Loaded b" "block_decode api b = Some i" by (auto simp: decoded_def split: loaded.splits)
  obtain ls where ls: "ipld_links api c i = Inr ls"
    using assms Some by (cases "ipld_links api c i") (auto simp: stuck_def)
  obtain work' seen' where pl: "push_links True (d + 1) c ls rest seen = (work', seen')" by (meson surj_pair)
  from push_links_unique [OF this] obtain new where
    n: "work' = rest @ new" "seen' = rev (work_cids new) @ seen" "distinct (work_cids new)"
      "set (work_cids new) \<inter> set seen = {}" "set (work_cids new) = snd ` set ls - set seen"
      "\<forall>w\<in>set new. fst w = d + 1" by blast
  have sc: "succs api load c = snd ` set ls" using Some ls by (simp add: succs_def)
  have nw: "d = u64_max \<Longrightarrow> work' = rest"
  proof -
    assume "d = u64_max"
    then have "snd ` set ls \<subseteq> set seen" using assms sc by (simp add: stuck_def)
    then have "set (work_cids new) = {}" using n(5) by (simp del: set_map)
    then show "work' = rest" using n(1) by simp
  qed
  let ?e = "\<lparr>source = s, destination = c, link_name = n\<rparr>"
  have "refs_loop api load (once dl) ((d, c, s, n) # rest) seen items =
      refs_loop api load (once dl) work' seen' (items @ [Inr ?e])" for dl
    using b ls pl nw by (subst refs_loop.simps) (auto simp: Let_def)
  moreover have "set (work_cids new) = succs api load c - set seen" using n(5) sc by simp
  moreover have "\<forall>P its. reports api load P its \<longrightarrow> c \<notin> P \<longrightarrow> reports api load (insert c P) ([Inr ?e] @ its)"
    using reports_insert(3) [of api load _ _ c i ?e] Some by simp
  ultimately show ?thesis using n by (intro exI [of _ new] exI [of _ "[Inr ?e]"]) simp
qed

text \<open>
  The walk ends. If it comes to its end it has taken all it leads to; it comes to its end if nothing it may
  reach is awaited or unreadable and the depth stays in its range.
\<close>

lemma refs_loop_complete:
  assumes "loop_inv api load C k work seen"
  shows "\<exists>P items' e. (\<forall>dl. dl \<or> (\<forall>c\<in>C. load c \<noteq> LoadFailed) \<longrightarrow>
             refs_loop api load (once dl) work seen items = Some (items @ items', e)) \<and>
           (e = Finished \<longrightarrow> pops api load work seen P \<and> reports api load P items') \<and>
           (\<forall>x. e = Suspended x \<longrightarrow> load x = LoadPending) \<and>
           (walkable api load C \<and> card C \<le> u64_max \<longrightarrow> e = Finished)"
  using assms
proof (induction "card (C - set seen) + length work" arbitrary: k work seen items rule: less_induct)
  case less
  show ?case
  proof (cases work)
    case Nil
    then show ?thesis
      using pops_done [of api load seen]
      by (intro exI [of _ "{}"] exI [of _ "[]"] exI [of _ Finished]) (simp add: refs_loop.simps reports_def)
  next
    case (Cons w rest)
    obtain d c s n where "w = (d, c, s, n)" by (rule prod_cases4)
    then have work: "work = (d, c, s, n) # rest" using Cons by simp
    note inv = less.prems [unfolded work]
    have c: "c \<in> C" "d < card C"
      and W: "set (work_cids ((d, c, s, n) # rest)) \<subseteq> set seen" "distinct (work_cids ((d, c, s, n) # rest))"
      using inv by (auto simp: loop_inv_def)
    show ?thesis
    proof (cases "stuck api load d c (set seen)")
      case True
      then have "\<not> (walkable api load C \<and> card C \<le> u64_max)"
        using c walkableD [of api load C c] by (auto simp: stuck_def)
      then show ?thesis using refs_loop_stuck [OF True, of s n rest items] unfolding work by (metis append_Nil2)
    next
      case False
      from refs_loop_step [OF this, of s n rest items] obtain new pre where
        eq: "\<And>dl. dl \<or> load c \<noteq> LoadFailed \<Longrightarrow> refs_loop api load (once dl) work seen items =
               refs_loop api load (once dl) (rest @ new) (rev (work_cids new) @ seen) (items @ pre)"
        and n: "distinct (work_cids new)" "set (work_cids new) \<inter> set seen = {}"
          "set (work_cids new) = succs api load c - set seen" "\<forall>w\<in>set new. fst w \<le> d + 1"
        and ins: "\<And>P its. reports api load P its \<Longrightarrow> c \<notin> P \<Longrightarrow> reports api load (insert c P) (pre @ its)"
        unfolding work by blast
      note nx = loop_inv_next [OF inv n]
      obtain P its e where P: "\<And>dl. dl \<or> (\<forall>c\<in>C. load c \<noteq> LoadFailed) \<Longrightarrow>
            refs_loop api load (once dl) (rest @ new) (rev (work_cids new) @ seen) (items @ pre) =
            Some ((items @ pre) @ its, e)"
          "e = Finished \<Longrightarrow> pops api load (rest @ new) (rev (work_cids new) @ seen) P \<and> reports api load P its"
          "\<forall>x. e = Suspended x \<longrightarrow> load x = LoadPending" "walkable api load C \<and> card C \<le> u64_max \<Longrightarrow> e = Finished"
        using less.hyps [OF _ nx(1), of "items @ pre"] nx(2) unfolding work by blast
      have "pops api load work seen (insert c P) \<and> reports api load (insert c P) (pre @ its)" if "e = Finished"
        using P(2) [OF that] pops_step [OF _ W n(2,3), of P] ins [of P its] unfolding work by blast
      moreover have "refs_loop api load (once dl) work seen items = Some (items @ pre @ its, e)"
        if "dl \<or> (\<forall>x\<in>C. load x \<noteq> LoadFailed)" for dl
      proof -
        have "dl \<or> load c \<noteq> LoadFailed" using that c(1) by blast
        from eq [OF this] P(1) [OF that] show ?thesis by simp
      qed
      ultimately show ?thesis using P(3,4) by blast
    qed
  qed
qed

section \<open>The whole walk\<close>

text \<open>The links of the documents a walk starts with.\<close>

fun start_cids :: "('cid, 'blk) ipld_api \<Rightarrow> ('cid \<times> 'cid ipld) list \<Rightarrow> 'cid set" where
  "start_cids api [] = {}"
| "start_cids api ((origin, ipld) # iplds) =
     (case ipld_links api origin ipld of Inl _ \<Rightarrow> {} | Inr ls \<Rightarrow> snd ` set ls) \<union> start_cids api iplds"

lemma start_links_unique:
  assumes "\<forall>(o', i)\<in>set iplds. \<exists>ls. ipld_links api o' i = Inr ls"
    and "set (work_cids work) = set seen" "distinct (work_cids work)" "\<forall>w\<in>set work. fst w = 0"
  shows "\<exists>work' seen'. start_links api True iplds work seen = Inr (work', seen') \<and>
    set (work_cids work') = set seen' \<and> distinct (work_cids work') \<and> (\<forall>w\<in>set work'. fst w = 0) \<and>
    set seen' = set seen \<union> start_cids api iplds"
  using assms
proof (induction iplds arbitrary: work seen)
  case Nil
  then show ?case by simp
next
  case (Cons x iplds)
  obtain org i where x: "x = (org, i)" by (meson surj_pair)
  obtain ls where ls: "ipld_links api org i = Inr ls" using Cons.prems(1) x by auto
  obtain work1 seen1 where pl: "push_links True 0 org ls work seen = (work1, seen1)" by (meson surj_pair)
  from push_links_unique [OF this] obtain new where
    n: "work1 = work @ new" "seen1 = rev (work_cids new) @ seen" "distinct (work_cids new)"
      "set (work_cids new) \<inter> set seen = {}" "set (work_cids new) = snd ` set ls - set seen"
      "\<forall>w\<in>set new. fst w = 0" by blast
  have "set (work_cids work1) = set seen1" using n(1,2) Cons.prems(2) by (simp del: set_map add: Un_commute)
  moreover have "distinct (work_cids work1)" using n(1,3,4) Cons.prems(2,3) by (simp del: set_map) blast
  moreover have "\<forall>w\<in>set work1. fst w = 0" using n(1,6) Cons.prems(4) by auto
  moreover have "\<forall>(o', i)\<in>set iplds. \<exists>ls. ipld_links api o' i = Inr ls" using Cons.prems(1) by simp
  ultimately obtain work' seen' where
    w: "start_links api True iplds work1 seen1 = Inr (work', seen')" "set (work_cids work') = set seen'"
      "distinct (work_cids work')" "\<forall>w\<in>set work'. fst w = 0" "set seen' = set seen1 \<union> start_cids api iplds"
    using Cons.IH [of work1 seen1] by blast
  have "set seen1 = set seen \<union> snd ` set ls" using n(2,5) by (simp del: set_map) blast
  then have "set seen' = set seen \<union> start_cids api (x # iplds)" using w(5) ls x by auto
  moreover have "start_links api True (x # iplds) work seen = Inr (work', seen')"
    using w(1) ls pl x by (simp add: rbind_def)
  ultimately show ?case using w(2-4) by blast
qed

lemma start_links_panic: "\<exists>(o', i)\<in>set iplds. \<exists>p. ipld_links api o' i = Inl p \<Longrightarrow> \<exists>p. start_links api u iplds w sn = Inl p"
proof (induction iplds arbitrary: w sn)
  case (Cons x iplds)
  obtain org i where x: "x = (org, i)" by (meson surj_pair)
  show ?case
  proof (cases "ipld_links api org i")
    case (Inl p)
    then show ?thesis using x by (simp add: rbind_def)
  next
    case (Inr ls)
    obtain w' sn' where pl: "push_links u 0 org ls w sn = (w', sn')" by (meson surj_pair)
    have "\<exists>(o', i)\<in>set iplds. \<exists>p. ipld_links api o' i = Inl p" using Cons.prems x Inr by auto
    from Cons.IH [OF this, of w' sn'] show ?thesis using x Inr pl by (simp add: rbind_def)
  qed
qed simp

definition starts_ok :: "('cid, 'blk) ipld_api \<Rightarrow> ('cid \<times> 'cid ipld) list \<Rightarrow> bool" where
  "starts_ok api iplds \<longleftrightarrow> list_all (\<lambda>(org, i). case ipld_links api org i of Inl _ \<Rightarrow> False | Inr _ \<Rightarrow> True) iplds"

lemma refs_once_correct:
  assumes C_def: "C = {c. refs_reach api load (start_cids api iplds) c}" and fin: "finite C"
  shows "\<exists>items e. (\<forall>dl. dl \<or> (\<forall>c\<in>C. load c \<noteq> LoadFailed) \<longrightarrow>
      refs_of_resolved api load (once dl) iplds = Some (items, e)) \<and>
    (e = Finished \<longrightarrow> reports api load C items) \<and> (\<forall>x. e = Suspended x \<longrightarrow> load x = LoadPending) \<and>
    (starts_ok api iplds \<and> walkable api load C \<and> card C \<le> u64_max \<longrightarrow> e = Finished)"
proof (cases "starts_ok api iplds")
  case False
  then have "\<exists>(o', i)\<in>set iplds. \<exists>p. ipld_links api o' i = Inl p"
    by (fastforce simp: starts_ok_def list_all_iff split: sum.splits)
  from start_links_panic [OF this] obtain p where "start_links api True iplds [] [] = Inl p" by blast
  then show ?thesis
    using False by (intro exI [of _ "[]"] exI [of _ "Panicked p"]) (simp add: refs_of_resolved_def iplds_refs_inner_def)
next
  case True
  have "\<exists>ls. ipld_links api o' i = Inr ls" if "(o', i) \<in> set iplds" for o' i
    using True that by (cases "ipld_links api o' i") (auto simp: starts_ok_def list_all_iff)
  then have "\<forall>(o', i)\<in>set iplds. \<exists>ls. ipld_links api o' i = Inr ls" by blast
  from start_links_unique [OF this, of "[]" "[]"] obtain work seen where
    w: "start_links api True iplds [] [] = Inr (work, seen)" "set (work_cids work) = set seen"
      "distinct (work_cids work)" "\<forall>w\<in>set work. fst w = 0" "set seen = start_cids api iplds"
    by auto
  have sub: "set seen \<subseteq> C" using w(5) by (auto simp: C_def intro: reach_start)
  have "length work = card (set seen)" using distinct_card [OF w(3)] w(2) by simp
  then have "card (C - set seen) + length work = card C"
    using sub fin card_mono [OF fin sub] by (simp add: card_Diff_subset)
  moreover have "\<forall>c\<in>C. succs api load c \<subseteq> C" by (auto simp: C_def intro: reach_step)
  ultimately have "loop_inv api load C 0 work seen" using fin sub w(2-4) unfolding loop_inv_def by simp
  from refs_loop_complete [OF this, of "[]"] obtain P items e where
    P: "\<And>dl. dl \<or> (\<forall>c\<in>C. load c \<noteq> LoadFailed) \<Longrightarrow> refs_loop api load (once dl) work seen [] = Some ([] @ items, e)"
      "e = Finished \<Longrightarrow> pops api load work seen P \<and> reports api load P items"
      "\<forall>x. e = Suspended x \<longrightarrow> load x = LoadPending" "walkable api load C \<and> card C \<le> u64_max \<Longrightarrow> e = Finished"
    by blast
  have "P = C" if "e = Finished"
  proof
    have cl: "start_cids api iplds \<subseteq> P" "\<forall>c\<in>P. succs api load c \<subseteq> P" "P \<subseteq> C"
      using P(2) [OF that] w(2,5) unfolding pops_def C_def by (simp_all del: set_map) blast+
    show "P \<subseteq> C" by (rule cl(3))
    have "c \<in> P" if "refs_reach api load (start_cids api iplds) c" for c
      using that by induction (use cl(1,2) in blast)+
    then show "C \<subseteq> P" by (auto simp: C_def)
  qed
  then show ?thesis
    using P w(1) by (intro exI [of _ items] exI [of _ e]) (simp add: refs_of_resolved_def iplds_refs_inner_def)
qed

text \<open>Only finitely many blocks can be loaded, so only finitely many cids can be reached.\<close>

lemma finite_reach:
  assumes "finite {c. \<exists>b. load c = Loaded b}"
  shows "finite {c. refs_reach api load (start_cids api iplds) c}"
proof -
  have e: "succs api load c = {}" if "\<nexists>b. load c = Loaded b" for c
    using that by (cases "load c") (simp_all add: succs_def decoded_def)
  have "c \<in> S \<union> (\<Union>d\<in>{c. \<exists>b. load c = Loaded b}. succs api load d)" if "refs_reach api load S c" for S c
    using that by (induction rule: refs_reach.induct) (use e in blast)+
  then have "{c. refs_reach api load (start_cids api iplds) c} \<subseteq>
      start_cids api iplds \<union> (\<Union>d\<in>{c. \<exists>b. load c = Loaded b}. succs api load d)" by blast
  moreover have "finite (start_cids api iplds)" by (induction iplds) (auto split: sum.splits)
  moreover have "finite (succs api load d)" for d by (simp add: succs_def split: option.splits sum.splits)
  ultimately show ?thesis using assms by (meson finite_UN_I finite_UnI finite_subset)
qed

text \<open>The panic of a walk bounded by the largest depth.\<close>

lemma max_depth_overflows:
  assumes "start_links api (unique opts) iplds [] [] = Inr (w # work, seen)" "fst w < u64_max"
  shows "refs_of_resolved api load (with_max_depth u64_max opts) iplds = Some ([], Panicked Overflow)"
proof -
  obtain d c s n where w: "w = (d, c, s, n)" by (rule prod_cases4)
  have "refs_loop api load (opts\<lparr>max_depth := Some u64_max\<rparr>) (w # work) seen [] = Some ([], Panicked Overflow)"
    using assms(2) w by (subst refs_loop.simps) simp
  then show ?thesis using assms(1) by (simp add: refs_of_resolved_def iplds_refs_inner_def with_max_depth_def)
qed

section \<open>Properties\<close>

text \<open>C7: A walk that reports each document once returns on every finite store, cyclic or not. If it comes to its
  end it has reported every document that can be reached over loadable blocks, each exactly once, an error exactly if a
  loaded block cannot be decoded, and nothing for a block that cannot be loaded. It comes to its end unless it has
  to wait for a block, the links of a document cannot be read, or there are \<open>2 ^ 64\<close> cids to reach.\<close>

theorem refs_walk_complete:
  fixes load :: "'cid \<Rightarrow> 'blk loaded"
  assumes "finite {c. \<exists>b. load c = Loaded b}"
  shows "\<exists>items e. refs_of_resolved api load (with_only_unique IpldRefs_default) iplds = Some (items, e) \<and>
    (e = Finished \<longrightarrow>
       distinct (edges items) \<and>
       set (edges items) = {c. refs_reach api load (start_cids api iplds) c \<and> decoded api load c \<noteq> None} \<and>
       ((\<exists>x. Inl x \<in> set items) \<longleftrightarrow> (\<exists>c. refs_reach api load (start_cids api iplds) c \<and> undecodable api load c))) \<and>
    (starts_ok api iplds \<and> walkable api load {c. refs_reach api load (start_cids api iplds) c} \<and>
     card {c. refs_reach api load (start_cids api iplds) c} \<le> u64_max \<longrightarrow> e = Finished)"
proof -
  obtain items e where "refs_of_resolved api load (once True) iplds = Some (items, e)"
      "e = Finished \<longrightarrow> reports api load {c. refs_reach api load (start_cids api iplds) c} items"
      "starts_ok api iplds \<and> walkable api load {c. refs_reach api load (start_cids api iplds) c} \<and>
       card {c. refs_reach api load (start_cids api iplds) c} \<le> u64_max \<longrightarrow> e = Finished"
    using refs_once_correct [OF refl finite_reach [OF assms], of api iplds] by blast
  then show ?thesis
    by (intro exI [of _ items] exI [of _ e]) (simp add: reports_def with_only_unique_def IpldRefs_default_def)
qed

definition sample_ipld :: "(nat, nat list) ipld_api" where
  "sample_ipld =
     \<lparr>codec_is_dagpb = (\<lambda>_. False), block_decode = (\<lambda>b. if b = [9] then None else Some (Ipld_List (map Ipld_Link b))),
      ipld_iter = (\<lambda>i. case i of Ipld_List xs \<Rightarrow> xs | _ \<Rightarrow> [])\<rparr>"

definition sample_load :: "nat \<Rightarrow> nat list loaded" where
  "sample_load c = (if c = 1 then Loaded [2, 3] else if c = 2 then Loaded [1, 4] else if c = 4 then Loaded [9] else LoadFailed)"

lemma sample_succs: "succs sample_ipld sample_load c = (if c = 1 then {2, 3} else if c = 2 then {1, 4} else {})"
  by (simp add: succs_def decoded_def sample_load_def sample_ipld_def ipld_links_def List.map_filter_def)

lemma sample_start: "start_cids sample_ipld [(0, Ipld_List [Ipld_Link 1])] = {1}"
  by (simp add: sample_ipld_def ipld_links_def List.map_filter_def)

lemma sample_reach: "{c. refs_reach sample_ipld sample_load {1} c} = {1, 2, 3, 4}"
proof
  have "refs_reach sample_ipld sample_load {1} c \<Longrightarrow> c \<in> {1, 2, 3, 4}" for c
    by (induction rule: refs_reach.induct) (auto simp: sample_succs split: if_splits)
  then show "{c. refs_reach sample_ipld sample_load {1} c} \<subseteq> {1, 2, 3, 4}" by blast
  have 1: "refs_reach sample_ipld sample_load {1} 1" by (rule reach_start) simp
  have 2: "refs_reach sample_ipld sample_load {1} 2" by (rule reach_step [OF 1]) (simp add: sample_succs)
  have 3: "refs_reach sample_ipld sample_load {1} 3" by (rule reach_step [OF 1]) (simp add: sample_succs)
  have "refs_reach sample_ipld sample_load {1} 4" by (rule reach_step [OF 2]) (simp add: sample_succs)
  then show "{1, 2, 3, 4} \<subseteq> {c. refs_reach sample_ipld sample_load {1} c}" using 1 2 3 by blast
qed

theorem refs_walk_complete_witness:
  "\<exists>items. refs_of_resolved sample_ipld sample_load (with_only_unique IpldRefs_default) [(0, Ipld_List [Ipld_Link 1])] =
       Some (items, Finished) \<and> distinct (edges items) \<and> set (edges items) = {1, 2} \<and> (\<exists>e. Inl e \<in> set items)"
proof -
  let ?I = "[(0, Ipld_List [Ipld_Link 1])] :: (nat \<times> nat ipld) list"
  have R: "{c. refs_reach sample_ipld sample_load (start_cids sample_ipld ?I) c} = {1, 2, 3, 4}"
    unfolding sample_start by (rule sample_reach)
  have "{c. \<exists>b. sample_load c = Loaded b} \<subseteq> {1, 2, 4}" by (auto simp: sample_load_def split: if_splits)
  then have 1: "finite {c. \<exists>b. sample_load c = Loaded b}" by (rule finite_subset) simp
  have 2: "card {c. refs_reach sample_ipld sample_load (start_cids sample_ipld ?I) c} \<le> u64_max"
    unfolding R by simp
  have 3: "starts_ok sample_ipld ?I"
    by (simp add: starts_ok_def ipld_links_def sample_ipld_def)
  have 4: "walkable sample_ipld sample_load {c. refs_reach sample_ipld sample_load (start_cids sample_ipld ?I) c}"
    unfolding R by (simp add: walkable_def sample_load_def decoded_def ipld_links_def sample_ipld_def)
  have d: "{c. c \<in> {1, 2, 3, 4} \<and> decoded sample_ipld sample_load c \<noteq> None} = {1, 2}"
    by (auto simp: decoded_def sample_load_def sample_ipld_def)
  have u: "undecodable sample_ipld sample_load 4" by (simp add: undecodable_def sample_load_def sample_ipld_def)
  have r: "refs_reach sample_ipld sample_load (start_cids sample_ipld ?I) c \<longleftrightarrow> c \<in> {1, 2, 3, 4}" for c using R by blast
  from refs_walk_complete [OF 1, of sample_ipld ?I] obtain items e where
    w: "refs_of_resolved sample_ipld sample_load (with_only_unique IpldRefs_default) ?I = Some (items, e)" "e = Finished"
      "distinct (edges items)" "set (edges items) = {c. c \<in> {1, 2, 3, 4} \<and> decoded sample_ipld sample_load c \<noteq> None}"
      "(\<exists>x. Inl x \<in> set items) \<longleftrightarrow> (\<exists>c. c \<in> {1, 2, 3, 4} \<and> undecodable sample_ipld sample_load c)"
    using 2 3 4 unfolding r by blast
  show ?thesis using w u unfolding d by blast
qed

end
