(* ===== verification/Repo.thy ===== *)
theory Repo
  imports Pin_Store Ipfs_Path Ipld_Refs
begin

text \<open>
  The repository (\<open>repo/mod.rs\<close>) over the in-memory block store (\<open>repo/blockstore/memory.rs\<close>) and data store:
  blocks, pins, the tasks that wait for blocks, the events for the network task, and the
  IPNS paths kept in the data store.

  A byte is a \<open>char\<close>, so that the bytes of a string are the string. A task that waits for a block is
  a number in the list of subscriptions of its cid; a delivered block is an output. The lookup of
  a block and the subscription that follows a failed lookup are two steps, since the
  task awaits between them and other tasks may run. A call that has to wait for a block from the network returns
  the state in which it waits; the call on the block that arrives is a definition of its own.
\<close>

section \<open>Blocks\<close>

record ('cid, 'd) RBlock =
  rb_cid :: 'cid
  rb_data :: 'd

datatype BlockPut = NewBlock | Existed

datatype 'cid BlockRmError = NotFound 'cid

type_synonym ('cid, 'd) MemBlockStore = "('cid, ('cid, 'd) RBlock) hmap"

definition bs_contains :: "'cid \<Rightarrow> ('cid, 'd) MemBlockStore \<Rightarrow> bool" where
  "bs_contains cid bs \<longleftrightarrow> map_of bs cid \<noteq> None"

definition bs_get :: "'cid \<Rightarrow> ('cid, 'd) MemBlockStore \<Rightarrow> ('cid, 'd) RBlock option" where
  "bs_get cid bs = map_of bs cid"

definition bs_put :: "('cid, 'd) RBlock \<Rightarrow> ('cid, 'd) MemBlockStore \<Rightarrow> ('cid \<times> BlockPut) \<times> ('cid, 'd) MemBlockStore" where
  "bs_put block bs =
     (case map_of bs (rb_cid block) of
        Some _ \<Rightarrow> ((rb_cid block, Existed), bs)
      | None \<Rightarrow> ((rb_cid block, NewBlock), AList.update (rb_cid block) block bs))"

definition bs_remove :: "'cid \<Rightarrow> ('cid, 'd) MemBlockStore \<Rightarrow> ('cid BlockRmError + 'cid) \<times> ('cid, 'd) MemBlockStore" where
  "bs_remove cid bs = (case map_of bs cid of Some _ \<Rightarrow> (Inr cid, AList.delete cid bs) | None \<Rightarrow> (Inl (NotFound cid), bs))"

definition bs_list :: "('cid, 'd) MemBlockStore \<Rightarrow> 'cid list" where
  "bs_list bs = map fst bs"

definition bs_wipe :: "('cid, 'd) MemBlockStore \<Rightarrow> ('cid, 'd) MemBlockStore" where
  "bs_wipe bs = []"

section \<open>The repository\<close>

text \<open>The channel of a \<open>NewBlock\<close> event, on which its handler answers, is a number.\<close>

datatype ('cid, 'peer, 'd) RepoEvent =
    WantBlock "nat option" 'cid "'peer list"
  | UnwantBlock 'cid
  | Event_NewBlock "('cid, 'd) RBlock" nat
  | RemovedBlock 'cid

record ('cid, 'peer, 'd) Repo =
  online :: bool
  initialized :: bool
  block_store :: "('cid, 'd) MemBlockStore"
  data_store :: "char MemDataStore"
  events :: "('cid, 'peer, 'd) RepoEvent list option"
  subscriptions :: "('cid, nat list) hmap"

datatype LockError = RepoInUse | LockFileOpenFailed

datatype 'cid repo_error =
    LockFailed LockError
  | StoreError
  | BlockDoesntExist
  | PinnedRootNotFound 'cid
  | BlockPinned
  | BlockMissing
  | UnableToLocate 'cid
  | NoChannel
  | DecodeError
  | PinError "'cid pin_error"
  | PathError IpfsPathError
  | RepositoryOnline

definition Repo_new_memory :: "('cid, 'peer, 'd) Repo" where
  "Repo_new_memory =
     \<lparr>online = False, initialized = False, block_store = [], data_store = MemDataStore_new, events = None,
      subscriptions = []\<rparr>"

definition initialize_channel :: "('cid, 'peer, 'd) Repo \<Rightarrow> ('cid, 'peer, 'd) Repo checked" where
  "initialize_channel r = (if events r \<noteq> None then Inl AssertFailed else Inr (r\<lparr>events := Some [], online := True\<rparr>))"

definition Repo_shutdown :: "('cid, 'peer, 'd) Repo \<Rightarrow> ('cid, 'peer, 'd) Repo" where
  "Repo_shutdown r = r\<lparr>subscriptions := [], events := None, online := False\<rparr>"

definition is_online :: "('cid, 'peer, 'd) Repo \<Rightarrow> bool" where
  "is_online r = online r"

text \<open>
  The result of the lock and whether initializing or opening the block store and the data store succeeds are
  arguments; the in-memory lock and stores always succeed.
\<close>

definition MemLock_try_exclusive :: "LockError option" where
  "MemLock_try_exclusive = None"

definition Repo_init :: "LockError option \<Rightarrow> bool \<Rightarrow> bool \<Rightarrow> ('cid, 'peer, 'd) Repo \<Rightarrow> 'cid repo_error option \<times> ('cid, 'peer, 'd) Repo" where
  "Repo_init lock ok1 ok2 r =
     (if initialized r then (None, r)
      else case lock of
             Some e \<Rightarrow> (Some (LockFailed e), r)
           | None \<Rightarrow>
               (if \<not> ok1 then (Some StoreError, r)
                else if \<not> ok2 then (Some StoreError, r)
                else (None, r\<lparr>initialized := True\<rparr>)))"

definition Repo_open :: "bool \<Rightarrow> bool \<Rightarrow> 'cid repo_error option" where
  "Repo_open ok1 ok2 = (if \<not> ok1 then Some StoreError else if \<not> ok2 then Some StoreError else None)"

definition send_event :: "('cid, 'peer, 'd) RepoEvent \<Rightarrow> ('cid, 'peer, 'd) Repo \<Rightarrow> ('cid, 'peer, 'd) Repo" where
  "send_event e r = r\<lparr>events := map_option (\<lambda>es. es @ [e]) (events r)\<rparr>"

text \<open>Returns the outcome, the tasks that receive the block and the new state.\<close>

definition put_block ::
  "('cid, 'd) RBlock \<Rightarrow> ('cid, 'peer, 'd) Repo \<Rightarrow> ('cid \<times> BlockPut) \<times> (nat \<times> ('cid, 'd) RBlock) list \<times> ('cid, 'peer, 'd) Repo" where
  "put_block block r =
     (let ((cid, res), bs) = bs_put block (block_store r); r1 = r\<lparr>block_store := bs\<rparr>
      in if res = NewBlock
         then ((cid, res), map (\<lambda>ch. (ch, block)) (case map_of (subscriptions r1) cid of None \<Rightarrow> [] | Some chs \<Rightarrow> chs),
               r1\<lparr>subscriptions := AList.delete cid (subscriptions r1)\<rparr>)
         else ((cid, res), [], r1))"

definition get_block_now :: "'cid \<Rightarrow> ('cid, 'peer, 'd) Repo \<Rightarrow> ('cid, 'd) RBlock option" where
  "get_block_now cid r = bs_get cid (block_store r)"

definition Repo_contains :: "'cid \<Rightarrow> ('cid, 'peer, 'd) Repo \<Rightarrow> bool" where
  "Repo_contains cid r = bs_contains cid (block_store r)"

text \<open>The interface of the bitswap server.\<close>

definition Store_get_size :: "('d \<Rightarrow> nat) \<Rightarrow> 'cid \<Rightarrow> ('cid, 'peer, 'd) Repo \<Rightarrow> 'cid repo_error + nat" where
  "Store_get_size len cid r = (case get_block_now cid r of None \<Rightarrow> Inl BlockDoesntExist | Some b \<Rightarrow> Inr (len (rb_data b)))"

definition Store_get :: "'cid \<Rightarrow> ('cid, 'peer, 'd) Repo \<Rightarrow> 'cid repo_error + ('cid, 'd) RBlock" where
  "Store_get cid r = (case get_block_now cid r of None \<Rightarrow> Inl BlockDoesntExist | Some b \<Rightarrow> Inr b)"

definition Store_has :: "'cid \<Rightarrow> ('cid, 'peer, 'd) Repo \<Rightarrow> bool" where
  "Store_has cid r = Repo_contains cid r"

definition list_blocks :: "('cid, 'peer, 'd) Repo \<Rightarrow> 'cid list" where
  "list_blocks r = bs_list (block_store r)"

text \<open>What \<open>get_block_with_session\<close> does after its lookup has failed, for the waiting task \<open>ch\<close>.\<close>

definition subscribe_block ::
  "nat \<Rightarrow> nat option \<Rightarrow> 'cid \<Rightarrow> 'peer list \<Rightarrow> bool \<Rightarrow> ('cid, 'peer, 'd) Repo \<Rightarrow>
   'cid repo_error option \<times> ('cid, 'peer, 'd) Repo" where
  "subscribe_block ch session cid peers local_only r =
     (if local_only \<or> \<not> online r then (Some (UnableToLocate cid), r)
      else let r1 = r\<lparr>subscriptions := hmodify cid [] (\<lambda>chs. chs @ [ch]) (subscriptions r)\<rparr>
           in if events r1 = None then (Some NoChannel, r1)
              else (None, send_event (WantBlock session cid peers) r1))"

datatype ('cid, 'd) get_result = GotBlock "('cid, 'd) RBlock" | GetFailed "'cid repo_error" | GetWaiting

definition get_block_with_session ::
  "nat \<Rightarrow> nat option \<Rightarrow> 'cid \<Rightarrow> 'peer list \<Rightarrow> bool \<Rightarrow> ('cid, 'peer, 'd) Repo \<Rightarrow>
   ('cid, 'd) get_result \<times> ('cid, 'peer, 'd) Repo" where
  "get_block_with_session ch session cid peers local_only r =
     (case get_block_now cid r of
        Some block \<Rightarrow> (GotBlock block, r)
      | None \<Rightarrow>
          (case subscribe_block ch session cid peers local_only r of
             (Some e, r') \<Rightarrow> (GetFailed e, r')
           | (None, r') \<Rightarrow> (GetWaiting, r')))"

definition Repo_get_block ::
  "nat \<Rightarrow> 'cid \<Rightarrow> 'peer list \<Rightarrow> bool \<Rightarrow> ('cid, 'peer, 'd) Repo \<Rightarrow> ('cid, 'd) get_result \<times> ('cid, 'peer, 'd) Repo" where
  "Repo_get_block ch cid peers local_only r = get_block_with_session ch None cid peers local_only r"

definition Repo_is_pinned :: "('cid, char) pin_api \<Rightarrow> 'cid \<Rightarrow> ('cid, 'peer, 'd) Repo \<Rightarrow> bool" where
  "Repo_is_pinned api cid r = is_pinned api cid (md_pin (data_store r))"

definition remove_block ::
  "('cid, char) pin_api \<Rightarrow> 'cid \<Rightarrow> ('cid, 'peer, 'd) Repo \<Rightarrow> ('cid repo_error + 'cid) \<times> ('cid, 'peer, 'd) Repo" where
  "remove_block api cid r =
     (if Repo_is_pinned api cid r then (Inl BlockPinned, r)
      else case bs_remove cid (block_store r) of
             (Inr _, bs) \<Rightarrow> (Inr cid, send_event (RemovedBlock cid) (r\<lparr>block_store := bs\<rparr>))
           | (Inl (NotFound _), bs) \<Rightarrow> (Inl BlockMissing, r\<lparr>block_store := bs\<rparr>))"

fun cleanup_loop ::
  "('cid, char) pin_api \<Rightarrow> 'cid list \<Rightarrow> 'cid list \<Rightarrow> ('cid, 'peer, 'd) Repo \<Rightarrow> 'cid list \<times> ('cid, 'peer, 'd) Repo" where
  "cleanup_loop api [] removed r = (removed, r)"
| "cleanup_loop api (cid # cids) removed r =
     (if \<not> Repo_is_pinned api cid r
      then case remove_block api cid r of
             (Inr c, r') \<Rightarrow> cleanup_loop api cids (removed @ [c]) r'
           | (Inl _, r') \<Rightarrow> cleanup_loop api cids removed r'
      else cleanup_loop api cids removed r)"

definition cleanup :: "('cid, char) pin_api \<Rightarrow> ('cid, 'peer, 'd) Repo \<Rightarrow> 'cid list \<times> ('cid, 'peer, 'd) Repo" where
  "cleanup api r = cleanup_loop api (list_blocks r) [] r"

section \<open>Pins and IPNS paths\<close>

definition with_pins ::
  "(char pins \<Rightarrow> 'cid pin_error option \<times> char pins) \<Rightarrow> ('cid, 'peer, 'd) Repo \<Rightarrow>
   'cid repo_error option \<times> ('cid, 'peer, 'd) Repo" where
  "with_pins f r =
     (let (e, g) = f (md_pin (data_store r)) in (map_option PinError e, r\<lparr>data_store := (data_store r)\<lparr>md_pin := g\<rparr>\<rparr>))"

definition Repo_insert_direct_pin ::
  "('cid, char) pin_api \<Rightarrow> 'cid \<Rightarrow> ('cid, 'peer, 'd) Repo \<Rightarrow> 'cid repo_error option \<times> ('cid, 'peer, 'd) Repo" where
  "Repo_insert_direct_pin api cid r = with_pins (insert_direct_pin api cid) r"

definition Repo_remove_direct_pin ::
  "('cid, char) pin_api \<Rightarrow> 'cid \<Rightarrow> ('cid, 'peer, 'd) Repo \<Rightarrow> 'cid repo_error option \<times> ('cid, 'peer, 'd) Repo" where
  "Repo_remove_direct_pin api cid r = with_pins (remove_direct_pin api cid) r"

text \<open>What a \<open>get_block\<close> of the walk over references gives in a state, and the items of the walk as the pin store reads them.\<close>

definition load_block :: "('cid, 'peer, 'd) Repo \<Rightarrow> 'cid \<Rightarrow> ('cid, 'd) RBlock loaded" where
  "load_block r cid =
     (case get_block_now cid r of Some b \<Rightarrow> Loaded b | None \<Rightarrow> if online r \<and> events r \<noteq> None then LoadPending else LoadFailed)"

definition load_block_now :: "('cid, 'peer, 'd) Repo \<Rightarrow> 'cid \<Rightarrow> ('cid, 'd) RBlock loaded" where
  "load_block_now r cid = (case get_block_now cid r of Some b \<Rightarrow> Loaded b | None \<Rightarrow> LoadFailed)"

definition destinations :: "('cid IpldRefsError + 'cid Edge) list \<Rightarrow> (unit + 'cid) list" where
  "destinations items = map (\<lambda>i. case i of Inl _ \<Rightarrow> Inl () | Inr e \<Rightarrow> Inr (destination e)) items"

datatype 'cid pin_outcome = PinDone "'cid repo_error option" | PinWaiting | PinPanicked panic

text \<open>
  Inserting a recursive pin over a walk that is suspended or panics: the items before that have been inserted. A suspended
  insertion waits for its block in the state \<open>PinWaiting\<close> and keeps the lock of the pin store; what it does once the block
  has arrived, and that other operations on pins wait for the lock until then, is not modelled.
\<close>

definition insert_until ::
  "('cid, char) pin_api \<Rightarrow> 'cid \<Rightarrow> (unit + 'cid) list \<Rightarrow> char pins \<Rightarrow> 'cid pin_error option \<times> char pins" where
  "insert_until api target refs g =
     (case insert_pin api target RecursiveIntention g of
        Inl e \<Rightarrow> (Some e, g)
      | Inr (_, g1) \<Rightarrow>
          (case insert_refs api (IndirectFrom (to_v1 api target)) refs 0 g1 of
             (Inl e, g2) \<Rightarrow> (Some e, g2)
           | (Inr _, g2) \<Rightarrow> (None, g2)))"

definition Repo_insert_recursive_pin ::
  "('cid, char) pin_api \<Rightarrow> nat \<Rightarrow> 'cid \<Rightarrow> 'cid walk \<Rightarrow> ('cid, 'peer, 'd) Repo \<Rightarrow> 'cid pin_outcome \<times> ('cid, 'peer, 'd) Repo" where
  "Repo_insert_recursive_pin api ch cid w r =
     (case snd w of
        Finished \<Rightarrow> apfst PinDone (with_pins (insert_recursive_pin api cid (destinations (fst w))) r)
      | Suspended c \<Rightarrow>
          (case with_pins (insert_until api cid (destinations (fst w))) r of
             (Some e, r') \<Rightarrow> (PinDone (Some e), r')
           | (None, r') \<Rightarrow> (PinWaiting, snd (subscribe_block ch None c [] False r')))
      | Panicked p \<Rightarrow>
          (case with_pins (insert_until api cid (destinations (fst w))) r of
             (Some e, r') \<Rightarrow> (PinDone (Some e), r')
           | (None, r') \<Rightarrow> (PinPanicked p, r')))"

text \<open>\<open>insert_pin\<close> once its block is there. The links of the root are read before the first pin is written.\<close>

definition pin_block ::
  "('cid, char) pin_api \<Rightarrow> ('cid, ('cid, 'd) RBlock) ipld_api \<Rightarrow> nat \<Rightarrow> 'cid \<Rightarrow> bool \<Rightarrow> ('cid, 'd) RBlock \<Rightarrow>
   ('cid, 'peer, 'd) Repo \<Rightarrow> ('cid pin_outcome \<times> ('cid, 'peer, 'd) Repo) option" where
  "pin_block api ia ch cid recursive block r =
     (if \<not> recursive then Some (apfst PinDone (Repo_insert_direct_pin api cid r))
      else case block_decode ia block of
             None \<Rightarrow> Some (PinDone (Some DecodeError), r)
           | Some ipld \<Rightarrow>
               (case ipld_links ia cid ipld of
                  Inl p \<Rightarrow> Some (PinPanicked p, r)
                | Inr _ \<Rightarrow>
                    map_option (\<lambda>w. Repo_insert_recursive_pin api ch cid w r)
                      (refs_of_resolved ia (load_block r) (with_only_unique IpldRefs_default) [(cid, ipld)])))"

definition Repo_insert_pin ::
  "('cid, char) pin_api \<Rightarrow> ('cid, ('cid, 'd) RBlock) ipld_api \<Rightarrow> nat \<Rightarrow> 'cid \<Rightarrow> bool \<Rightarrow> bool \<Rightarrow>
   ('cid, 'peer, 'd) Repo \<Rightarrow> ('cid pin_outcome \<times> ('cid, 'peer, 'd) Repo) option" where
  "Repo_insert_pin api ia ch cid recursive local_only r =
     (case Repo_get_block ch cid [] local_only r of
        (GotBlock block, r') \<Rightarrow> pin_block api ia ch cid recursive block r'
      | (GetFailed e, r') \<Rightarrow> Some (PinDone (Some e), r')
      | (GetWaiting, r') \<Rightarrow> Some (PinWaiting, r'))"

text \<open>
  A walk over local blocks is never suspended. Its panic is met only if its items are read, which they are unless
  the pin is direct.
\<close>

definition Repo_remove_recursive_pin ::
  "('cid, char) pin_api \<Rightarrow> 'cid \<Rightarrow> (unit + 'cid) list \<Rightarrow> ('cid, 'peer, 'd) Repo \<Rightarrow>
   'cid repo_error option \<times> ('cid, 'peer, 'd) Repo" where
  "Repo_remove_recursive_pin api cid refs r = with_pins (remove_recursive_pin api cid refs) r"

definition Ipfs_remove_pin ::
  "('cid, char) pin_api \<Rightarrow> ('cid, ('cid, 'd) RBlock) ipld_api \<Rightarrow> 'cid \<Rightarrow> bool \<Rightarrow>
   ('cid, 'peer, 'd) Repo \<Rightarrow> ('cid pin_outcome \<times> ('cid, 'peer, 'd) Repo) option" where
  "Ipfs_remove_pin api ia cid recursive r =
     (if \<not> recursive then Some (apfst PinDone (Repo_remove_direct_pin api cid r))
      else case get_block_now cid r of
             None \<Rightarrow> Some (PinDone (Some (PinnedRootNotFound cid)), r)
           | Some block \<Rightarrow>
               (case block_decode ia block of
                  None \<Rightarrow> Some (PinDone (Some DecodeError), r)
                | Some ipld \<Rightarrow>
                    (case ipld_links ia cid ipld of
                       Inl p \<Rightarrow> Some (PinPanicked p, r)
                     | Inr _ \<Rightarrow>
                         map_option (\<lambda>(items, e).
                             (case Repo_remove_recursive_pin api cid (destinations items) r of
                                (Some err, r') \<Rightarrow> (PinDone (Some err), r')
                              | (None, r') \<Rightarrow>
                                  (case (e, query_one api (Some Mode_Recursive) (md_pin (data_store r)) cid) of
                                     (Panicked p, Inr _) \<Rightarrow> (PinPanicked p, r')
                                   | _ \<Rightarrow> (PinDone None, r'))))
                           (refs_of_resolved ia (load_block_now r)
                              (with_existing_blocks (with_only_unique IpldRefs_default)) [(cid, ipld)]))))"

definition ipns_key :: "('cid, 'peer) name_api \<Rightarrow> 'peer \<Rightarrow> string" where
  "ipns_key names peer = ''ipns/'' @ peer_to_base58 names peer"

definition get_ipns ::
  "('cid, 'peer) name_api \<Rightarrow> 'peer \<Rightarrow> ('cid, 'peer, 'd) Repo \<Rightarrow> 'cid repo_error + ('cid, 'peer) IpfsPath option" where
  "get_ipns names peer r =
     (case data_get (ipns_key names peer) (data_store r) of
        Some bytes \<Rightarrow>
          (case IpfsPath_from_str names bytes of Inl e \<Rightarrow> Inl (PathError e) | Inr p \<Rightarrow> Inr (Some p))
      | None \<Rightarrow> Inr None)"

definition put_ipns ::
  "('cid, 'peer) name_api \<Rightarrow> 'peer \<Rightarrow> ('cid, 'peer) IpfsPath \<Rightarrow> ('cid, 'peer, 'd) Repo \<Rightarrow> ('cid, 'peer, 'd) Repo" where
  "put_ipns names peer p r = r\<lparr>data_store := data_put (ipns_key names peer) (IpfsPath_fmt names p) (data_store r)\<rparr>"

definition remove_ipns :: "('cid, 'peer) name_api \<Rightarrow> 'peer \<Rightarrow> ('cid, 'peer, 'd) Repo \<Rightarrow> ('cid, 'peer, 'd) Repo" where
  "remove_ipns names peer r = r\<lparr>data_store := data_remove (ipns_key names peer) (data_store r)\<rparr>"

section \<open>Runs\<close>

datatype ('cid, 'peer, 'd) repo_op =
    PutBlock "('cid, 'd) RBlock"
  | GetBlock nat "nat option" 'cid "'peer list" bool
  | RemoveBlock 'cid
  | Cleanup
  | InsertPin nat 'cid bool bool
  | RemovePin 'cid bool
  | PutIpns 'peer "('cid, 'peer) IpfsPath"
  | RemoveIpns 'peer
  | Connect
  | Shutdown

fun repo_step ::
  "('cid, char) pin_api \<Rightarrow> ('cid, ('cid, 'd) RBlock) ipld_api \<Rightarrow> ('cid, 'peer) name_api \<Rightarrow> ('cid, 'peer, 'd) repo_op \<Rightarrow>
   ('cid, 'peer, 'd) Repo \<Rightarrow> ('cid, 'peer, 'd) Repo" where
  "repo_step api ia names (PutBlock b) r = snd (snd (put_block b r))"
| "repo_step api ia names (GetBlock ch session cid peers local_only) r =
     snd (get_block_with_session ch session cid peers local_only r)"
| "repo_step api ia names (RemoveBlock cid) r = snd (remove_block api cid r)"
| "repo_step api ia names Cleanup r = snd (cleanup api r)"
| "repo_step api ia names (InsertPin ch cid recursive local_only) r =
     (case Repo_insert_pin api ia ch cid recursive local_only r of Some (_, r') \<Rightarrow> r' | None \<Rightarrow> r)"
| "repo_step api ia names (RemovePin cid recursive) r =
     (case Ipfs_remove_pin api ia cid recursive r of Some (_, r') \<Rightarrow> r' | None \<Rightarrow> r)"
| "repo_step api ia names (PutIpns peer p) r = put_ipns names peer p r"
| "repo_step api ia names (RemoveIpns peer) r = remove_ipns names peer r"
| "repo_step api ia names Connect r = (case initialize_channel r of Inr r' \<Rightarrow> r' | Inl _ \<Rightarrow> r)"
| "repo_step api ia names Shutdown r = Repo_shutdown r"

text \<open>A repository that is not waiting for what it has, and is online exactly while it has a channel.\<close>

definition repo_inv :: "('cid, 'peer, 'd) Repo \<Rightarrow> bool" where
  "repo_inv r \<longleftrightarrow>
     hmap_ok (block_store r) \<and> hmap_ok (subscriptions r) \<and> (online r \<longleftrightarrow> events r \<noteq> None) \<and>
     (\<forall>c b. map_of (block_store r) c = Some b \<longrightarrow> rb_cid b = c) \<and>
     (\<forall>c. map_of (subscriptions r) c \<noteq> None \<longrightarrow> map_of (block_store r) c = None)"

lemma apfst_eq_iff [simp]: "apfst f p = (a, b) \<longleftrightarrow> a = f (fst p) \<and> b = snd p"
  by (cases p) auto

lemma repo_inv_new: "repo_inv Repo_new_memory"
  by (simp add: repo_inv_def Repo_new_memory_def)

lemma repo_inv_data: "repo_inv (r\<lparr>data_store := d\<rparr>) = repo_inv r"
  by (simp add: repo_inv_def)

lemma repo_inv_put: "repo_inv r \<Longrightarrow> repo_inv (snd (snd (put_block b r)))"
  by (auto simp: repo_inv_def put_block_def bs_put_def split: option.splits)

lemma repo_inv_subscribe:
  "repo_inv r \<Longrightarrow> get_block_now cid r = None \<Longrightarrow> repo_inv (snd (subscribe_block ch s cid ps l r))"
  by (auto simp: repo_inv_def subscribe_block_def get_block_now_def bs_get_def Let_def send_event_def)

lemma repo_inv_get: "repo_inv r \<Longrightarrow> repo_inv (snd (get_block_with_session ch s cid ps l r))"
  using repo_inv_subscribe [of r cid ch s ps l]
  by (cases "subscribe_block ch s cid ps l r") (auto simp: get_block_with_session_def split: option.splits)

lemma repo_inv_remove: "repo_inv r \<Longrightarrow> repo_inv (snd (remove_block api cid r))"
  by (auto simp: repo_inv_def remove_block_def bs_remove_def send_event_def split: option.splits)

lemma repo_inv_cleanup: "repo_inv r \<Longrightarrow> repo_inv (snd (cleanup_loop api cids rm r))"
proof (induction cids arbitrary: rm r)
  case (Cons c cids)
  obtain res r' where e: "remove_block api c r = (res, r')" by (meson surj_pair)
  have "repo_inv r'" using repo_inv_remove [OF Cons.prems, of api c] e by simp
  then show ?case using Cons.IH Cons.prems e by (cases res) simp_all
qed simp

lemma with_pins_data: "\<exists>d. snd (with_pins f r) = r\<lparr>data_store := d\<rparr>"
  by (auto simp: with_pins_def split: prod.splits)

lemma repo_inv_pins: "repo_inv (snd (with_pins f r)) = repo_inv r"
  using with_pins_data [of f r] repo_inv_data by metis

text \<open>The walk of a recursive pin, from \<open>refs_once_correct\<close>.\<close>

lemma finite_load: "finite {c. \<exists>b. load_block r c = Loaded b}" "finite {c. \<exists>b. load_block_now r c = Loaded b}"
proof -
  have "{c. \<exists>b. load_block r c = Loaded b} \<subseteq> dom (map_of (block_store r))"
    "{c. \<exists>b. load_block_now r c = Loaded b} \<subseteq> dom (map_of (block_store r))"
    by (auto simp: load_block_def load_block_now_def get_block_now_def bs_get_def split: option.splits if_splits)
  then show "finite {c. \<exists>b. load_block r c = Loaded b}" "finite {c. \<exists>b. load_block_now r c = Loaded b}"
    by (meson finite_dom_map_of finite_subset)+
qed

definition root_links :: "('cid, ('cid, 'd) RBlock) ipld_api \<Rightarrow> 'cid \<Rightarrow> 'cid ipld \<Rightarrow> 'cid set" where
  "root_links ia cid ipld = start_cids ia [(cid, ipld)]"

lemma pin_walk:
  obtains items e where "refs_of_resolved ia (load_block r) (with_only_unique IpldRefs_default) [(cid, ipld)] = Some (items, e)"
    "e = Finished \<Longrightarrow> reports ia (load_block r) {c. refs_reach ia (load_block r) (root_links ia cid ipld) c} items"
    "\<And>x. e = Suspended x \<Longrightarrow> get_block_now x r = None"
proof -
  obtain items e where w: "refs_of_resolved ia (load_block r) (once True) [(cid, ipld)] = Some (items, e)"
    "e = Finished \<longrightarrow> reports ia (load_block r) {c. refs_reach ia (load_block r) (root_links ia cid ipld) c} items"
    "\<forall>x. e = Suspended x \<longrightarrow> load_block r x = LoadPending"
    using refs_once_correct [OF refl finite_reach [OF finite_load(1) [of r]], of ia "[(cid, ipld)]"]
    unfolding root_links_def by blast
  show thesis
  proof (rule that)
    show "refs_of_resolved ia (load_block r) (with_only_unique IpldRefs_default) [(cid, ipld)] = Some (items, e)"
      using w(1) by (simp add: with_only_unique_def IpldRefs_default_def)
  qed (use w(2,3) in \<open>auto simp: load_block_def split: option.splits\<close>)
qed


lemma repo_inv_insert_recursive:
  assumes "repo_inv r" "\<And>x. snd w = Suspended x \<Longrightarrow> get_block_now x r = None"
  shows "repo_inv (snd (Repo_insert_recursive_pin api ch cid w r))"
proof -
  let ?f = "insert_until api cid (destinations (fst w))"
  obtain e r' where w': "with_pins ?f r = (e, r')" by (meson surj_pair)
  have r': "repo_inv r'" using repo_inv_pins [of ?f r] w' assms(1) by simp
  obtain d where "r' = r\<lparr>data_store := d\<rparr>" using with_pins_data [of ?f r] w' by auto
  then have "get_block_now x r' = get_block_now x r" for x by (simp add: get_block_now_def)
  then show ?thesis
    using assms r' w' repo_inv_pins [of "insert_recursive_pin api cid (destinations (fst w))" r]
    by (auto simp: Repo_insert_recursive_pin_def repo_inv_subscribe split: walk_end.splits option.splits)
qed

lemma repo_inv_pin_block:
  assumes "repo_inv r" "pin_block api ia ch cid recursive b r = Some (out, r')"
  shows "repo_inv r'"
proof (cases "recursive \<and> (\<exists>ipld ls. block_decode ia b = Some ipld \<and> ipld_links ia cid ipld = Inr ls)")
  case True
  then obtain ipld ls where i: "recursive" "block_decode ia b = Some ipld" "ipld_links ia cid ipld = Inr ls" by blast
  obtain items e where w: "refs_of_resolved ia (load_block r) (with_only_unique IpldRefs_default) [(cid, ipld)] = Some (items, e)"
    "\<And>x. e = Suspended x \<Longrightarrow> get_block_now x r = None" using pin_walk [of ia r cid ipld] by blast
  have "r' = snd (Repo_insert_recursive_pin api ch cid (items, e) r)" using assms(2) i w(1) by (simp add: pin_block_def)
  then show ?thesis using repo_inv_insert_recursive [OF assms(1), of "(items, e)"] w(2) by simp
next
  case False
  then show ?thesis
    using assms repo_inv_pins [of "insert_direct_pin api cid" r]
    by (auto simp: pin_block_def Repo_insert_direct_pin_def split: if_splits option.splits sum.splits)
qed

lemma pin_block_returns: "\<exists>x. pin_block api ia ch cid recursive b r = Some x"
proof (cases "block_decode ia b")
  case (Some ipld)
  obtain items e where
    "refs_of_resolved ia (load_block r) (with_only_unique IpldRefs_default) [(cid, ipld)] = Some (items, e)"
    using pin_walk [of ia r cid ipld] by blast
  then show ?thesis using Some by (simp add: pin_block_def split: sum.splits)
qed (simp add: pin_block_def)

lemma get_block_cases:
  obtains (got) b where "get_block_now cid r = Some b" "Repo_get_block ch cid ps l r = (GotBlock b, r)"
  | (failed) e where "get_block_now cid r = None" "Repo_get_block ch cid ps l r = (GetFailed e, snd (subscribe_block ch None cid ps l r))"
  | (waiting) "get_block_now cid r = None" "Repo_get_block ch cid ps l r = (GetWaiting, snd (subscribe_block ch None cid ps l r))"
proof (cases "get_block_now cid r")
  case None
  obtain e r' where "subscribe_block ch None cid ps l r = (e, r')" by (meson surj_pair)
  with None failed waiting show thesis
    by (cases e) (simp_all add: Repo_get_block_def get_block_with_session_def)
qed (simp add: got Repo_get_block_def get_block_with_session_def)

lemma repo_inv_insert_pin:
  assumes "repo_inv r" "Repo_insert_pin api ia ch cid recursive local_only r = Some (out, r')"
  shows "repo_inv r'"
proof (cases rule: get_block_cases [of cid r ch "[]" local_only])
  case (got b)
  then show ?thesis using assms repo_inv_pin_block [OF assms(1)] by (simp add: Repo_insert_pin_def)
qed (use assms repo_inv_subscribe in \<open>auto simp: Repo_insert_pin_def\<close>)

text \<open>Removing a pin changes the pins only.\<close>

lemma remove_pin_data:
  assumes "Ipfs_remove_pin api ia cid recursive r = Some (out, r')"
  shows "r' = r \<or> r' = snd (with_pins (remove_direct_pin api cid) r) \<or>
    (\<exists>refs. r' = snd (with_pins (remove_recursive_pin api cid refs) r))"
proof (cases "recursive \<and> (\<exists>b ipld ls. get_block_now cid r = Some b \<and> block_decode ia b = Some ipld \<and> ipld_links ia cid ipld = Inr ls)")
  case True
  then obtain b ipld ls where i: "recursive" "get_block_now cid r = Some b" "block_decode ia b = Some ipld"
    "ipld_links ia cid ipld = Inr ls" by blast
  then obtain items e where w: "refs_of_resolved ia (load_block_now r)
      (with_existing_blocks (with_only_unique IpldRefs_default)) [(cid, ipld)] = Some (items, e)"
    using assms by (auto simp: Ipfs_remove_pin_def)
  obtain err r'' where "Repo_remove_recursive_pin api cid (destinations items) r = (err, r'')" by (meson surj_pair)
  then have "r' = snd (Repo_remove_recursive_pin api cid (destinations items) r)"
    using assms i w by (auto simp: Ipfs_remove_pin_def split: option.splits walk_end.splits sum.splits)
  then show ?thesis unfolding Repo_remove_recursive_pin_def by blast
next
  case False
  then show ?thesis
    using assms by (auto simp: Ipfs_remove_pin_def Repo_remove_direct_pin_def split: if_splits option.splits sum.splits)
qed

lemma repo_inv_remove_pin: "repo_inv r \<Longrightarrow> Ipfs_remove_pin api ia cid recursive r = Some (out, r') \<Longrightarrow> repo_inv r'"
  using remove_pin_data [of api ia cid recursive r out r'] by (auto simp: repo_inv_pins)

interpretation repo: component "\<lambda>r. r = Repo_new_memory" "repo_step api ia names" repo_inv for api ia names
proof
  fix r :: "('a, 'b, 'c) Repo" and x
  assume r: "repo_inv r"
  show "repo_inv (repo_step api ia names x r)"
  proof (cases x)
    case (InsertPin ch cid recursive local_only)
    then show ?thesis using r repo_inv_insert_pin [OF r] by (auto split: option.splits)
  next
    case (RemovePin cid recursive)
    then show ?thesis using r repo_inv_remove_pin [OF r] by (auto split: option.splits)
  next
    case Connect
    then show ?thesis using r by (simp add: initialize_channel_def repo_inv_def)
  next
    case Shutdown
    then show ?thesis using r by (simp add: Repo_shutdown_def repo_inv_def)
  qed (use r repo_inv_put repo_inv_get repo_inv_remove repo_inv_cleanup in
      \<open>simp_all add: repo_inv_data cleanup_def put_ipns_def remove_ipns_def\<close>)
qed (simp add: repo_inv_new)

section \<open>Pinned blocks are kept\<close>

lemma insert_pin_keys:
  assumes "insert_pin api t k g = Inr (m, g')"
  shows "is_pinned api t g'" "is_pinned api c g \<Longrightarrow> is_pinned api c g'"
  using assms
  by (auto simp: insert_pin_def is_pinned_def Let_def split: option.splits sum.splits if_splits)

lemma insert_refs_keys:
  "insert_refs api k refs n g = (res, g') \<Longrightarrow> is_pinned api c g \<Longrightarrow> is_pinned api c g'"
proof (induction api k refs n g rule: insert_refs.induct)
  case (3 api k nxt refs n g)
  then show ?case by (auto split: sum.splits if_splits dest: insert_pin_keys(2))
qed simp_all

lemma insert_refs_pinned:
  "insert_refs api k refs n g = (Inr m, g') \<Longrightarrow> x \<in> set refs \<Longrightarrow> \<exists>c. x = Inr c \<and> is_pinned api c g'"
proof (induction api k refs n g rule: insert_refs.induct)
  case (3 api k nxt refs n g)
  obtain mo g1 where i: "insert_pin api nxt k g = Inr (mo, g1)"
    using "3.prems"(1) by (cases "insert_pin api nxt k g") auto
  have r: "insert_refs api k refs (n + 1) g1 = (Inr m, g')" "n + 1 \<le> i32_max"
    using "3.prems"(1) i by (auto split: if_splits)
  show ?case
  proof (cases "x = Inr nxt")
    case True
    then show ?thesis using insert_refs_keys [OF r(1) insert_pin_keys(1) [OF i]] by simp
  next
    case False
    then have "x \<in> set refs" using "3.prems"(2) by simp
    then show ?thesis using "3.IH" [OF i refl _ r(1)] r(2) by simp
  qed
qed simp_all

lemma insert_recursive_keys:
  assumes "insert_recursive_pin api t refs g = (e, g')"
  shows "is_pinned api c g \<Longrightarrow> is_pinned api c g'"
    and "e = None \<Longrightarrow> is_pinned api t g'"
    and "e = None \<Longrightarrow> x \<in> set refs \<Longrightarrow> \<exists>c. x = Inr c \<and> is_pinned api c g'"
proof -
  show "is_pinned api c g \<Longrightarrow> is_pinned api c g'"
    using assms
    by (auto simp: insert_recursive_pin_def finish_def split: sum.splits prod.splits
        dest: insert_pin_keys(2) insert_refs_keys)
  assume "e = None"
  then obtain g1 n g2 m3 where g:
    "insert_refs api (IndirectFrom (to_v1 api t)) refs 0 g1 = (Inr n, g2)" "insert_pin api t (Recursive n) g2 = Inr (m3, g')"
    using assms by (auto simp: insert_recursive_pin_def finish_def split: sum.splits prod.splits)
  show "is_pinned api t g'" by (rule insert_pin_keys(1) [OF g(2)])
  show "\<exists>c. x = Inr c \<and> is_pinned api c g'" if "x \<in> set refs"
    using insert_refs_pinned [OF g(1) that] insert_pin_keys(2) [OF g(2)] by blast
qed

lemma insert_until_keys: "insert_until api t refs g = (e, g') \<Longrightarrow> is_pinned api c g \<Longrightarrow> is_pinned api c g'"
  by (auto simp: insert_until_def split: sum.splits prod.splits dest: insert_pin_keys(2) insert_refs_keys)

text \<open>A block that is pinned, with its content.\<close>

definition kept :: "('cid, char) pin_api \<Rightarrow> 'cid \<Rightarrow> ('cid, 'd) RBlock \<Rightarrow> ('cid, 'peer, 'd) Repo \<Rightarrow> bool" where
  "kept api c b r \<longleftrightarrow> Repo_is_pinned api c r \<and> get_block_now c r = Some b"

lemmas kept_defs = kept_def Repo_is_pinned_def get_block_now_def bs_get_def

lemma kept_put: "kept api c b r \<Longrightarrow> kept api c b (snd (snd (put_block b' r)))"
  by (auto simp: kept_defs put_block_def bs_put_def split: option.splits)

lemma kept_subscribe: "kept api c b (snd (subscribe_block ch s cid ps l r)) = kept api c b r"
  by (simp add: kept_defs subscribe_block_def Let_def send_event_def)

lemma kept_get: "kept api c b r \<Longrightarrow> kept api c b (snd (get_block_with_session ch s cid ps l r))"
  using kept_subscribe [of api c b ch s cid ps l r]
  by (auto simp: get_block_with_session_def split: option.splits prod.splits)

lemma kept_remove: "kept api c b r \<Longrightarrow> kept api c b (snd (remove_block api cid r))"
  by (auto simp: kept_defs remove_block_def bs_remove_def send_event_def split: option.splits)

lemma kept_cleanup: "kept api c b r \<Longrightarrow> kept api c b (snd (cleanup_loop api cids rm r))"
proof (induction cids arbitrary: rm r)
  case (Cons cid cids)
  obtain res r' where e: "remove_block api cid r = (res, r')" by (meson surj_pair)
  have "kept api c b r'" using kept_remove [OF Cons.prems, of cid] e by simp
  then show ?case using Cons.IH Cons.prems e by (cases res) simp_all
qed simp

lemma kept_with_pins:
  assumes "kept api c b r" "\<And>e g'. f (md_pin (data_store r)) = (e, g') \<Longrightarrow> is_pinned api c g'"
  shows "kept api c b (snd (with_pins f r))"
  using assms by (auto simp: kept_defs with_pins_def split: prod.splits)

lemma kept_insert_recursive:
  assumes "kept api c b r"
  shows "kept api c b (snd (Repo_insert_recursive_pin api ch cid w r))"
proof -
  have p: "is_pinned api c (md_pin (data_store r))" using assms by (simp add: kept_defs)
  have "kept api c b (snd (with_pins (insert_recursive_pin api cid refs) r))" for refs
    using insert_recursive_keys(1) [OF _ p] by (intro kept_with_pins [OF assms]) blast
  moreover have "kept api c b (snd (with_pins (insert_until api cid refs) r))" for refs
    using insert_until_keys [OF _ p] by (intro kept_with_pins [OF assms]) blast
  ultimately show ?thesis
    by (auto simp: Repo_insert_recursive_pin_def kept_subscribe split: walk_end.splits option.splits prod.splits)
      (metis snd_conv)+
qed

lemma kept_pin_block:
  assumes "kept api c b r" "pin_block api ia ch cid recursive blk r = Some (out, r')"
  shows "kept api c b r'"
proof (cases "recursive \<and> (\<exists>ipld ls. block_decode ia blk = Some ipld \<and> ipld_links ia cid ipld = Inr ls)")
  case True
  then obtain w where "r' = snd (Repo_insert_recursive_pin api ch cid w r)"
    using assms(2) by (auto simp: pin_block_def) (metis snd_conv)
  then show ?thesis using kept_insert_recursive [OF assms(1)] by simp
next
  case False
  have "is_pinned api c (md_pin (data_store r))" using assms(1) by (simp add: kept_defs)
  then have "kept api c b (snd (with_pins (insert_direct_pin api cid) r))"
    by (intro kept_with_pins [OF assms(1)])
      (auto simp: insert_direct_pin_def finish_def split: sum.splits dest: insert_pin_keys(2))
  then show ?thesis
    using False assms by (auto simp: pin_block_def Repo_insert_direct_pin_def split: if_splits option.splits sum.splits)
qed

lemma kept_insert_pin:
  assumes "kept api c b r" "Repo_insert_pin api ia ch cid recursive local_only r = Some (out, r')"
  shows "kept api c b r'"
proof (cases rule: get_block_cases [of cid r ch "[]" local_only])
  case (got b)
  then show ?thesis using assms kept_pin_block [OF assms(1)] by (simp add: Repo_insert_pin_def)
qed (use assms in \<open>auto simp: Repo_insert_pin_def kept_subscribe\<close>)

definition removes_pin :: "('cid, 'peer, 'd) repo_op \<Rightarrow> bool" where
  "removes_pin x = (case x of RemovePin _ _ \<Rightarrow> True | _ \<Rightarrow> False)"

lemma kept_step:
  assumes "kept api c b r" "\<not> removes_pin x"
  shows "kept api c b (repo_step api ia names x r)"
proof (cases x)
  case (InsertPin ch cid recursive local_only)
  then show ?thesis using assms(1) kept_insert_pin [OF assms(1)] by (auto split: option.splits)
next
  case (RemovePin cid recursive)
  then show ?thesis using assms(2) by (simp add: removes_pin_def)
next
  case (PutIpns peer p)
  then show ?thesis using assms(1) by (simp add: put_ipns_def data_put_def kept_defs)
next
  case (RemoveIpns peer)
  then show ?thesis using assms(1) by (simp add: remove_ipns_def data_remove_def kept_defs)
next
  case Connect
  then show ?thesis using assms(1) by (simp add: initialize_channel_def kept_defs)
next
  case Shutdown
  then show ?thesis using assms(1) by (simp add: Repo_shutdown_def kept_defs)
qed (use assms(1) kept_put kept_get kept_remove kept_cleanup in \<open>simp_all add: cleanup_def\<close>)

lemma kept_run:
  "kept api c b r \<Longrightarrow> list_all (\<lambda>x. \<not> removes_pin x) xs \<Longrightarrow> kept api c b (fold (repo_step api ia names) xs r)"
  by (induction xs arbitrary: r) (simp_all add: kept_step)

text \<open>What a recursive pin that succeeds has pinned.\<close>

lemma recursive_pin_pins:
  assumes "get_block_now cid r = Some b" "block_decode ia b = Some ipld"
    and "Repo_insert_pin api ia ch cid True local_only r = Some (PinDone None, r')"
  shows "kept api cid b r'"
    and "refs_reach ia (load_block r) (root_links ia cid ipld) c \<Longrightarrow> get_block_now c r = Some b' \<Longrightarrow> kept api c b' r'"
proof -
  have pb: "pin_block api ia ch cid True b r = Some (PinDone None, r')"
    using assms(1,3) by (simp add: Repo_insert_pin_def Repo_get_block_def get_block_with_session_def)
  obtain items e where w: "refs_of_resolved ia (load_block r) (with_only_unique IpldRefs_default) [(cid, ipld)] = Some (items, e)"
    "e = Finished \<Longrightarrow> reports ia (load_block r) {c. refs_reach ia (load_block r) (root_links ia cid ipld) c} items"
    using pin_walk [of ia r cid ipld] by blast
  have ir: "Repo_insert_recursive_pin api ch cid (items, e) r = (PinDone None, r')"
    using pb assms(2) w(1) by (simp add: pin_block_def split: sum.splits)
  then have e: "e = Finished" by (cases e) (auto simp: Repo_insert_recursive_pin_def split: prod.splits option.splits)
  let ?g = "md_pin (data_store r)"
  obtain err g' where i: "insert_recursive_pin api cid (destinations items) ?g = (err, g')" by (meson surj_pair)
  have r': "err = None" "r' = r\<lparr>data_store := (data_store r)\<lparr>md_pin := g'\<rparr>\<rparr>"
    using ir e i by (auto simp: Repo_insert_recursive_pin_def with_pins_def)
  show "kept api cid b r'" using assms(1) insert_recursive_keys(2) [OF i r'(1)] r'(2) by (simp add: kept_defs)
  assume c: "refs_reach ia (load_block r) (root_links ia cid ipld) c" "get_block_now c r = Some b'"
  note rep = w(2) [OF e, unfolded reports_def]
  have "\<not> undecodable ia (load_block r) c"
  proof
    assume "undecodable ia (load_block r) c"
    then obtain x where "Inl x \<in> set items" using rep c(1) by blast
    then have "Inl () \<in> set (destinations items)" by (force simp: destinations_def)
    then show False using insert_recursive_keys(3) [OF i r'(1)] by blast
  qed
  moreover have "load_block r c = Loaded b'" using c(2) by (simp add: load_block_def)
  ultimately have "decoded ia (load_block r) c \<noteq> None" by (auto simp: undecodable_def decoded_def)
  then have "c \<in> set (edges items)" using rep c(1) by blast
  then have "Inr c \<in> set (destinations items)"
    by (force simp: edges_def destinations_def List.map_filter_def split: sum.splits)
  from insert_recursive_keys(3) [OF i r'(1) this] show "kept api c b' r'" using c(2) r'(2) by (simp add: kept_defs)
qed

section \<open>Cleaning up\<close>

lemma remove_block_stored:
  assumes "\<not> Repo_is_pinned api c r" "get_block_now c r \<noteq> None"
  shows "remove_block api c r = (Inr c, send_event (RemovedBlock c) (r\<lparr>block_store := AList.delete c (block_store r)\<rparr>))"
  using assms by (auto simp: remove_block_def bs_remove_def get_block_now_def bs_get_def)

definition cleaned ::
  "('cid, char) pin_api \<Rightarrow> 'cid list \<Rightarrow> 'cid list \<Rightarrow> ('cid, 'peer, 'd) Repo \<Rightarrow> 'cid list \<Rightarrow> ('cid, 'peer, 'd) Repo \<Rightarrow> bool" where
  "cleaned api cids rm r rm' r' \<longleftrightarrow>
     (let gone = filter (\<lambda>c. \<not> Repo_is_pinned api c r) cids
      in rm' = rm @ gone \<and> (\<forall>x. get_block_now x r' = (if x \<in> set gone then None else get_block_now x r)) \<and>
         data_store r' = data_store r \<and> subscriptions r' = subscriptions r \<and>
         events r' = map_option (\<lambda>es. es @ map RemovedBlock gone) (events r))"

lemma cleanup_loop_spec:
  assumes "distinct cids" "\<forall>c\<in>set cids. get_block_now c r \<noteq> None" "cleanup_loop api cids rm r = (rm', r')"
  shows "cleaned api cids rm r rm' r'"
  using assms
proof (induction cids arbitrary: rm r)
  case Nil
  then show ?case by (simp add: cleaned_def option.map_ident)
next
  case (Cons c cids)
  show ?case
  proof (cases "Repo_is_pinned api c r")
    case True
    then have "cleaned api cids rm r rm' r'" using Cons.prems by (intro Cons.IH) simp_all
    then show ?thesis using True by (simp add: cleaned_def Let_def)
  next
    case False
    let ?r = "send_event (RemovedBlock c) (r\<lparr>block_store := AList.delete c (block_store r)\<rparr>)"
    have pin: "Repo_is_pinned api x ?r = Repo_is_pinned api x r" for x by (simp add: Repo_is_pinned_def send_event_def)
    have get: "get_block_now x ?r = (if x = c then None else get_block_now x r)" for x
      by (simp add: get_block_now_def bs_get_def send_event_def)
    have rm: "remove_block api c r = (Inr c, ?r)" using False Cons.prems(2) by (intro remove_block_stored) simp_all
    have "cleaned api cids (rm @ [c]) ?r rm' r'"
      using Cons.prems False rm by (intro Cons.IH) (auto simp: get)
    then show ?thesis
      using False by (auto simp: cleaned_def Let_def pin get) (simp_all add: send_event_def option.map_comp comp_def)
  qed
qed

lemma list_blocks_inv:
  assumes "repo_inv r"
  shows "distinct (list_blocks r)" "c \<in> set (list_blocks r) \<longleftrightarrow> get_block_now c r \<noteq> None"
  using assms by (auto simp: repo_inv_def hmap_ok_def list_blocks_def bs_list_def get_block_now_def bs_get_def map_of_eq_None_iff
      image_iff dest: map_of_SomeD)

lemma put_block_waiters:
  assumes inv: "repo_inv r"
  shows "\<exists>res delivered r'. put_block b r = ((rb_cid b, res), delivered, r') \<and>
    map fst delivered = (case map_of (subscriptions r) (rb_cid b) of None \<Rightarrow> [] | Some chs \<Rightarrow> chs) \<and>
    list_all (\<lambda>d. snd d = b) delivered \<and> map_of (subscriptions r') (rb_cid b) = None \<and>
    (res = Existed \<longleftrightarrow> get_block_now (rb_cid b) r \<noteq> None) \<and>
    (\<exists>b'. get_block_now (rb_cid b) r' = Some b' \<and> rb_cid b' = rb_cid b)"
proof (cases "map_of (block_store r) (rb_cid b)")
  case None
  then show ?thesis
    by (auto simp: put_block_def bs_put_def get_block_now_def bs_get_def list_all_iff comp_def split: option.splits)
next
  case (Some b')
  then have "map_of (subscriptions r) (rb_cid b) = None" "rb_cid b' = rb_cid b" using inv by (auto simp: repo_inv_def)
  then show ?thesis using Some by (simp add: put_block_def bs_put_def get_block_now_def bs_get_def)
qed

section \<open>Properties\<close>

text \<open>C14: After any operations a cleanup removes exactly the blocks that are not pinned: it returns each of them
  once, announces each removal, keeps every other block and changes neither the pins nor the waiting tasks.\<close>

theorem cleanup_correct:
  "let r = fold (repo_step api ia names) xs Repo_new_memory in \<exists>r'. cleanup api r = (filter (\<lambda>c. \<not> Repo_is_pinned api c r) (list_blocks r), r') \<and> distinct (list_blocks r) \<and>
    (\<forall>c. get_block_now c r' = (if Repo_is_pinned api c r then get_block_now c r else None)) \<and>
    data_store r' = data_store r \<and> subscriptions r' = subscriptions r \<and>
    events r' = map_option (\<lambda>es. es @ map RemovedBlock (filter (\<lambda>c. \<not> Repo_is_pinned api c r) (list_blocks r))) (events r)"
proof -
  define r where "r = fold (repo_step api ia names) xs Repo_new_memory"
  have inv: "repo_inv r" unfolding r_def by (rule repo.reachable_inv) simp
  obtain rm' r' where c: "cleanup api r = (rm', r')" by (meson surj_pair)
  then have "cleaned api (list_blocks r) [] r rm' r'"
    using list_blocks_inv [OF inv] by (intro cleanup_loop_spec) (auto simp: cleanup_def)
  then show ?thesis using c list_blocks_inv [OF inv] unfolding Let_def r_def [symmetric] by (auto simp: cleaned_def Let_def)
qed

text \<open>C15: After any operations whose lookups of a block and subscriptions to it are not interrupted, no task waits
  for a block that is stored, and storing a block hands it to every task that waits for it, so that none is left waiting.\<close>

theorem put_block_answers_waiters:
  "let r = fold (repo_step api ia names) xs Repo_new_memory in \<exists>res delivered r'. put_block b r = ((rb_cid b, res), delivered, r') \<and>
    map fst delivered = (case map_of (subscriptions r) (rb_cid b) of None \<Rightarrow> [] | Some chs \<Rightarrow> chs) \<and>
    list_all (\<lambda>d. snd d = b) delivered \<and> map_of (subscriptions r') (rb_cid b) = None \<and>
    (res = Existed \<longleftrightarrow> get_block_now (rb_cid b) r \<noteq> None) \<and>
    (\<exists>b'. get_block_now (rb_cid b) r' = Some b' \<and> rb_cid b' = rb_cid b)"
  unfolding Let_def by (rule put_block_waiters) (rule repo.reachable_inv, rule refl)

text \<open>A block stored between the lookup of a task and its subscription is never handed to the task.\<close>

theorem subscription_after_put_is_lost:
  assumes "get_block_now (rb_cid b) r = Some b'" "online r" "events r \<noteq> None"
    and "subscribe_block ch session (rb_cid b) peers False r = (e, r')"
  shows "e = None" "put_block b r' = ((rb_cid b, Existed), [], r')"
    "\<exists>chs. map_of (subscriptions r') (rb_cid b) = Some chs \<and> ch \<in> set chs"
  using assms
  by (auto simp: subscribe_block_def put_block_def bs_put_def get_block_now_def bs_get_def send_event_def Let_def)

text \<open>C38: A path stored under a peer id is read back, other peer ids are not affected, and a removed path is gone.\<close>

theorem ipns_round_trip:
  assumes "name_laws names" "IpfsPath_from_str names s = Inr p"
  shows "get_ipns names peer (put_ipns names peer p r) = Inr (Some p) \<and>
    get_ipns names peer (remove_ipns names peer (put_ipns names peer p r)) = Inr None \<and>
    (other \<noteq> peer \<longrightarrow> get_ipns names other (put_ipns names peer p r) = get_ipns names other r)"
proof -
  have "ipns_key names other = ipns_key names peer \<Longrightarrow> other = peer"
    using assms(1) unfolding name_laws_def ipns_key_def by (metis append_eq_append_conv option.inject)
  then show ?thesis
    using from_str_fmt [OF assms(1) from_str_ok [OF assms(2)]]
    by (auto simp: get_ipns_def put_ipns_def remove_ipns_def data_get_def data_put_def data_remove_def)
qed

theorem ipns_round_trip_witness:
  "get_ipns sample_names 3 (put_ipns sample_names 3 \<lparr>root = Dns ''ex.com'', path = [''a'']\<rparr>
     (Repo_new_memory :: (nat, nat, nat) Repo)) = Inr (Some \<lparr>root = Dns ''ex.com'', path = [''a'']\<rparr>)"
proof -
  have "IpfsPath_from_str sample_names ''/ipns/ex.com/a'' = Inr \<lparr>root = Dns ''ex.com'', path = [''a'']\<rparr>"
    by (simp add: IpfsPath_from_str_def parse_root_def ipns_root_def IpfsPath_new_def sample_names_def)
  from ipns_round_trip [OF sample_names_laws this, of 3 "Repo_new_memory :: (nat, nat, nat) Repo" 4]
  show ?thesis by blast
qed

end
