(* ===== verification/Repo_Pinning.thy ===== *)
theory Repo_Pinning
  imports Repo
begin

text \<open>
  Pins of a repository: what a recursive pin protects, how inserting and removing it relate, and the migration of a
  repository (\<open>repo/mod.rs\<close>) with its pins.
\<close>

section \<open>Migration\<close>

text \<open>
  The three migrations run concurrently on disjoint parts of the target. A panic of the walk over the references of a
  pinned document ends the migration with the pins written before it; the blocks and the entries, which are polled first,
  are taken to be copied by then.
\<close>

fun migrate_blocks :: "('cid, 'd) MemBlockStore \<Rightarrow> 'cid list \<Rightarrow> ('cid, 'd) MemBlockStore \<Rightarrow> ('cid, 'd) MemBlockStore" where
  "migrate_blocks this [] external = external"
| "migrate_blocks this (cid # cids) external =
     migrate_blocks this cids (case bs_get cid this of Some block \<Rightarrow> snd (bs_put block external) | None \<Rightarrow> external)"

fun migrate_data :: "(string \<times> string) list \<Rightarrow> char MemDataStore \<Rightarrow> char MemDataStore" where
  "migrate_data [] external = external"
| "migrate_data ((k, v) # kvs) external = migrate_data kvs (data_put k v external)"

definition pin_panic :: "'cid pin_error option \<Rightarrow> panic option" where
  "pin_panic e = (case e of Some (PinPanic p) \<Rightarrow> Some p | _ \<Rightarrow> None)"

definition migrate_recursive_pin ::
  "('cid, char) pin_api \<Rightarrow> ('cid, ('cid, 'd) RBlock) ipld_api \<Rightarrow> ('cid, 'peer, 'd) Repo \<Rightarrow> 'cid \<Rightarrow> char pins \<Rightarrow>
   (panic option \<times> char pins) option" where
  "migrate_recursive_pin api ia this cid g =
     (case Option.bind (get_block_now cid this) (block_decode ia) of
        None \<Rightarrow> Some (None, g)
      | Some ipld \<Rightarrow>
          (case ipld_links ia cid ipld of
             Inl p \<Rightarrow> Some (Some p, g)
           | Inr _ \<Rightarrow>
               map_option (\<lambda>(items, e).
                   (case e of
                      Panicked p \<Rightarrow>
                        (case insert_until api cid (destinations items) g of
                           (None, g') \<Rightarrow> (Some p, g')
                         | (err, g') \<Rightarrow> (pin_panic err, g'))
                    | _ \<Rightarrow> apfst pin_panic (insert_recursive_pin api cid (destinations items) g)))
                 (refs_of_resolved ia (load_block this) (with_only_unique IpldRefs_default) [(cid, ipld)])))"

fun migrate_pins ::
  "('cid, char) pin_api \<Rightarrow> ('cid, ('cid, 'd) RBlock) ipld_api \<Rightarrow> ('cid, 'peer, 'd) Repo \<Rightarrow>
   ('cid pin_error + 'cid \<times> PinMode) list \<Rightarrow> char pins \<Rightarrow> (panic option \<times> char pins) option" where
  "migrate_pins api ia this [] g = Some (None, g)"
| "migrate_pins api ia this (Inl _ # ps) g = Some (None, g)"
| "migrate_pins api ia this (Inr (cid, mode) # ps) g =
     (case mode of
        Mode_Direct \<Rightarrow> migrate_pins api ia this ps (snd (insert_direct_pin api cid g))
      | Mode_Indirect \<Rightarrow> migrate_pins api ia this ps g
      | Mode_Recursive \<Rightarrow>
          (case migrate_recursive_pin api ia this cid g of
             None \<Rightarrow> None
           | Some (Some p, g') \<Rightarrow> Some (Some p, g')
           | Some (None, g') \<Rightarrow> migrate_pins api ia this ps g'))"

definition migrate ::
  "('cid, char) pin_api \<Rightarrow> ('cid, ('cid, 'd) RBlock) ipld_api \<Rightarrow> ('cid, 'peer, 'd) Repo \<Rightarrow> ('cid, 'peer, 'd) Repo \<Rightarrow>
   ('cid pin_outcome \<times> ('cid, 'peer, 'd) Repo) option" where
  "migrate api ia this external =
     (if is_online this \<or> is_online external then Some (PinDone (Some RepositoryOnline), external)
      else map_option (\<lambda>(panicked, g).
               (case panicked of Some p \<Rightarrow> PinPanicked p | None \<Rightarrow> PinDone None,
                external\<lparr>
                  block_store := migrate_blocks (block_store this) (list_blocks this) (block_store external),
                  data_store := (migrate_data (data_iter (data_store this)) (data_store external))\<lparr>md_pin := g\<rparr>\<rparr>))
             (migrate_pins api ia this (pin_list api None (md_pin (data_store this))) (md_pin (data_store external))))"

section \<open>A concrete store\<close>

text \<open>Cids are numbers, a block lists the cids it links to, and documents are written in unary.\<close>

fun dec_nat :: "string \<Rightarrow> (nat \<times> string) option" where
  "dec_nat [] = None"
| "dec_nat (c # cs) =
     (if c = CHR ''x'' then map_option (apfst Suc) (dec_nat cs) else if c = CHR ''.'' then Some (0, cs) else None)"

definition enc_nat :: "nat \<Rightarrow> string" where
  "enc_nat n = replicate n (CHR ''x'') @ ''.''"

lemma dec_enc_nat [simp]: "dec_nat (enc_nat n @ s) = Some (n, s)"
  by (induction n) (simp_all add: enc_nat_def)

definition enc_str :: "string \<Rightarrow> string" where
  "enc_str s = enc_nat (length s) @ s"

fun dec_strs :: "nat \<Rightarrow> string \<Rightarrow> string list option" where
  "dec_strs 0 s = Some []"
| "dec_strs (Suc n) s = Option.bind (dec_nat s) (\<lambda>(k, t). map_option (Cons (take k t)) (dec_strs n (drop k t)))"

lemma dec_enc_strs [simp]: "dec_strs (length ss) (concat (map enc_str ss)) = Some ss"
  by (induction ss) (simp_all add: enc_str_def)

fun enc_rec :: "Recursive \<Rightarrow> string" where
  "enc_rec Rec_Not = enc_nat 0"
| "enc_rec Rec_Intent = enc_nat 1"
| "enc_rec (Rec_Count n) = enc_nat (n + 2)"

definition dec_rec :: "nat \<Rightarrow> Recursive" where
  "dec_rec n = (if n = 0 then Rec_Not else if n = 1 then Rec_Intent else Rec_Count (n - 2))"

definition enc_doc :: "PinDocument \<Rightarrow> string" where
  "enc_doc d =
     enc_nat (pd_version d) @ enc_nat (of_bool (pd_direct d)) @ enc_rec (pd_recursive d) @ enc_nat (pd_cid_version d) @
     enc_nat (length (indirect_by d)) @ concat (map enc_str (indirect_by d))"

definition dec_doc :: "string \<Rightarrow> PinDocument option" where
  "dec_doc s =
     Option.bind (dec_nat s) (\<lambda>(v, s). Option.bind (dec_nat s) (\<lambda>(d, s). Option.bind (dec_nat s) (\<lambda>(r, s).
       Option.bind (dec_nat s) (\<lambda>(cv, s). Option.bind (dec_nat s) (\<lambda>(n, s).
         map_option (\<lambda>ss. \<lparr>pd_version = v, pd_direct = (d = 1), pd_recursive = dec_rec r, pd_cid_version = cv,
           indirect_by = ss\<rparr>) (dec_strs n s))))))"

lemma dec_enc_doc: "dec_doc (enc_doc d) = Some d"
  by (cases "pd_recursive d"; cases d) (simp_all add: dec_doc_def enc_doc_def dec_rec_def)

definition unary_pins :: "(nat, char) pin_api" where
  "unary_pins =
     \<lparr>pin_to_bytes = enc_nat, pin_try_from = (\<lambda>s. map_option fst (dec_nat s)), pin_to_string = enc_nat,
      pin_from_str = (\<lambda>s. map_option fst (dec_nat s)), pin_is_v1 = (\<lambda>_. True), pin_new_v1 = (\<lambda>c. c),
      doc_to_vec = enc_doc, doc_from_slice = dec_doc\<rparr>"

lemma unary_pins_laws: "pin_laws unary_pins"
  using dec_enc_nat [of _ "[]"] by (simp add: pin_laws_def unary_pins_def dec_enc_doc)

lemma unary_simps [simp]: "pin_to_string unary_pins = enc_nat" "to_v1 unary_pins c = c"
  by (simp_all add: unary_pins_def to_v1_def)

definition number_ipld :: "(nat, (nat, nat list) RBlock) ipld_api" where
  "number_ipld =
     \<lparr>codec_is_dagpb = (\<lambda>_. False), block_decode = (\<lambda>b. Some (Ipld_List (map Ipld_Link (rb_data b)))),
      ipld_iter = (\<lambda>i. case i of Ipld_List xs \<Rightarrow> xs | _ \<Rightarrow> [])\<rparr>"

definition number_block :: "nat \<Rightarrow> nat list \<Rightarrow> (nat, nat list) RBlock" where
  "number_block c ls = \<lparr>rb_cid = c, rb_data = ls\<rparr>"

lemmas refs_loop_unfold = refs_loop.simps [of _ _ _ "_ # _"] refs_loop.simps [of _ _ _ "[]"]

lemma number_links [simp]: "ipld_links number_ipld c (Ipld_List (map Ipld_Link ls)) = Inr (map (Pair None) ls)"
  by (induction ls) (simp_all add: number_ipld_def ipld_links_def List.map_filter_def)

lemma number_decode [simp]: "block_decode number_ipld b = Some (Ipld_List (map Ipld_Link (rb_data b)))"
  by (simp add: number_ipld_def)

definition gap_repo :: "(nat, nat, nat list) Repo" where
  "gap_repo = fold (repo_step unary_pins number_ipld sample_names)
     [PutBlock (number_block 0 [1, 2]), PutBlock (number_block 2 [])] Repo_new_memory"

lemma gap_repo_eq:
  "gap_repo = \<lparr>online = False, initialized = False, block_store = [(0, number_block 0 [1, 2]), (2, number_block 2 [])],
     data_store = \<lparr>md_inner = [], md_pin = []\<rparr>, events = None, subscriptions = []\<rparr>"
  by (simp add: gap_repo_def Repo_new_memory_def put_block_def bs_put_def number_block_def MemDataStore_new_def)

lemma is_pinned_abs:
  assumes "pin_laws api" "pins_ok api g"
  shows "is_pinned api c g \<longleftrightarrow> pins_abs api g c \<noteq> unpinned"
  by (cases rule: pins_cases [OF assms, of c]) (simp_all add: is_pinned_def)

lemma with_pins_step:
  "pin_step api x (md_pin (data_store r)) = (e, g) \<Longrightarrow>
   with_pins (pin_step api x) r = (map_option PinError e, r\<lparr>data_store := (data_store r)\<lparr>md_pin := g\<rparr>\<rparr>)"
  by (simp add: with_pins_def)

lemma pin_step_fun:
  "pin_step api (InsertRecursive c refs) = insert_recursive_pin api c refs"
  "pin_step api (RemoveRecursive c refs) = remove_recursive_pin api c refs"
  "pin_step api (InsertDirect c) = insert_direct_pin api c" "pin_step api (RemoveDirect c) = remove_direct_pin api c"
  by (simp_all add: fun_eq_iff)

lemma gap_get: "get_block_now c gap_repo =
    (if c = 0 then Some (number_block 0 [1, 2]) else if c = 2 then Some (number_block 2 []) else None)"
  by (simp add: gap_repo_eq get_block_now_def bs_get_def)

section \<open>Undoing a recursive pin\<close>

text \<open>The documents of every repository that can be reached are readable.\<close>

definition pins_inv :: "('cid, char) pin_api \<Rightarrow> ('cid, 'peer, 'd) Repo \<Rightarrow> bool" where
  "pins_inv api r \<longleftrightarrow> pins_ok api (md_pin (data_store r))"

lemma pins_inv_step:
  assumes "pin_laws api" "pins_inv api r"
  shows "pins_inv api (snd (with_pins (pin_step api x) r))"
proof -
  obtain e g where "pin_step api x (md_pin (data_store r)) = (e, g)" by (meson surj_pair)
  with pin_step_refines [OF assms(1) _ this] assms(2) with_pins_step [OF this] show ?thesis by (simp add: pins_inv_def)
qed

lemma pins_ok_until:
  assumes "pin_laws api" "pins_ok api g" "insert_until api t refs g = (e, g')"
  shows "pins_ok api g'"
proof (cases "insert_pin api t RecursiveIntention g")
  case (Inl err)
  then show ?thesis using assms(2,3) by (simp add: insert_until_def)
next
  case (Inr p)
  obtain m g1 where p: "p = (m, g1)" by (meson surj_pair)
  have ok1: "pins_ok api g1" using insert_pin_refines [OF assms(1,2), of t RecursiveIntention] Inr p by (auto split: sum.splits)
  obtain res g2 where i: "insert_refs api (IndirectFrom (to_v1 api t)) refs 0 g1 = (res, g2)" by (meson surj_pair)
  have "pins_ok api g2" using insert_refs_refines [OF assms(1) ok1 i] by blast
  then show ?thesis using assms(3) Inr p i by (auto simp: insert_until_def split: sum.splits)
qed

lemma pins_inv_pins:
  assumes "pin_laws api" "pins_inv api r"
  shows "pins_inv api (snd (with_pins (insert_direct_pin api c) r))" "pins_inv api (snd (with_pins (remove_direct_pin api c) r))"
    "pins_inv api (snd (with_pins (insert_recursive_pin api c refs) r))"
    "pins_inv api (snd (with_pins (remove_recursive_pin api c refs) r))"
    "pins_inv api (snd (with_pins (insert_until api c refs) r))"
proof -
  show "pins_inv api (snd (with_pins (insert_until api c refs) r))"
    using pins_ok_until [OF assms(1)] assms(2) by (auto simp: pins_inv_def with_pins_def split: prod.splits)
qed (use pins_inv_step [OF assms] in \<open>simp_all add: pin_step_fun [symmetric]\<close>)

lemma pins_inv_subscribe: "pins_inv api (snd (subscribe_block ch s cid ps l r)) = pins_inv api r"
  by (simp add: pins_inv_def subscribe_block_def Let_def send_event_def)

lemma pins_inv_remove_block: "pins_inv api (snd (remove_block api' cid r)) = pins_inv api r"
  by (auto simp: pins_inv_def remove_block_def bs_remove_def send_event_def split: option.splits)

lemma pins_inv_cleanup: "pins_inv api (snd (cleanup_loop api' cids rm r)) = pins_inv api r"
proof (induction cids arbitrary: rm r)
  case (Cons c cids)
  obtain res r' where e: "remove_block api' c r = (res, r')" by (meson surj_pair)
  have "pins_inv api r' = pins_inv api r" using pins_inv_remove_block [of api api' c r] e by simp
  then show ?case using Cons.IH e by (cases res) simp_all
qed simp

lemma pins_inv_pin_block:
  assumes "pin_laws api" "pins_inv api r" "pin_block api ia ch cid recursive b r = Some (out, r')"
  shows "pins_inv api r'"
proof (cases "recursive \<and> (\<exists>ipld ls. block_decode ia b = Some ipld \<and> ipld_links ia cid ipld = Inr ls)")
  case True
  then obtain w where w: "Repo_insert_recursive_pin api ch cid w r = (out, r')"
    using assms(3) by (auto simp: pin_block_def)
  note pi = pins_inv_pins(3,5) [OF assms(1,2), of cid "destinations (fst w)"]
  obtain e1 r1 where 1: "with_pins (insert_until api cid (destinations (fst w))) r = (e1, r1)" by (meson surj_pair)
  then have "pins_inv api r1" using pi(2) by simp
  then show ?thesis
    using w 1 pi(1) by (auto simp: Repo_insert_recursive_pin_def pins_inv_subscribe split: walk_end.splits option.splits)
next
  case False
  then show ?thesis
    using assms pins_inv_pins(1) [OF assms(1,2)]
    by (auto simp: pin_block_def Repo_insert_direct_pin_def split: if_splits option.splits sum.splits)
qed

lemma pins_inv_insert_pin:
  assumes "pin_laws api" "pins_inv api r" "Repo_insert_pin api ia ch cid recursive local_only r = Some (out, r')"
  shows "pins_inv api r'"
proof (cases rule: get_block_cases [of cid r ch "[]" local_only])
  case (got b)
  then show ?thesis using assms(3) pins_inv_pin_block [OF assms(1,2)] by (simp add: Repo_insert_pin_def)
qed (use assms in \<open>auto simp: Repo_insert_pin_def pins_inv_subscribe\<close>)

lemma pins_inv_repo_step:
  assumes laws: "pin_laws api" and r: "pins_inv api r"
  shows "pins_inv api (repo_step api ia names x r)"
proof (cases x)
  case (PutBlock b)
  then show ?thesis using r by (auto simp: pins_inv_def put_block_def bs_put_def split: option.splits)
next
  case (GetBlock ch s cid ps l)
  obtain e r' where "subscribe_block ch s cid ps l r = (e, r')" by (meson surj_pair)
  then show ?thesis
    using GetBlock r pins_inv_subscribe [of api ch s cid ps l r]
    by (cases e) (simp_all add: get_block_with_session_def split: option.splits)
next
  case (InsertPin ch cid recursive local_only)
  then show ?thesis using r pins_inv_insert_pin [OF laws r] by (auto split: option.splits)
next
  case (RemovePin cid recursive)
  then show ?thesis
    using r remove_pin_data [of api ia cid recursive r] pins_inv_pins(2,4) [OF laws r] by (fastforce split: option.splits)
qed (use r in \<open>simp_all add: pins_inv_remove_block pins_inv_cleanup cleanup_def pins_inv_def put_ipns_def data_put_def
      remove_ipns_def data_remove_def initialize_channel_def Repo_shutdown_def
      pins_inv_remove_block [unfolded pins_inv_def] pins_inv_cleanup [unfolded pins_inv_def]\<close>)

lemma pins_inv_run: "pin_laws api \<Longrightarrow> pins_inv api (fold (repo_step api ia names) xs Repo_new_memory)"
proof -
  assume laws: "pin_laws api"
  have "pins_inv api r \<Longrightarrow> pins_inv api (fold (repo_step api ia names) xs r)" for r
    by (induction xs arbitrary: r) (simp_all add: pins_inv_repo_step [OF laws])
  then show ?thesis by (simp add: pins_inv_def Repo_new_memory_def MemDataStore_new_def pins_empty(1))
qed

text \<open>The documents a pin of a cid covers, and that all of them are stored and readable.\<close>

definition pin_closure :: "('cid, ('cid, 'd) RBlock) ipld_api \<Rightarrow> 'cid \<Rightarrow> 'cid ipld \<Rightarrow> ('cid, 'peer, 'd) Repo \<Rightarrow> 'cid set" where
  "pin_closure ia cid ipld r = {c. refs_reach ia (load_block r) (root_links ia cid ipld) c}"

definition readable :: "('cid, ('cid, 'd) RBlock) ipld_api \<Rightarrow> ('cid, 'peer, 'd) Repo \<Rightarrow> 'cid \<Rightarrow> 'cid ipld \<Rightarrow> bool" where
  "readable ia r c i \<longleftrightarrow> (\<exists>b ls. get_block_now c r = Some b \<and> block_decode ia b = Some i \<and> ipld_links ia c i = Inr ls)"

lemma destinations_edges: "\<nexists>x. Inl x \<in> set items \<Longrightarrow> destinations items = map Inr (edges items)"
  by (induction items) (auto simp: destinations_def edges_def List.map_filter_def split: sum.splits)

lemma complete_walk:
  assumes "readable ia r cid ipld" "\<forall>c\<in>pin_closure ia cid ipld r. \<exists>i. readable ia r c i"
    and "card (pin_closure ia cid ipld r) \<le> i32_max"
  shows "\<exists>items. (\<forall>dl. refs_of_resolved ia (load_block r) (once dl) [(cid, ipld)] = Some (items, Finished)) \<and>
    destinations items = map Inr (edges items) \<and> distinct (edges items) \<and> set (edges items) = pin_closure ia cid ipld r"
proof -
  let ?C = "pin_closure ia cid ipld r"
  have ld: "\<exists>b i ls. load_block r c = Loaded b \<and> block_decode ia b = Some i \<and> ipld_links ia c i = Inr ls" if "c \<in> ?C" for c
    using assms(2) that by (fastforce simp: readable_def load_block_def)
  have "finite ?C" unfolding pin_closure_def root_links_def by (rule finite_reach [OF finite_load(1)])
  from refs_once_correct [OF _ this, of ia "load_block r" "[(cid, ipld)]"] obtain items e where
    w: "\<And>dl. dl \<or> (\<forall>c\<in>?C. load_block r c \<noteq> LoadFailed) \<Longrightarrow> refs_of_resolved ia (load_block r) (once dl) [(cid, ipld)] = Some (items, e)"
      "e = Finished \<Longrightarrow> reports ia (load_block r) ?C items"
      "starts_ok ia [(cid, ipld)] \<and> walkable ia (load_block r) ?C \<and> card ?C \<le> u64_max \<Longrightarrow> e = Finished"
    unfolding pin_closure_def root_links_def by blast
  have "starts_ok ia [(cid, ipld)]" using assms(1) by (auto simp: starts_ok_def readable_def)
  moreover have "walkable ia (load_block r) ?C" using ld by (fastforce simp: walkable_def decoded_def)
  moreover have "card ?C \<le> u64_max" using assms(3) by simp
  ultimately have e: "e = Finished" using w(3) by blast
  note rep = w(2) [OF e, unfolded reports_def]
  have "\<not> undecodable ia (load_block r) c" "decoded ia (load_block r) c \<noteq> None" if "c \<in> ?C" for c
    using ld [OF that] by (auto simp: undecodable_def decoded_def)
  then have "\<nexists>x. Inl x \<in> set items" "set (edges items) = ?C" using rep by auto
  moreover from this(1) have "destinations items = map Inr (edges items)" by (rule destinations_edges)
  moreover have "refs_of_resolved ia (load_block r) (once dl) [(cid, ipld)] = Some (items, Finished)" for dl
    using w(1) [of dl] ld e by fastforce
  ultimately show ?thesis using rep by blast
qed

lemma pin_unpin:
  assumes laws: "pin_laws api" and inv: "pins_inv api r" and off: "\<not> online r"
    and rd: "readable ia r cid ipld" "\<forall>c\<in>pin_closure ia cid ipld r. \<exists>i. readable ia r c i"
    and cl: "card (pin_closure ia cid ipld r) \<le> i32_max" "cid \<notin> pin_closure ia cid ipld r"
    and fresh: "s_recursive (pins_abs api (md_pin (data_store r)) cid) = Rec_Not"
      "\<not> s_direct (pins_abs api (md_pin (data_store r)) cid)"
      "\<forall>c\<in>pin_closure ia cid ipld r. pin_to_string api (to_v1 api (to_v1 api cid)) \<notin> s_indirect (pins_abs api (md_pin (data_store r)) c)"
  shows "\<exists>r1 r2. Repo_insert_pin api ia ch cid True l r = Some (PinDone None, r1) \<and>
    Ipfs_remove_pin api ia cid True r1 = Some (PinDone None, r2) \<and>
    pins_abs api (md_pin (data_store r2)) = pins_abs api (md_pin (data_store r)) \<and> block_store r2 = block_store r"
proof -
  let ?g = "md_pin (data_store r)"
  obtain items where it: "\<And>dl. refs_of_resolved ia (load_block r) (once dl) [(cid, ipld)] = Some (items, Finished)"
      "destinations items = map Inr (edges items)" "distinct (edges items)" "set (edges items) = pin_closure ia cid ipld r"
    using complete_walk [OF rd cl(1)] by blast
  have len: "length (edges items) \<le> i32_max" using distinct_card [OF it(3)] it(4) cl(1) by simp
  obtain g1 g2 where g: "insert_recursive_pin api cid (destinations items) ?g = (None, g1)"
      "remove_recursive_pin api cid (destinations items) g1 = (None, g2)" "pins_abs api g2 = pins_abs api ?g"
    using recursive_pin_undone [OF laws inv [unfolded pins_inv_def] it(3) len _ fresh(1,2)] cl(2) fresh(3) it(2,4) by metis
  let ?r1 = "r\<lparr>data_store := (data_store r)\<lparr>md_pin := g1\<rparr>\<rparr>" and ?r2 = "r\<lparr>data_store := (data_store r)\<lparr>md_pin := g2\<rparr>\<rparr>"
  obtain b ls where b: "get_block_now cid r = Some b" "block_decode ia b = Some ipld" "ipld_links ia cid ipld = Inr ls"
    using rd(1) by (auto simp: readable_def)
  have "Repo_insert_pin api ia ch cid True l r = Some (PinDone None, ?r1)"
    using b it(1) [of True] g(1)
    by (simp add: Repo_insert_pin_def Repo_get_block_def get_block_with_session_def pin_block_def with_only_unique_def
        IpldRefs_default_def Repo_insert_recursive_pin_def with_pins_def)
  moreover have "load_block_now ?r1 = load_block r"
    using off by (auto simp: fun_eq_iff load_block_def load_block_now_def get_block_now_def split: option.splits)
  moreover have "get_block_now cid ?r1 = Some b" using b(1) by (simp add: get_block_now_def)
  ultimately have "Ipfs_remove_pin api ia cid True ?r1 = Some (PinDone None, ?r2)"
    using b it(1) [of False] g(2)
    by (simp add: Ipfs_remove_pin_def with_only_unique_def with_existing_blocks_def IpldRefs_default_def
        Repo_remove_recursive_pin_def with_pins_def)
  with \<open>Repo_insert_pin api ia ch cid True l r = Some (PinDone None, ?r1)\<close> g(3) show ?thesis by auto
qed

definition full_ops :: "(nat, nat, nat list) repo_op list" where
  "full_ops = [PutBlock (number_block 0 [1, 2]), PutBlock (number_block 1 [2]), PutBlock (number_block 2 [])]"

definition full_repo :: "(nat, nat, nat list) Repo" where
  "full_repo = fold (repo_step unary_pins number_ipld sample_names) full_ops Repo_new_memory"

lemma full_repo_eq:
  "full_repo = \<lparr>online = False, initialized = False,
     block_store = [(0, number_block 0 [1, 2]), (1, number_block 1 [2]), (2, number_block 2 [])],
     data_store = \<lparr>md_inner = [], md_pin = []\<rparr>, events = None, subscriptions = []\<rparr>"
  by (simp add: full_repo_def full_ops_def Repo_new_memory_def put_block_def bs_put_def number_block_def MemDataStore_new_def)

abbreviation full_root :: "nat ipld" where
  "full_root \<equiv> Ipld_List (map Ipld_Link [1, 2])"

lemma full_get: "get_block_now c full_repo =
    (if c = 0 then Some (number_block 0 [1, 2]) else if c = 1 then Some (number_block 1 [2])
     else if c = 2 then Some (number_block 2 []) else None)"
  by (simp add: full_repo_eq get_block_now_def bs_get_def)

lemma full_readable: "c \<in> {0, 1, 2} \<Longrightarrow> \<exists>i. readable number_ipld full_repo c i"
  "readable number_ipld full_repo 0 full_root"
  using number_links [of 0 "[1, 2]"] number_links [of 1 "[2]"] number_links [of 2 "[]"]
  by (auto simp: readable_def full_get number_block_def)

lemma full_closure: "pin_closure number_ipld 0 full_root full_repo = {1, 2}"
proof
  have r: "root_links number_ipld 0 full_root = {1, 2}" using number_links [of 0 "[1, 2]"] by (simp add: root_links_def)
  have s: "succs number_ipld (load_block full_repo) c \<subseteq> {1, 2}" if "c \<in> {1, 2}" for c
    using that number_links [of 1 "[2]"] number_links [of 2 "[]"]
    by (auto simp: succs_def decoded_def load_block_def full_get number_block_def)
  have "c \<in> {1, 2}" if "refs_reach number_ipld (load_block full_repo) {1, 2} c" for c
    using that by induction (use s in blast)+
  then show "pin_closure number_ipld 0 full_root full_repo \<subseteq> {1, 2}" unfolding pin_closure_def r by blast
  show "{1, 2} \<subseteq> pin_closure number_ipld 0 full_root full_repo"
    unfolding pin_closure_def r by (auto intro: reach_start)
qed

lemma gap_closure: "pin_closure number_ipld 0 full_root gap_repo = {1, 2}"
proof
  have r: "root_links number_ipld 0 full_root = {1, 2}" using number_links [of 0 "[1, 2]"] by (simp add: root_links_def)
  have s: "succs number_ipld (load_block gap_repo) c = {}" if "c \<in> {1, 2}" for c
    using that number_links [of 2 "[]"]
    by (auto simp: succs_def decoded_def load_block_def gap_get number_block_def)
  have "c \<in> {1, 2}" if "refs_reach number_ipld (load_block gap_repo) {1, 2} c" for c
    using that by induction (use s in blast)+
  then show "pin_closure number_ipld 0 full_root gap_repo \<subseteq> {1, 2}" unfolding pin_closure_def r by blast
  show "{1, 2} \<subseteq> pin_closure number_ipld 0 full_root gap_repo"
    unfolding pin_closure_def r by (auto intro: reach_start)
qed

lemma full_hyps:
  "\<not> online full_repo" "\<forall>c\<in>pin_closure number_ipld 0 full_root full_repo. \<exists>i. readable number_ipld full_repo c i"
  "card (pin_closure number_ipld 0 full_root full_repo) \<le> i32_max" "0 \<notin> pin_closure number_ipld 0 full_root full_repo"
  "pins_abs unary_pins (md_pin (data_store full_repo)) = (\<lambda>_. unpinned)" "pins_inv unary_pins full_repo"
proof -
  show "\<forall>c\<in>pin_closure number_ipld 0 full_root full_repo. \<exists>i. readable number_ipld full_repo c i"
    unfolding full_closure using full_readable(1) by blast
  show "pins_inv unary_pins full_repo" unfolding full_repo_def by (rule pins_inv_run [OF unary_pins_laws])
  show "card (pin_closure number_ipld 0 full_root full_repo) \<le> i32_max" unfolding full_closure by simp
  show "0 \<notin> pin_closure number_ipld 0 full_root full_repo" unfolding full_closure by simp
qed (simp_all add: full_repo_eq pins_empty(2))

lemma unpinned_sel: "s_recursive unpinned = Rec_Not" "\<not> s_direct unpinned" "x \<notin> s_indirect unpinned"
  by (simp_all add: unpinned_def)

section \<open>Migrated repositories\<close>

lemma migrate_blocks_spec:
  assumes "\<And>c b. map_of this c = Some b \<Longrightarrow> rb_cid b = c"
  shows "map_of (migrate_blocks this cids external) x =
    (case map_of external x of Some b \<Rightarrow> Some b | None \<Rightarrow> if x \<in> set cids then map_of this x else None)"
proof (induction cids arbitrary: external)
  case Nil
  then show ?case by (simp split: option.splits)
next
  case (Cons c cids)
  show ?case
  proof (cases "map_of this c")
    case (Some b)
    then have "rb_cid b = c" by (rule assms)
    then show ?thesis using Some by (auto simp: Cons.IH bs_get_def bs_put_def split: option.splits)
  qed (auto simp: Cons.IH bs_get_def split: option.splits)
qed

lemma migrate_data_spec:
  "md_pin (migrate_data kvs external) = md_pin external"
  "distinct (map fst kvs) \<Longrightarrow> data_get k (migrate_data kvs external) =
     (case map_of kvs k of Some v \<Rightarrow> Some v | None \<Rightarrow> data_get k external)"
proof (induction kvs arbitrary: external)
  case (Cons kv kvs)
  obtain k' v where kv: "kv = (k', v)" by (meson surj_pair)
  {
    case 1
    then show ?case using Cons.IH(1) kv by (simp add: data_put_def)
  next
    case 2
    then have "map_of kvs k' = None" using kv by (simp add: map_of_eq_None_iff)
    then show ?case using Cons.IH(2) [of "data_put k' v external"] 2 kv by (auto simp: data_get_def data_put_def split: option.splits)
  }
qed simp_all

text \<open>The keys of the entries are distinct, as those of a hash map are.\<close>

abbreviation entries_of :: "('cid, 'peer, 'd) Repo \<Rightarrow> (string \<times> string) list" where
  "entries_of r \<equiv> md_inner (data_store r)"

lemma entries_simps [simp]:
  "entries_of (snd (with_pins f r)) = entries_of r" "entries_of (snd (subscribe_block ch s cid ps l r)) = entries_of r"
  "entries_of (snd (remove_block api cid r)) = entries_of r"
  by (auto simp: with_pins_def subscribe_block_def Let_def send_event_def remove_block_def bs_remove_def split: prod.splits option.splits)

lemma entries_cleanup [simp]: "entries_of (snd (cleanup_loop api cids rm r)) = entries_of r"
proof (induction cids arbitrary: rm r)
  case (Cons c cids)
  obtain res r' where e: "remove_block api c r = (res, r')" by (meson surj_pair)
  have "entries_of r' = entries_of r" using entries_simps(3) [of api c r] e by simp
  then show ?case using Cons.IH e by (cases res) simp_all
qed simp

lemma entries_insert_recursive [simp]: "entries_of (snd (Repo_insert_recursive_pin api ch cid w r)) = entries_of r"
proof -
  obtain e1 r1 where 1: "with_pins (insert_until api cid (destinations (fst w))) r = (e1, r1)" by (meson surj_pair)
  then have "entries_of r1 = entries_of r" using entries_simps(1) [of "insert_until api cid (destinations (fst w))" r] by simp
  then show ?thesis using 1 by (cases "snd w"; cases e1) (simp_all add: Repo_insert_recursive_pin_def)
qed

lemma entries_insert_pin:
  assumes "Repo_insert_pin api ia ch cid recursive local_only r = Some (out, r')"
  shows "entries_of r' = entries_of r"
proof (cases rule: get_block_cases [of cid r ch "[]" local_only])
  case (got b)
  then have pb: "pin_block api ia ch cid recursive b r = Some (out, r')" using assms by (simp add: Repo_insert_pin_def)
  show ?thesis
  proof (cases "recursive \<and> (\<exists>ipld ls. block_decode ia b = Some ipld \<and> ipld_links ia cid ipld = Inr ls)")
    case True
    then obtain w where "Repo_insert_recursive_pin api ch cid w r = (out, r')" using pb by (auto simp: pin_block_def)
    then show ?thesis using entries_insert_recursive [of api ch cid w r] by simp
  next
    case False
    then show ?thesis
      using pb entries_simps(1) [of "insert_direct_pin api cid" r]
      by (auto simp: pin_block_def Repo_insert_direct_pin_def split: if_splits option.splits sum.splits)
  qed
qed (use assms in \<open>auto simp: Repo_insert_pin_def\<close>)

lemma entries_distinct_step:
  assumes "distinct (map fst (entries_of r))"
  shows "distinct (map fst (entries_of (repo_step api ia names x r)))"
proof (cases x)
  case (PutBlock b)
  then show ?thesis using assms by (auto simp: put_block_def bs_put_def split: option.splits)
next
  case (GetBlock ch s cid ps l)
  obtain e r' where "subscribe_block ch s cid ps l r = (e, r')" by (meson surj_pair)
  then show ?thesis
    using GetBlock assms entries_simps(2) [of ch s cid ps l r]
    by (cases e) (simp_all add: get_block_with_session_def split: option.splits)
next
  case (InsertPin ch cid recursive local_only)
  then show ?thesis using assms entries_insert_pin [of api ia ch cid recursive local_only r] by (auto split: option.splits)
next
  case (RemovePin cid recursive)
  have "entries_of r' = entries_of r" if "Ipfs_remove_pin api ia cid recursive r = Some (out, r')" for out r'
    using remove_pin_data [OF that] by auto
  then show ?thesis using RemovePin assms by (auto split: option.splits)
qed (use assms in \<open>simp_all add: cleanup_def put_ipns_def data_put_def remove_ipns_def data_remove_def initialize_channel_def
      Repo_shutdown_def distinct_update distinct_delete\<close>)

lemma entries_distinct_run: "distinct (map fst (data_iter (data_store (fold (repo_step api ia names) xs Repo_new_memory))))"
proof -
  have "distinct (map fst (entries_of r)) \<Longrightarrow> distinct (map fst (entries_of (fold (repo_step api ia names) xs r)))" for r
    by (induction xs arbitrary: r) (simp_all add: entries_distinct_step)
  then show ?thesis by (simp add: data_iter_def Repo_new_memory_def MemDataStore_new_def)
qed

text \<open>
  What a migration makes of the pins \<open>f\<close> of the target: the cids \<open>R\<close> are pinned recursively and the cids \<open>D\<close> directly, and
  what a cid of \<open>R\<close> leads to is pinned through it; every other pin stays as it was.
\<close>

definition merge_pins ::
  "('cid, char) pin_api \<Rightarrow> ('cid \<Rightarrow> 'cid set) \<Rightarrow> 'cid set \<Rightarrow> 'cid set \<Rightarrow> 'cid pin_map \<Rightarrow> 'cid pin_map" where
  "merge_pins api closure R D f =
     (\<lambda>c. \<lparr>s_direct = c \<in> D \<or> s_direct (f c) \<and> c \<notin> R,
          s_recursive = (if c \<in> R then Rec_Count (card (closure c)) else s_recursive (f c)),
          s_indirect = s_indirect (f c) \<union> {pin_to_string api (to_v1 api (to_v1 api x)) |x. x \<in> R \<and> c \<in> closure x}\<rparr>)"

text \<open>The documents a stored cid leads to, and that all of them are stored and readable.\<close>

definition doc_closure :: "('cid, ('cid, 'd) RBlock) ipld_api \<Rightarrow> ('cid, 'peer, 'd) Repo \<Rightarrow> 'cid \<Rightarrow> 'cid set" where
  "doc_closure ia r cid =
     (case Option.bind (get_block_now cid r) (block_decode ia) of None \<Rightarrow> {} | Some ipld \<Rightarrow> pin_closure ia cid ipld r)"

definition pin_complete :: "('cid, ('cid, 'd) RBlock) ipld_api \<Rightarrow> ('cid, 'peer, 'd) Repo \<Rightarrow> 'cid \<Rightarrow> bool" where
  "pin_complete ia r cid \<longleftrightarrow>
     (\<exists>i. readable ia r cid i) \<and> (\<forall>c\<in>doc_closure ia r cid. \<exists>i. readable ia r c i) \<and> card (doc_closure ia r cid) \<le> i32_max"

lemma spec_migrate_direct:
  "s_recursive (f c) = Rec_Not \<Longrightarrow> spec_step api (InsertDirect c) f = (None, merge_pins api cl {} {c} f)"
  by (cases "f c") (auto simp: spec_insert_def spec_add_def spec_finish_def merge_pins_def fun_eq_iff)

lemma spec_migrate_recursive:
  assumes "s_recursive (f c) = Rec_Not" "distinct rs" "length rs \<le> i32_max" "set rs = cl c"
  shows "spec_step api (InsertRecursive c (map Inr rs)) f = (None, merge_pins api cl {c} {} f)"
proof -
  let ?f0 = "f(c := (f c)\<lparr>s_recursive := Rec_Intent, s_direct := False\<rparr>)"
  let ?s = "pin_to_string api (to_v1 api (to_v1 api c))"
  let ?f1 = "\<lambda>d. if d \<in> set rs then (?f0 d)\<lparr>s_indirect := insert ?s (s_indirect (?f0 d))\<rparr> else ?f0 d"
  have "spec_insert_refs api (IndirectFrom (to_v1 api c)) (map Inr rs) 0 ?f0 = (Inr (length rs), ?f1)"
    using spec_insert_refs_all [OF assms(2), of 0 api "to_v1 api c" ?f0] assms(3) by simp
  moreover have "s_recursive (?f1 c) = Rec_Intent" by simp
  ultimately have "spec_step api (InsertRecursive c (map Inr rs)) f =
      (None, ?f1(c := (?f1 c)\<lparr>s_recursive := Rec_Count (length rs), s_direct := False\<rparr>))"
    using assms(1) by (simp add: spec_insert_def spec_add_def spec_finish_def)
  moreover have "?f1(c := (?f1 c)\<lparr>s_recursive := Rec_Count (length rs), s_direct := False\<rparr>) = merge_pins api cl {c} {} f"
    using assms(4) distinct_card [OF assms(2)] by (auto simp: merge_pins_def fun_eq_iff)
  ultimately show ?thesis by simp
qed

lemma migrate_recursive_pin_spec:
  assumes laws: "pin_laws api" and ok: "pins_ok api g" and c: "pin_complete ia this cid"
    and n: "s_recursive (pins_abs api g cid) = Rec_Not"
  shows "\<exists>g'. migrate_recursive_pin api ia this cid g = Some (None, g') \<and> pins_ok api g' \<and>
    pins_abs api g' = merge_pins api (doc_closure ia this) {cid} {} (pins_abs api g)"
proof -
  obtain b ipld ls where b: "get_block_now cid this = Some b" "block_decode ia b = Some ipld" "ipld_links ia cid ipld = Inr ls"
    using c by (auto simp: pin_complete_def readable_def)
  have cl: "doc_closure ia this cid = pin_closure ia cid ipld this" using b by (simp add: doc_closure_def)
  have rd: "readable ia this cid ipld" using b by (auto simp: readable_def)
  obtain items where it: "\<And>dl. refs_of_resolved ia (load_block this) (once dl) [(cid, ipld)] = Some (items, Finished)"
      "destinations items = map Inr (edges items)" "distinct (edges items)" "set (edges items) = doc_closure ia this cid"
    using complete_walk [OF rd] c unfolding pin_complete_def cl by blast
  have len: "length (edges items) \<le> i32_max" using distinct_card [OF it(3)] it(4) c by (simp add: pin_complete_def)
  obtain e g' where g': "insert_recursive_pin api cid (destinations items) g = (e, g')" by (meson surj_pair)
  have "spec_step api (InsertRecursive cid (map Inr (edges items))) (pins_abs api g) = (e, pins_abs api g') \<and> pins_ok api g'"
    using pin_step_refines [OF laws ok, of "InsertRecursive cid (map Inr (edges items))" e g'] g' it(2) by simp
  then have s: "e = None" "pins_abs api g' = merge_pins api (doc_closure ia this) {cid} {} (pins_abs api g)" "pins_ok api g'"
    using spec_migrate_recursive [where f = "pins_abs api g" and cl = "doc_closure ia this" and c = cid and api = api, OF n it(3) len it(4)]
    by simp_all
  have "migrate_recursive_pin api ia this cid g = Some (None, g')"
    using b it(1) [of True] g' s(1) by (simp add: migrate_recursive_pin_def with_only_unique_def IpldRefs_default_def pin_panic_def)
  with s show ?thesis by simp
qed

lemma pin_list_pairs:
  assumes "pin_laws api" "pins_ok api g"
  shows "\<exists>qs. pin_list api None g = map Inr qs \<and> distinct (map fst qs) \<and>
    (\<forall>c m. (c, m) \<in> set qs \<longleftrightarrow> spec_mode (pins_abs api g c) = Some m)"
proof -
  let ?ps = "pin_list api None g"
  let ?qs = "map projr ?ps"
  have s: "distinct ?ps" "set ?ps = {Inr (c, m) |c m. spec_mode (pins_abs api g c) = Some m}"
    using pin_list_spec [OF assms, of None] by auto
  have p: "?ps = map Inr ?qs" using s(2) by (auto intro!: map_idI [symmetric])
  then have "distinct ?qs" using s(1) by (metis distinct_map)
  moreover have q: "(c, m) \<in> set ?qs \<longleftrightarrow> spec_mode (pins_abs api g c) = Some m" for c m using s(2) by force
  moreover have "inj_on fst (set ?qs)"
  proof (rule inj_onI)
    fix x y assume xy: "x \<in> set ?qs" "y \<in> set ?qs" "fst x = fst y"
    obtain c m m' where p: "x = (c, m)" "y = (c, m')" using xy(3) by (metis prod.collapse)
    then have "Some m = Some m'" using xy(1,2) q by metis
    then show "x = y" using p by simp
  qed
  ultimately have "distinct (map fst ?qs)" using distinct_map [of fst ?qs] by blast
  with p q show ?thesis by blast
qed

lemma migrated_modes:
  assumes "\<And>c m. (c, m) \<in> set qs \<longleftrightarrow> mode c = Some m"
  shows "fst ` {q \<in> set qs. snd q \<noteq> Mode_Indirect} = {c. mode c = Some Mode_Recursive \<or> mode c = Some Mode_Direct}"
proof -
  have "c \<in> fst ` {q \<in> set qs. snd q \<noteq> Mode_Indirect} \<longleftrightarrow> (\<exists>m. mode c = Some m \<and> m \<noteq> Mode_Indirect)" for c
    using assms [of c] by force
  moreover have "(\<exists>m. mode c = Some m \<and> m \<noteq> Mode_Indirect) \<longleftrightarrow> mode c = Some Mode_Recursive \<or> mode c = Some Mode_Direct" for c
    by (auto intro: PinMode.exhaust)
  ultimately show ?thesis by (intro set_eqI) (simp only: mem_Collect_eq)
qed

lemma migrated_blocks:
  assumes inv: "repo_inv this" and r: "block_store r = migrate_blocks (block_store this) (list_blocks this) (block_store external)"
  shows "get_block_now c r = (case get_block_now c external of Some b \<Rightarrow> Some b | None \<Rightarrow> get_block_now c this)"
proof -
  have "\<And>c b. map_of (block_store this) c = Some b \<Longrightarrow> rb_cid b = c" using inv by (simp add: repo_inv_def)
  from migrate_blocks_spec [OF this, where cids = "list_blocks this" and external = "block_store external" and x = c]
  show ?thesis using list_blocks_inv(2) [OF inv, of c] r by (auto simp: get_block_now_def bs_get_def split: option.splits)
qed

lemma migrated_entries:
  assumes "distinct (map fst (data_iter this))" "d = (migrate_data (data_iter this) external)\<lparr>md_pin := g\<rparr>"
  shows "data_get k d = (case data_get k this of Some v \<Rightarrow> Some v | None \<Rightarrow> data_get k external)"
  using migrate_data_spec(2) [OF assms(1), of k external] assms(2) by (simp add: data_get_def data_iter_def)

lemma merge_pins_compose:
  "merge_pins api cl R D (merge_pins api cl {c} {} f) = merge_pins api cl (insert c R) D f"
  "c \<notin> R \<Longrightarrow> merge_pins api cl R D (merge_pins api cl {} {c} f) = merge_pins api cl R (insert c D) f"
  "merge_pins api cl {} {} f = f"
  "s_recursive (merge_pins api cl R D f d) = (if d \<in> R then Rec_Count (card (cl d)) else s_recursive (f d))"
  by (auto simp: merge_pins_def fun_eq_iff)

lemma migrate_pins_spec:
  assumes laws: "pin_laws api"
  shows "pins_ok api g \<Longrightarrow> distinct (map fst qs) \<Longrightarrow> \<forall>c. (c, Mode_Recursive) \<in> set qs \<longrightarrow> pin_complete ia this c \<Longrightarrow>
    \<forall>c\<in>fst ` {q \<in> set qs. snd q \<noteq> Mode_Indirect}. s_recursive (pins_abs api g c) = Rec_Not \<Longrightarrow>
    \<exists>g'. migrate_pins api ia this (map Inr qs) g = Some (None, g') \<and> pins_ok api g' \<and>
      pins_abs api g' = merge_pins api (doc_closure ia this) {c. (c, Mode_Recursive) \<in> set qs} {c. (c, Mode_Direct) \<in> set qs} (pins_abs api g)"
proof (induction qs arbitrary: g)
  case Nil
  then show ?case by (simp add: merge_pins_compose(3))
next
  case (Cons q qs)
  let ?M = "merge_pins api (doc_closure ia this)"
  obtain c m where q: "q = (c, m)" by (meson surj_pair)
  have nc: "(c, x) \<notin> set qs" for x using Cons.prems(2) q by force
  show ?case
  proof (cases m)
    case Mode_Indirect
    have "\<exists>g'. migrate_pins api ia this (map Inr qs) g = Some (None, g') \<and> pins_ok api g' \<and>
        pins_abs api g' = ?M {c. (c, Mode_Recursive) \<in> set qs} {c. (c, Mode_Direct) \<in> set qs} (pins_abs api g)"
      using Cons.prems by (intro Cons.IH) auto
    then show ?thesis using q Mode_Indirect by simp
  next
    case Mode_Direct
    obtain e g1 where g1: "insert_direct_pin api c g = (e, g1)" by (meson surj_pair)
    have "s_recursive (pins_abs api g c) = Rec_Not" using Cons.prems(4) q Mode_Direct by force
    then have a1: "pins_ok api g1" "pins_abs api g1 = ?M {} {c} (pins_abs api g)"
      using pin_step_refines [OF laws Cons.prems(1), of "InsertDirect c" e g1] g1
        spec_migrate_direct [where f = "pins_abs api g" and c = c and api = api and cl = "doc_closure ia this"] by auto
    have "\<exists>g'. migrate_pins api ia this (map Inr qs) g1 = Some (None, g') \<and> pins_ok api g' \<and>
        pins_abs api g' = ?M {c. (c, Mode_Recursive) \<in> set qs} {c. (c, Mode_Direct) \<in> set qs} (pins_abs api g1)"
      using Cons.prems by (intro Cons.IH a1(1)) (auto simp: a1(2) merge_pins_compose(4))
    moreover have "insert c {c. (c, Mode_Direct) \<in> set qs} = {d. (d, Mode_Direct) \<in> set (q # qs)}"
      "{d. (d, Mode_Recursive) \<in> set (q # qs)} = {d. (d, Mode_Recursive) \<in> set qs}" using q Mode_Direct by auto
    ultimately show ?thesis using q Mode_Direct g1 nc by (simp add: a1(2) merge_pins_compose(2))
  next
    case Mode_Recursive
    have "s_recursive (pins_abs api g c) = Rec_Not" "pin_complete ia this c" using Cons.prems(3,4) q Mode_Recursive by force+
    from migrate_recursive_pin_spec [OF laws Cons.prems(1) this(2,1)] obtain g1 where
      g1: "migrate_recursive_pin api ia this c g = Some (None, g1)" "pins_ok api g1" "pins_abs api g1 = ?M {c} {} (pins_abs api g)"
      by blast
    have "\<exists>g'. migrate_pins api ia this (map Inr qs) g1 = Some (None, g') \<and> pins_ok api g' \<and>
        pins_abs api g' = ?M {c. (c, Mode_Recursive) \<in> set qs} {c. (c, Mode_Direct) \<in> set qs} (pins_abs api g1)"
      using Cons.prems nc q by (intro Cons.IH g1(2)) (auto simp: g1(3) merge_pins_compose(4))
    moreover have "insert c {c. (c, Mode_Recursive) \<in> set qs} = {d. (d, Mode_Recursive) \<in> set (q # qs)}"
      "{d. (d, Mode_Direct) \<in> set (q # qs)} = {d. (d, Mode_Direct) \<in> set qs}" using q Mode_Recursive by auto
    ultimately show ?thesis using q Mode_Recursive g1(1) by (simp add: g1(3) merge_pins_compose(1))
  qed
qed

section \<open>Removing a pin over a gap\<close>

lemma partial_walk:
  assumes "readable ia r cid ipld" "\<not> online r" "card (pin_closure ia cid ipld r) \<le> i32_max"
    and "\<forall>c\<in>pin_closure ia cid ipld r. get_block_now c r = None \<or> (\<exists>i. readable ia r c i)"
  shows "\<exists>items. refs_of_resolved ia (load_block r) (once True) [(cid, ipld)] = Some (items, Finished) \<and>
    destinations items = map Inr (edges items) \<and> distinct (edges items) \<and>
    set (edges items) = {c \<in> pin_closure ia cid ipld r. get_block_now c r \<noteq> None}"
proof -
  let ?C = "pin_closure ia cid ipld r"
  have ld: "load_block r c = LoadFailed \<and> get_block_now c r = None \<or>
      (\<exists>b i ls. load_block r c = Loaded b \<and> get_block_now c r = Some b \<and> block_decode ia b = Some i \<and> ipld_links ia c i = Inr ls)"
    if "c \<in> ?C" for c
    using assms(2,4) that by (fastforce simp: readable_def load_block_def)
  have "finite ?C" unfolding pin_closure_def root_links_def by (rule finite_reach [OF finite_load(1)])
  from refs_once_correct [OF _ this, of ia "load_block r" "[(cid, ipld)]"] obtain items e where
    w: "refs_of_resolved ia (load_block r) (once True) [(cid, ipld)] = Some (items, e)"
      "e = Finished \<Longrightarrow> reports ia (load_block r) ?C items"
      "starts_ok ia [(cid, ipld)] \<and> walkable ia (load_block r) ?C \<and> card ?C \<le> u64_max \<Longrightarrow> e = Finished"
    unfolding pin_closure_def root_links_def by blast
  have "starts_ok ia [(cid, ipld)]" using assms(1) by (auto simp: starts_ok_def readable_def)
  moreover have "walkable ia (load_block r) ?C" using ld by (fastforce simp: walkable_def decoded_def)
  moreover have "card ?C \<le> u64_max" using assms(3) by simp
  ultimately have e: "e = Finished" using w(3) by blast
  note rep = w(2) [OF e, unfolded reports_def]
  have "\<not> undecodable ia (load_block r) c" "decoded ia (load_block r) c \<noteq> None \<longleftrightarrow> get_block_now c r \<noteq> None" if "c \<in> ?C" for c
    using ld [OF that] by (auto simp: undecodable_def decoded_def)
  then have "\<nexists>x. Inl x \<in> set items" "set (edges items) = {c \<in> ?C. get_block_now c r \<noteq> None}" using rep by auto
  moreover from this(1) have "destinations items = map Inr (edges items)" by (rule destinations_edges)
  ultimately show ?thesis using rep w(1) e by blast
qed

lemma push_links_front: "\<exists>ws. fst (push_links uniq depth origin ls (w # work) seen) = w # ws"
  by (induction uniq depth origin ls work seen arbitrary: rule: push_links.induct) auto

lemma walk_stops_at_gap:
  assumes "ipld_links ia cid ipld = Inr ((n, m) # ls)" "get_block_now m r = None"
  shows "refs_of_resolved ia (load_block_now r) (once False) [(cid, ipld)] = Some ([Inl (BlockNotFound m)], Finished)"
proof -
  obtain ws seen where "push_links True 0 cid ls [(0, m, cid, n)] [m] = ((0, m, cid, n) # ws, seen)"
    using push_links_front [of True 0 cid ls "(0, m, cid, n)" "[]" "[m]"] by (metis prod.collapse)
  then have "start_links ia True [(cid, ipld)] [] [] = Inr ((0, m, cid, n) # ws, seen)"
    using assms(1) by simp
  then show ?thesis
    using assms(2) by (simp add: refs_of_resolved_def iplds_refs_inner_def refs_loop.simps [of _ _ _ "_ # _"] load_block_now_def)
qed

lemma spec_unpin_stops:
  assumes "f c = unpinned" "c \<notin> cl c"
    and f1_def: "f1 = merge_pins api cl {c} {} f"
  shows "spec_step api (RemoveRecursive c [Inl ()]) f1 = (Some RefsError, f1(c := unpinned))"
    "spec_step api (RemoveRecursive c [Inl ()]) (f1(c := unpinned)) = (Some NotPinnedOrIndirect, f1(c := unpinned))"
    "d \<in> cl c \<Longrightarrow> (f1(c := unpinned)) d \<noteq> unpinned"
proof -
  have f1: "f1 c = \<lparr>s_direct = False, s_recursive = Rec_Count (card (cl c)), s_indirect = {}\<rparr>"
    using assms(1,2) by (simp add: f1_def merge_pins_def unpinned_def)
  then show "spec_step api (RemoveRecursive c [Inl ()]) f1 = (Some RefsError, f1(c := unpinned))"
    by (simp add: spec_kind_def spec_remove_def spec_del_def unpinned_def)
  show "spec_step api (RemoveRecursive c [Inl ()]) (f1(c := unpinned)) = (Some NotPinnedOrIndirect, f1(c := unpinned))"
    by (simp add: spec_kind_def unpinned_def)
  assume "d \<in> cl c"
  then show "(f1(c := unpinned)) d \<noteq> unpinned" using assms(2) by (auto simp: f1_def merge_pins_def unpinned_def)
qed

lemma insert_pin_walk:
  assumes "get_block_now cid r = Some b" "block_decode ia b = Some ipld" "ipld_links ia cid ipld = Inr ls"
    and "refs_of_resolved ia (load_block r) (once True) [(cid, ipld)] = Some (items, Finished)"
    and "pin_step api (InsertRecursive cid (destinations items)) (md_pin (data_store r)) = (e, g)"
  shows "Repo_insert_pin api ia ch cid True l r = Some (PinDone (map_option PinError e), r\<lparr>data_store := (data_store r)\<lparr>md_pin := g\<rparr>\<rparr>)"
  using assms
  by (simp add: Repo_insert_pin_def Repo_get_block_def get_block_with_session_def pin_block_def with_only_unique_def
      IpldRefs_default_def Repo_insert_recursive_pin_def with_pins_def)

lemma remove_pin_walk:
  assumes "get_block_now cid r = Some b" "block_decode ia b = Some ipld" "ipld_links ia cid ipld = Inr ls"
    and "refs_of_resolved ia (load_block_now r) (once False) [(cid, ipld)] = Some (items, Finished)"
    and "pin_step api (RemoveRecursive cid (destinations items)) (md_pin (data_store r)) = (e, g)"
  shows "Ipfs_remove_pin api ia cid True r = Some (PinDone (map_option PinError e), r\<lparr>data_store := (data_store r)\<lparr>md_pin := g\<rparr>\<rparr>)"
  using assms
  by (cases e) (simp_all add: Ipfs_remove_pin_def with_only_unique_def with_existing_blocks_def IpldRefs_default_def
      Repo_remove_recursive_pin_def with_pins_def)

lemma pin_unpin_gap:
  fixes api :: "('cid, char) pin_api"
  assumes laws: "pin_laws api" and ok: "pins_ok api g" and un: "pins_abs api g cid = unpinned"
    and es: "distinct es" "length es \<le> i32_max" "cid \<notin> set es" "c \<in> set es"
  shows "\<exists>g1 g2 g3. pin_step api (InsertRecursive cid (map Inr es)) g = (None, g1) \<and>
    pin_step api (RemoveRecursive cid [Inl ()]) g1 = (Some RefsError, g2) \<and>
    pin_step api (RemoveRecursive cid [Inl ()]) g2 = (Some NotPinnedOrIndirect, g3) \<and>
    \<not> is_pinned api cid g2 \<and> is_pinned api c g2 \<and> is_pinned api c g3"
proof -
  let ?rem = "RemoveRecursive cid [Inl ()]" and ?cl = "\<lambda>_. set es"
  obtain e1 g1 where 1: "pin_step api (InsertRecursive cid (map Inr es)) g = (e1, g1)" by (meson surj_pair)
  obtain e2 g2 where 2: "pin_step api ?rem g1 = (e2, g2)" by (meson surj_pair)
  obtain e3 g3 where 3: "pin_step api ?rem g2 = (e3, g3)" by (meson surj_pair)
  note s1 = pin_step_refines [OF laws ok 1]
  note s2 = pin_step_refines [OF laws conjunct2 [OF s1] 2]
  note s3 = pin_step_refines [OF laws conjunct2 [OF s2] 3]
  have "s_recursive (pins_abs api g cid) = Rec_Not" unfolding un by (simp add: unpinned_def)
  from spec_migrate_recursive [where f = "pins_abs api g" and c = cid and cl = ?cl and api = api, OF this es(1,2)] s1
  have a1: "e1 = None" "pins_abs api g1 = merge_pins api ?cl {cid} {} (pins_abs api g)" by simp_all
  note st = spec_unpin_stops [where cl = ?cl and api = api, OF un es(3) a1(2)]
  have a2: "e2 = Some RefsError" "pins_abs api g2 = (pins_abs api g1)(cid := unpinned)" using s2 st(1) by simp_all
  have a3: "e3 = Some NotPinnedOrIndirect" "pins_abs api g3 = (pins_abs api g1)(cid := unpinned)" using s3 st(2) a2(2) by simp_all
  have "\<not> is_pinned api cid g2" "is_pinned api c g2" "is_pinned api c g3"
    unfolding is_pinned_abs [OF laws conjunct2 [OF s2]] is_pinned_abs [OF laws conjunct2 [OF s3]] a2(2) a3(2)
    using st(3) [OF es(4)] by simp_all
  then show ?thesis using 1 2 3 a1(1) a2(1) a3(1) by blast
qed

lemma unpin_over_gap:
  assumes laws: "pin_laws api" and inv: "pins_inv api r" and off: "\<not> online r"
    and b: "get_block_now cid r = Some b" "block_decode ia b = Some ipld" "ipld_links ia cid ipld = Inr ((n, m) # ls)"
    and gap: "get_block_now m r = None"
    and rd: "\<forall>c\<in>pin_closure ia cid ipld r. get_block_now c r = None \<or> (\<exists>i. readable ia r c i)"
    and cl: "card (pin_closure ia cid ipld r) \<le> i32_max" "cid \<notin> pin_closure ia cid ipld r"
    and fresh: "\<not> Repo_is_pinned api cid r"
    and c: "c \<in> pin_closure ia cid ipld r" "get_block_now c r \<noteq> None"
  shows "\<exists>r1 r2 r3. Repo_insert_pin api ia ch cid True l r = Some (PinDone None, r1) \<and>
    Ipfs_remove_pin api ia cid True r1 = Some (PinDone (Some (PinError RefsError)), r2) \<and>
    \<not> Repo_is_pinned api cid r2 \<and> Repo_is_pinned api c r2 \<and>
    Ipfs_remove_pin api ia cid True r2 = Some (PinDone (Some (PinError NotPinnedOrIndirect)), r3) \<and> Repo_is_pinned api c r3"
proof -
  let ?g = "md_pin (data_store r)" and ?P = "\<lambda>g. r\<lparr>data_store := (data_store r)\<lparr>md_pin := g\<rparr>\<rparr>"
  let ?C = "pin_closure ia cid ipld r"
  have "readable ia r cid ipld" using b by (simp add: readable_def)
  from partial_walk [OF this off cl(1) rd] obtain items where
    it: "refs_of_resolved ia (load_block r) (once True) [(cid, ipld)] = Some (items, Finished)" "destinations items = map Inr (edges items)"
      "distinct (edges items)" "set (edges items) = {c \<in> ?C. get_block_now c r \<noteq> None}"
    by blast
  have ok: "pins_ok api ?g" using inv by (simp add: pins_inv_def)
  have un: "pins_abs api ?g cid = unpinned" using fresh is_pinned_abs [OF laws ok, of cid] by (simp add: Repo_is_pinned_def)
  have "finite ?C" unfolding pin_closure_def root_links_def by (rule finite_reach [OF finite_load(1)])
  then have "card (set (edges items)) \<le> card ?C" unfolding it(4) by (intro card_mono) auto
  then have "length (edges items) \<le> i32_max" using cl(1) distinct_card [OF it(3)] by simp
  moreover have "cid \<notin> set (edges items)" "c \<in> set (edges items)" using it(4) cl(2) c by auto
  ultimately obtain g1 g2 g3 where g: "pin_step api (InsertRecursive cid (destinations items)) ?g = (None, g1)"
      "pin_step api (RemoveRecursive cid [Inl ()]) g1 = (Some RefsError, g2)"
      "pin_step api (RemoveRecursive cid [Inl ()]) g2 = (Some NotPinnedOrIndirect, g3)"
      "\<not> is_pinned api cid g2" "is_pinned api c g2" "is_pinned api c g3"
    using pin_unpin_gap [OF laws ok un it(3)] it(2) by metis
  have b': "get_block_now cid (?P g) = Some b" for g using b(1) by (simp add: get_block_now_def)
  have w: "refs_of_resolved ia (load_block_now (?P g)) (once False) [(cid, ipld)] = Some ([Inl (BlockNotFound m)], Finished)" for g
    using gap by (intro walk_stops_at_gap [OF b(3)]) (simp add: get_block_now_def)
  have d: "destinations [Inl (BlockNotFound m)] = [Inl ()]" by (simp add: destinations_def)
  have "Repo_insert_pin api ia ch cid True l r = Some (PinDone None, ?P g1)"
    using insert_pin_walk [OF b it(1) g(1)] by simp
  moreover have "Ipfs_remove_pin api ia cid True (?P g1) = Some (PinDone (Some (PinError RefsError)), ?P g2)"
    using remove_pin_walk [OF b' b(2,3) w, of api g1 "Some RefsError" g2] g(2) d by simp
  moreover have "Ipfs_remove_pin api ia cid True (?P g2) = Some (PinDone (Some (PinError NotPinnedOrIndirect)), ?P g3)"
    using remove_pin_walk [OF b' b(2,3) w, of api g2 "Some NotPinnedOrIndirect" g3] g(3) d by simp
  ultimately show ?thesis using g(4-6)
    by (intro exI [of _ "?P g1"] exI [of _ "?P g2"] exI [of _ "?P g3"]) (simp add: Repo_is_pinned_def)
qed

text \<open>A repository with one block that is pinned directly and through another.\<close>

lemma enc_nat_inj [simp]: "enc_nat m = enc_nat n \<longleftrightarrow> m = n"
  by (metis append_Nil2 dec_enc_nat fst_conv option.inject)

lemma unary_api_simps [simp]:
  "pin_to_bytes unary_pins = enc_nat" "doc_from_slice unary_pins = dec_doc" "doc_to_vec unary_pins = enc_doc"
  "pin_is_v1 unary_pins c" "pin_try_from unary_pins (enc_nat c) = Some c"
  using dec_enc_nat [of c "[]"] by (simp_all add: unary_pins_def)

abbreviation doc_of :: "bool \<Rightarrow> Recursive \<Rightarrow> string list \<Rightarrow> PinDocument" where
  "doc_of d r is \<equiv> \<lparr>pd_version = 0, pd_direct = d, pd_recursive = r, pd_cid_version = Suc 0, indirect_by = is\<rparr>"

lemmas pin_eval = insert_recursive_pin_def insert_direct_pin_def insert_pin_def finish_def new_document_def
  PinDocument_update_def update_direct_def update_indirect_def update_intention_def update_recursive_def Recursive_is_set_def
  Let_def dec_enc_doc

lemma both_pins:
  "insert_direct_pin unary_pins 2 [] = (None, [(enc_nat 2, enc_doc (doc_of True Rec_Not []))])"
  "insert_recursive_pin unary_pins 0 [Inr 2] [(enc_nat 2, enc_doc (doc_of True Rec_Not []))] =
     (None, [(enc_nat 2, enc_doc (doc_of True Rec_Not [enc_nat 0])), (enc_nat 0, enc_doc (doc_of False (Rec_Count (Suc 0)) []))])"
  "insert_recursive_pin unary_pins 0 [Inr 2] [] =
     (None, [(enc_nat 0, enc_doc (doc_of False (Rec_Count (Suc 0)) [])), (enc_nat 2, enc_doc (doc_of False Rec_Not [enc_nat 0]))])"
  by (simp_all add: pin_eval)

definition both_ops :: "(nat, nat, nat list) repo_op list" where
  "both_ops = [PutBlock (number_block 0 [2]), PutBlock (number_block 2 []), InsertPin 0 2 False True, InsertPin 0 0 True True]"

definition both_with :: "char pins \<Rightarrow> (nat, nat, nat list) Repo" where
  "both_with g = \<lparr>online = False, initialized = False, block_store = [(0, number_block 0 [2]), (2, number_block 2 [])],
     data_store = \<lparr>md_inner = [], md_pin = g\<rparr>, events = None, subscriptions = []\<rparr>"

lemma both_get: "get_block_now c (both_with g) =
    (if c = 0 then Some (number_block 0 [2]) else if c = 2 then Some (number_block 2 []) else None)"
  by (simp add: both_with_def get_block_now_def bs_get_def)

lemma both_walk:
  "refs_of_resolved number_ipld (load_block (both_with g)) (with_only_unique IpldRefs_default) [(0, Ipld_List (map Ipld_Link [2]))] =
     Some ([Inr \<lparr>source = 0, destination = 2, link_name = None\<rparr>], Finished)"
  unfolding refs_of_resolved_def iplds_refs_inner_def
  by (simp add: with_only_unique_def IpldRefs_default_def rbind_def refs_loop_unfold load_block_def both_get number_block_def
      Let_def number_links [of _ "[2]", simplified] number_links [of _ "[]", simplified])

definition both_pins_list :: "char pins" where
  "both_pins_list = [(enc_nat 2, enc_doc (doc_of True Rec_Not [enc_nat 0])), (enc_nat 0, enc_doc (doc_of False (Rec_Count (Suc 0)) []))]"

lemma both_run: "fold (repo_step unary_pins number_ipld sample_names) both_ops Repo_new_memory = both_with both_pins_list"
proof -
  have 1: "fold (repo_step unary_pins number_ipld sample_names) (take 2 both_ops) Repo_new_memory = both_with []"
    by (simp add: both_ops_def both_with_def Repo_new_memory_def put_block_def bs_put_def number_block_def MemDataStore_new_def)
  have 2: "repo_step unary_pins number_ipld sample_names (InsertPin 0 2 False True) (both_with []) =
      both_with [(enc_nat 2, enc_doc (doc_of True Rec_Not []))]"
    by (simp add: Repo_insert_pin_def Repo_get_block_def get_block_with_session_def both_get pin_block_def
        Repo_insert_direct_pin_def with_pins_def)
      (simp add: both_with_def both_pins(1))
  have 3: "repo_step unary_pins number_ipld sample_names (InsertPin 0 0 True True)
      (both_with [(enc_nat 2, enc_doc (doc_of True Rec_Not []))]) = both_with both_pins_list"
    using both_walk number_links [of 0 "[2]"]
    by (simp add: Repo_insert_pin_def Repo_get_block_def get_block_with_session_def both_get pin_block_def number_block_def
        Repo_insert_recursive_pin_def with_pins_def destinations_def)
      (simp add: both_with_def both_pins(2) both_pins_list_def)
  show ?thesis using 1 2 3 by (simp add: both_ops_def)
qed

text \<open>
  A direct pin of a block that is also pinned through another is lost by a migration: the block is listed as pinned
  indirectly, and such pins are skipped.
\<close>

theorem migration_loses_direct_pin:
  "\<exists>r. migrate unary_pins number_ipld (fold (repo_step unary_pins number_ipld sample_names) both_ops Repo_new_memory)
         Repo_new_memory = Some (PinDone None, r) \<and>
     s_direct (pins_abs unary_pins (md_pin (data_store
       (fold (repo_step unary_pins number_ipld sample_names) both_ops Repo_new_memory))) 2) \<and>
     \<not> s_direct (pins_abs unary_pins (md_pin (data_store r)) 2)"
proof -
  have l: "pin_list unary_pins None both_pins_list = [Inr (2, Mode_Indirect), Inr (0, Mode_Recursive)]"
    by (simp add: pin_list_def pin_list_one_def both_pins_list_def dec_enc_doc PinDocument_mode_def Recursive_is_set_def
        requirement_matches_def)
  let ?g = "[(enc_nat 0, enc_doc (doc_of False (Rec_Count (Suc 0)) [])), (enc_nat 2, enc_doc (doc_of False Rec_Not [enc_nat 0]))]"
  have "migrate_recursive_pin unary_pins number_ipld (both_with both_pins_list) 0 [] = Some (None, ?g)"
    using both_walk number_links [of 0 "[2]"] both_pins(3)
    by (simp add: migrate_recursive_pin_def both_get number_block_def destinations_def pin_panic_def)
  then have "migrate_pins unary_pins number_ipld (both_with both_pins_list) (pin_list unary_pins None both_pins_list) [] = Some (None, ?g)"
    unfolding l by simp
  then have "\<exists>r. migrate unary_pins number_ipld (both_with both_pins_list) Repo_new_memory = Some (PinDone None, r) \<and>
      md_pin (data_store r) = ?g"
    by (simp add: migrate_def is_online_def both_with_def Repo_new_memory_def MemDataStore_new_def)
  moreover have "s_direct (pins_abs unary_pins both_pins_list 2)" "\<not> s_direct (pins_abs unary_pins ?g 2)"
    by (simp_all add: pins_abs_def both_pins_list_def dec_enc_doc doc_state_def)
  ultimately show ?thesis unfolding both_run by (auto simp: both_with_def)
qed

lemma both_closure: "doc_closure number_ipld (both_with g) 0 = {2}"
proof -
  have r: "root_links number_ipld 0 (Ipld_List [Ipld_Link 2]) = {2}"
    using number_links [of 0 "[2]"] by (simp add: root_links_def)
  have "succs number_ipld (load_block (both_with g)) 2 = {}"
    using number_links [of 2 "[]"] by (simp add: succs_def decoded_def load_block_def both_get number_block_def)
  then have s: "succs number_ipld (load_block (both_with g)) c = {}" if "c = 2" for c using that by simp
  have "c = 2" if "refs_reach number_ipld (load_block (both_with g)) {2} c" for c
    using that by induction (use s in blast)+
  then have "pin_closure number_ipld 0 (Ipld_List [Ipld_Link 2]) (both_with g) = {2}"
    unfolding pin_closure_def r by (auto intro: reach_start)
  then show ?thesis by (simp add: doc_closure_def both_get number_block_def)
qed

lemma both_complete: "pin_complete number_ipld (both_with g) 0"
proof -
  have "\<exists>i. readable number_ipld (both_with g) c i" if "c \<in> {0, 2}" for c
    using that number_links [of 0 "[2]"] number_links [of 2 "[]"] by (auto simp: readable_def both_get number_block_def)
  then show ?thesis by (simp add: pin_complete_def both_closure)
qed

lemma both_modes: "spec_mode (pins_abs unary_pins both_pins_list c) =
    (if c = 0 then Some Mode_Recursive else if c = 2 then Some Mode_Indirect else None)"
  by (simp add: pins_abs_def both_pins_list_def dec_enc_doc doc_state_def spec_mode_def unpinned_def)

section \<open>Properties\<close>

text \<open>C2: A recursive pin keeps what it pins: if pinning a cid recursively succeeds, then whatever is stored, fetched,
  removed, cleaned up or pinned afterwards, as long as no pin is removed, the block of the cid and every stored
  block that can be reached from it stay in the repository, unchanged and pinned.\<close>

theorem pinned_dag_survives:
  assumes "get_block_now cid r = Some b" "block_decode ia b = Some ipld"
    and "Repo_insert_pin api ia ch cid True local_only r = Some (PinDone None, r')"
    and "list_all (\<lambda>x. \<not> removes_pin x) xs"
    and "c = cid \<or> refs_reach ia (load_block r) (root_links ia cid ipld) c"
    and "get_block_now c r = Some b'"
  shows "get_block_now c (fold (repo_step api ia names) xs r') = Some b' \<and>
    Repo_is_pinned api c (fold (repo_step api ia names) xs r')"
proof -
  have "kept api c b' r'" using recursive_pin_pins [OF assms(1-3)] assms(1,5,6) by auto
  from kept_run [OF this assms(4)] show ?thesis by (simp add: kept_def)
qed

theorem pinned_dag_survives_witness:
  "\<exists>r'. Repo_insert_pin unary_pins number_ipld 0 0 True True full_repo = Some (PinDone None, r') \<and>
     get_block_now 2 (fold (repo_step unary_pins number_ipld sample_names) [Cleanup, RemoveBlock 2] r') = Some (number_block 2 [])"
proof -
  have "\<exists>r1 r2. Repo_insert_pin unary_pins number_ipld 0 0 True True full_repo = Some (PinDone None, r1) \<and>
      Ipfs_remove_pin unary_pins number_ipld 0 True r1 = Some (PinDone None, r2) \<and>
      pins_abs unary_pins (md_pin (data_store r2)) = pins_abs unary_pins (md_pin (data_store full_repo)) \<and>
      block_store r2 = block_store full_repo"
    by (rule pin_unpin [OF unary_pins_laws full_hyps(6,1) full_readable(2) full_hyps(2-4)])
      (simp_all add: full_hyps(5) unpinned_sel)
  then obtain r1 where r1: "Repo_insert_pin unary_pins number_ipld 0 0 True True full_repo = Some (PinDone None, r1)" by blast
  have "refs_reach number_ipld (load_block full_repo) (root_links number_ipld 0 full_root) 2"
    using full_closure unfolding pin_closure_def by blast
  with pinned_dag_survives [OF _ _ r1, of "number_block 0 [1, 2]" full_root "[Cleanup, RemoveBlock 2]" 2 "number_block 2 []" sample_names]
  have "get_block_now 2 (fold (repo_step unary_pins number_ipld sample_names) [Cleanup, RemoveBlock 2] r1) = Some (number_block 2 [])"
    by (simp add: full_get number_block_def removes_pin_def)
  with r1 show ?thesis by blast
qed

text \<open>C16: Removing a recursive pin undoes inserting it. In an offline repository in which every document a cid leads to is
  stored and readable, a cid that does not lead to itself, that is not pinned directly or recursively and through which
  none of these documents is pinned can be pinned recursively; removing the pin then succeeds, leaves every cid pinned as
  before and loses no block.\<close>

theorem pin_unpin_round_trip:
  assumes "pin_laws api" and "r = fold (repo_step api ia names) xs Repo_new_memory" and "\<not> online r"
    and "readable ia r cid ipld" and "\<forall>c\<in>pin_closure ia cid ipld r. \<exists>i. readable ia r c i"
    and "card (pin_closure ia cid ipld r) \<le> i32_max" and "cid \<notin> pin_closure ia cid ipld r"
    and "s_recursive (pins_abs api (md_pin (data_store r)) cid) = Rec_Not"
    and "\<not> s_direct (pins_abs api (md_pin (data_store r)) cid)"
    and "\<forall>c\<in>pin_closure ia cid ipld r.
           pin_to_string api (to_v1 api (to_v1 api cid)) \<notin> s_indirect (pins_abs api (md_pin (data_store r)) c)"
  shows "\<exists>r1 r2. Repo_insert_pin api ia ch cid True l r = Some (PinDone None, r1) \<and>
    Ipfs_remove_pin api ia cid True r1 = Some (PinDone None, r2) \<and>
    pins_abs api (md_pin (data_store r2)) = pins_abs api (md_pin (data_store r)) \<and> block_store r2 = block_store r"
  by (rule pin_unpin [OF assms(1) pins_inv_run [OF assms(1), of ia names xs, folded assms(2)] assms(3-10)])

theorem pin_unpin_round_trip_witness:
  "\<exists>r1 r2. Repo_insert_pin unary_pins number_ipld 0 0 True True full_repo = Some (PinDone None, r1) \<and>
     Ipfs_remove_pin unary_pins number_ipld 0 True r1 = Some (PinDone None, r2) \<and>
     pins_abs unary_pins (md_pin (data_store r2)) = (\<lambda>_. unpinned) \<and> block_store r2 = block_store full_repo"
proof -
  have "\<exists>r1 r2. Repo_insert_pin unary_pins number_ipld 0 0 True True full_repo = Some (PinDone None, r1) \<and>
      Ipfs_remove_pin unary_pins number_ipld 0 True r1 = Some (PinDone None, r2) \<and>
      pins_abs unary_pins (md_pin (data_store r2)) = pins_abs unary_pins (md_pin (data_store full_repo)) \<and>
      block_store r2 = block_store full_repo"
    by (rule pin_unpin_round_trip [OF unary_pins_laws full_repo_def full_hyps(1) full_readable(2) full_hyps(2-4)])
      (simp_all add: full_hyps(5) unpinned_sel)
  then show ?thesis unfolding full_hyps(5) .
qed

text \<open>C39: Migrating a repository that is online, or to one that is online, is refused. Between offline repositories, if
  everything the recursive pins of the source lead to is stored and readable, and no cid that the source lists as pinned
  directly or recursively is pinned recursively in the target, the migration succeeds without a panic. The target then
  has every block of the source and keeps its own. It has every entry of the source, which replaces an entry of the
  target under the same key, and keeps its entries under other keys. Its pins are exactly its own and those that the source
  lists: the recursive ones with all they lead to, and the direct ones, but not the direct pin of a cid that the source
  lists as pinned indirectly.\<close>

theorem migrate_correct:
  assumes "pin_laws api"
    and "this = fold (repo_step api ia names) xs Repo_new_memory" and "external = fold (repo_step api ia names) ys Repo_new_memory"
    and "mode = (\<lambda>c. spec_mode (pins_abs api (md_pin (data_store this)) c))"
  shows "(online this \<or> online external \<longrightarrow> migrate api ia this external = Some (PinDone (Some RepositoryOnline), external)) \<and>
    (\<not> online this \<and> \<not> online external \<and> (\<forall>c. mode c = Some Mode_Recursive \<longrightarrow> pin_complete ia this c) \<and>
     (\<forall>c. mode c = Some Mode_Recursive \<or> mode c = Some Mode_Direct \<longrightarrow>
        s_recursive (pins_abs api (md_pin (data_store external)) c) = Rec_Not) \<longrightarrow>
      (\<exists>r. migrate api ia this external = Some (PinDone None, r) \<and>
        (\<forall>c. get_block_now c r = (case get_block_now c external of Some b \<Rightarrow> Some b | None \<Rightarrow> get_block_now c this)) \<and>
        (\<forall>k. data_get k (data_store r) =
          (case data_get k (data_store this) of Some v \<Rightarrow> Some v | None \<Rightarrow> data_get k (data_store external))) \<and>
        pins_abs api (md_pin (data_store r)) =
          merge_pins api (doc_closure ia this) {c. mode c = Some Mode_Recursive} {c. mode c = Some Mode_Direct}
            (pins_abs api (md_pin (data_store external)))))"
proof (intro conjI impI)
  assume "online this \<or> online external"
  then show "migrate api ia this external = Some (PinDone (Some RepositoryOnline), external)" by (auto simp: migrate_def is_online_def)
next
  let ?e = "md_pin (data_store external)"
  assume off: "\<not> online this \<and> \<not> online external \<and> (\<forall>c. mode c = Some Mode_Recursive \<longrightarrow> pin_complete ia this c) \<and>
     (\<forall>c. mode c = Some Mode_Recursive \<or> mode c = Some Mode_Direct \<longrightarrow> s_recursive (pins_abs api ?e c) = Rec_Not)"
  have ok: "pins_ok api (md_pin (data_store this))" "pins_ok api ?e"
    using pins_inv_run [OF assms(1)] assms(2,3) by (simp_all add: pins_inv_def)
  obtain qs where qs: "pin_list api None (md_pin (data_store this)) = map Inr qs" "distinct (map fst qs)"
      "\<And>c m. (c, m) \<in> set qs \<longleftrightarrow> mode c = Some m"
    using pin_list_pairs [OF assms(1) ok(1)] assms(4) by blast
  have mig: "\<forall>c. (c, Mode_Recursive) \<in> set qs \<longrightarrow> pin_complete ia this c"
      "\<forall>c\<in>fst ` {q \<in> set qs. snd q \<noteq> Mode_Indirect}. s_recursive (pins_abs api ?e c) = Rec_Not"
    unfolding migrated_modes [of qs mode, OF qs(3)] qs(3) using off by simp_all
  obtain g where g: "migrate_pins api ia this (map Inr qs) ?e = Some (None, g)"
      "pins_abs api g = merge_pins api (doc_closure ia this) {c. (c, Mode_Recursive) \<in> set qs} {c. (c, Mode_Direct) \<in> set qs} (pins_abs api ?e)"
    using migrate_pins_spec [OF assms(1) ok(2) qs(2) mig] by (elim exE conjE)
  have "\<exists>r. migrate api ia this external = Some (PinDone None, r) \<and> md_pin (data_store r) = g \<and>
      block_store r = migrate_blocks (block_store this) (list_blocks this) (block_store external) \<and>
      data_store r = (migrate_data (data_iter (data_store this)) (data_store external))\<lparr>md_pin := g\<rparr>"
    using off g(1) qs(1) by (simp add: migrate_def is_online_def)
  then obtain r where r: "migrate api ia this external = Some (PinDone None, r)" "md_pin (data_store r) = g"
      "block_store r = migrate_blocks (block_store this) (list_blocks this) (block_store external)"
      "data_store r = (migrate_data (data_iter (data_store this)) (data_store external))\<lparr>md_pin := g\<rparr>"
    by (elim exE conjE)
  have "repo_inv this" unfolding assms(2) by (rule repo.reachable_inv) simp
  note b = migrated_blocks [OF this r(3)]
  have d: "distinct (map fst (data_iter (data_store this)))" unfolding assms(2) by (rule entries_distinct_run)
  show "\<exists>r. migrate api ia this external = Some (PinDone None, r) \<and>
        (\<forall>c. get_block_now c r = (case get_block_now c external of Some b \<Rightarrow> Some b | None \<Rightarrow> get_block_now c this)) \<and>
        (\<forall>k. data_get k (data_store r) =
          (case data_get k (data_store this) of Some v \<Rightarrow> Some v | None \<Rightarrow> data_get k (data_store external))) \<and>
        pins_abs api (md_pin (data_store r)) =
          merge_pins api (doc_closure ia this) {c. mode c = Some Mode_Recursive} {c. mode c = Some Mode_Direct} (pins_abs api ?e)"
    using r(1) b migrated_entries [OF d r(4)] g(2) [unfolded qs(3), folded r(2)] by (intro exI [of _ r] conjI allI)
qed

theorem migrate_correct_witness:
  "\<exists>r. migrate unary_pins number_ipld (fold (repo_step unary_pins number_ipld sample_names) both_ops Repo_new_memory)
         Repo_new_memory = Some (PinDone None, r) \<and>
     get_block_now 2 r = Some (number_block 2 []) \<and>
     s_recursive (pins_abs unary_pins (md_pin (data_store r)) 0) = Rec_Count 1 \<and>
     s_indirect (pins_abs unary_pins (md_pin (data_store r)) 2) = {enc_nat 0}"
proof -
  let ?src = "both_with both_pins_list" and ?new = "Repo_new_memory :: (nat, nat, nat list) Repo"
  let ?mode = "\<lambda>c. spec_mode (pins_abs unary_pins (md_pin (data_store ?src)) c)"
  have new: "pins_abs unary_pins (md_pin (data_store ?new)) = (\<lambda>_. unpinned)" "get_block_now c ?new = None" for c
    by (simp_all add: Repo_new_memory_def MemDataStore_new_def pins_empty(2) get_block_now_def bs_get_def)
  have "md_pin (data_store ?src) = both_pins_list" by (simp add: both_with_def)
  then have m: "?mode c = (if c = 0 then Some Mode_Recursive else if c = 2 then Some Mode_Indirect else None)" for c
    using both_modes by simp
  have nw: "?new = fold (repo_step unary_pins number_ipld sample_names) [] ?new" by simp
  have off: "\<not> online ?src" "\<not> online ?new" by (simp_all add: both_with_def Repo_new_memory_def)
  have ho: "\<not> online ?src \<and> \<not> online ?new \<and> (\<forall>c. ?mode c = Some Mode_Recursive \<longrightarrow> pin_complete number_ipld ?src c) \<and>
     (\<forall>c. ?mode c = Some Mode_Recursive \<or> ?mode c = Some Mode_Direct \<longrightarrow>
        s_recursive (pins_abs unary_pins (md_pin (data_store ?new)) c) = Rec_Not)"
    using off unfolding m new by (simp add: both_complete unpinned_def)
  obtain r where r: "migrate unary_pins number_ipld ?src ?new = Some (PinDone None, r)"
    "\<forall>c. get_block_now c r = (case get_block_now c ?new of Some b \<Rightarrow> Some b | None \<Rightarrow> get_block_now c ?src)"
    "pins_abs unary_pins (md_pin (data_store r)) = merge_pins unary_pins (doc_closure number_ipld ?src)
       {c. ?mode c = Some Mode_Recursive} {c. ?mode c = Some Mode_Direct} (pins_abs unary_pins (md_pin (data_store ?new)))"
    using mp [OF conjunct2 [OF migrate_correct [OF unary_pins_laws both_run [symmetric] nw refl]] ho] by (elim exE conjE)
  have R: "{c. ?mode c = Some Mode_Recursive} = {0}" unfolding m by auto
  have "get_block_now 2 r = Some (number_block 2 [])" using r(2) by (simp add: new both_get)
  moreover have "s_recursive (pins_abs unary_pins (md_pin (data_store r)) 0) = Rec_Count 1"
    "s_indirect (pins_abs unary_pins (md_pin (data_store r)) 2) = {enc_nat 0}"
    unfolding r(3) R new by (simp_all add: merge_pins_def both_closure unpinned_def)
  ultimately show ?thesis unfolding both_run using r(1) by blast
qed

text \<open>C40: Removing a recursive pin stops at the first block that is missing, although inserting it skips such blocks. Let the
  root of a pin be stored in an offline repository, and let its first link lead to a block that is not stored, while
  every stored block it leads to can be read and it does not lead to itself. If it was not pinned, it can be pinned
  recursively; but removing the pin fails, and afterwards the root is no longer pinned, every stored block it leads to stays
  pinned through it, and another attempt to remove the pin is refused.\<close>

theorem unpin_over_gap_leaks:
  assumes "pin_laws api" and "r = fold (repo_step api ia names) xs Repo_new_memory" and "\<not> online r"
    and "get_block_now cid r = Some b" "block_decode ia b = Some ipld" "ipld_links ia cid ipld = Inr ((n, m) # ls)"
    and "get_block_now m r = None"
    and "\<forall>c\<in>pin_closure ia cid ipld r. get_block_now c r = None \<or> (\<exists>i. readable ia r c i)"
    and "card (pin_closure ia cid ipld r) \<le> i32_max" "cid \<notin> pin_closure ia cid ipld r"
    and "\<not> Repo_is_pinned api cid r"
    and "c \<in> pin_closure ia cid ipld r" "get_block_now c r \<noteq> None"
  shows "\<exists>r1 r2 r3. Repo_insert_pin api ia ch cid True l r = Some (PinDone None, r1) \<and>
    Ipfs_remove_pin api ia cid True r1 = Some (PinDone (Some (PinError RefsError)), r2) \<and>
    \<not> Repo_is_pinned api cid r2 \<and> Repo_is_pinned api c r2 \<and>
    Ipfs_remove_pin api ia cid True r2 = Some (PinDone (Some (PinError NotPinnedOrIndirect)), r3) \<and> Repo_is_pinned api c r3"
  by (rule unpin_over_gap [OF assms(1) pins_inv_run [OF assms(1), of ia names xs, folded assms(2)] assms(3-13)])

theorem unpin_over_gap_leaks_witness:
  "\<exists>r1 r2 r3. Repo_insert_pin unary_pins number_ipld 0 0 True False gap_repo = Some (PinDone None, r1) \<and>
     Ipfs_remove_pin unary_pins number_ipld 0 True r1 = Some (PinDone (Some (PinError RefsError)), r2) \<and>
     \<not> Repo_is_pinned unary_pins 0 r2 \<and> Repo_is_pinned unary_pins 2 r2 \<and>
     Ipfs_remove_pin unary_pins number_ipld 0 True r2 = Some (PinDone (Some (PinError NotPinnedOrIndirect)), r3) \<and>
     Repo_is_pinned unary_pins 2 r3"
proof (rule unpin_over_gap_leaks [OF unary_pins_laws gap_repo_def])
  show "get_block_now 0 gap_repo = Some (number_block 0 [1, 2])" "get_block_now 1 gap_repo = None" "get_block_now 2 gap_repo \<noteq> None"
    by (simp_all add: gap_get)
  show "block_decode number_ipld (number_block 0 [1, 2]) = Some full_root" by (simp add: number_block_def)
  show "ipld_links number_ipld 0 full_root = Inr ((None, 1) # [(None, 2)])" using number_links [of 0 "[1, 2]"] by simp
  show "\<forall>c\<in>pin_closure number_ipld 0 full_root gap_repo. get_block_now c gap_repo = None \<or> (\<exists>i. readable number_ipld gap_repo c i)"
    unfolding gap_closure using number_links [of 2 "[]"] by (auto simp: readable_def gap_get number_block_def)
  show "\<not> online gap_repo" "\<not> Repo_is_pinned unary_pins 0 gap_repo" by (simp_all add: gap_repo_eq Repo_is_pinned_def is_pinned_def)
  show "card (pin_closure number_ipld 0 full_root gap_repo) \<le> i32_max" "0 \<notin> pin_closure number_ipld 0 full_root gap_repo"
    "2 \<in> pin_closure number_ipld 0 full_root gap_repo"
    unfolding gap_closure by simp_all
qed

end
