(* ===== verification/Unixfs_Adder.thy ===== *)
theory Unixfs_Adder
  imports Ipfs_Prelude
begin

text \<open>
  Building UnixFS file trees (\<open>unixfs/src/file/adder.rs\<close>) over the dag-pb and UnixFS messages of
  \<open>unixfs/src/pb.rs\<close>: chunks become leaf blocks, and whenever enough links are pending they are collected
  into link blocks, level by level, until one root is left.

  Writing and parsing the protobuf messages, hashing a block and the bytes of a cid are the record \<open>unixfs_api\<close>;
  \<open>unixfs_laws\<close> states that what is written is parsed back, that a cid is read back from its bytes and
  that different blocks have different hashes. A vector is a list and is changed in place as in the source. The
  loop over levels need not end (it does not for a branching factor of one), so it is a partial function.
\<close>

section \<open>Messages\<close>

datatype UnixFsType = Ufs_Raw | Ufs_Directory | Ufs_File | Ufs_Metadata | Ufs_Symlink | Ufs_HAMTShard

record 'b PBLink =
  Hash :: "'b list option"
  Name :: "string option"
  Tsize :: "nat option"

record 'b UnixFs =
  Type :: UnixFsType
  Data :: "'b list option"
  filesize :: "nat option"
  blocksizes :: "nat list"
  hashType :: "nat option"
  fanout :: "nat option"
  mode :: "nat option"
  mtime :: "(int \<times> nat option) option"

record 'b FlatUnixFs =
  fl_links :: "'b PBLink list"
  fl_data :: "'b UnixFs"

datatype ParsingFailed = InvalidDagPb | NoData | InvalidUnixFs

text \<open>
  What the generated code and the protobuf crate provide: the messages \<open>PBNode\<close> (links and data) and \<open>UnixFs\<close>
  as bytes. Writing a node writes its links and then its data.
\<close>

record ('cid, 'b) unixfs_api =
  pbnode_write :: "'b PBLink list \<Rightarrow> 'b list \<Rightarrow> 'b list"
  pbnode_read :: "'b list \<Rightarrow> ('b PBLink list \<times> 'b list option) option"
  data_write :: "'b UnixFs \<Rightarrow> 'b list"
  data_read :: "'b list \<Rightarrow> 'b UnixFs option"
  hash_block :: "'b list \<Rightarrow> 'cid"
  ucid_to_bytes :: "'cid \<Rightarrow> 'b list"
  ucid_try_from :: "'b list \<Rightarrow> 'cid option"

definition unixfs_laws :: "('cid, 'b) unixfs_api \<Rightarrow> bool" where
  "unixfs_laws api \<longleftrightarrow>
     (\<forall>ls d. pbnode_read api (pbnode_write api ls d) = Some (ls, Some d)) \<and>
     (\<forall>u. data_write api u \<noteq> [] \<and> data_read api (data_write api u) = Some u) \<and>
     (\<forall>c. ucid_try_from api (ucid_to_bytes api c) = Some c)"

definition flat_write :: "('cid, 'b) unixfs_api \<Rightarrow> 'b FlatUnixFs \<Rightarrow> 'b list" where
  "flat_write api f = pbnode_write api (fl_links f) (data_write api (fl_data f))"

definition FlatUnixFs_try_from :: "('cid, 'b) unixfs_api \<Rightarrow> 'b list \<Rightarrow> ParsingFailed + 'b FlatUnixFs" where
  "FlatUnixFs_try_from api bytes =
     (case pbnode_read api bytes of
        None \<Rightarrow> Inl InvalidDagPb
      | Some (links, data) \<Rightarrow>
          (case data of
             Some (b # bs) \<Rightarrow>
               (case data_read api (b # bs) of Some u \<Rightarrow> Inr \<lparr>fl_links = links, fl_data = u\<rparr> | None \<Rightarrow> Inl InvalidUnixFs)
           | _ \<Rightarrow> Inl NoData))"

lemma flat_round_trip:
  assumes "unixfs_laws api"
  shows "FlatUnixFs_try_from api (flat_write api f) = Inr f"
proof -
  have "pbnode_read api (flat_write api f) = Some (fl_links f, Some (data_write api (fl_data f)))"
    "data_write api (fl_data f) \<noteq> []" "data_read api (data_write api (fl_data f)) = Some (fl_data f)"
    using assms by (simp_all add: unixfs_laws_def flat_write_def)
  then show ?thesis by (cases "data_write api (fl_data f)") (simp_all add: FlatUnixFs_try_from_def)
qed

definition UnixFs_default :: "'b UnixFs" where
  "UnixFs_default =
     \<lparr>Type = Ufs_Raw, Data = None, filesize = None, blocksizes = [], hashType = None, fanout = None, mode = None,
      mtime = None\<rparr>"

definition render_and_hash :: "('cid, 'b) unixfs_api \<Rightarrow> 'b FlatUnixFs \<Rightarrow> 'cid \<times> 'b list" where
  "render_and_hash api flat = (let out = flat_write api flat in (hash_block api out, out))"

section \<open>The adder\<close>

record 'cid Link =
  depth :: nat
  target :: 'cid
  total_size :: nat
  file_size :: nat

datatype Chunker = Size nat

definition Chunker_default :: Chunker where
  "Chunker_default = Size (256 * 1024)"

record ('cid, 'b) FileAdder =
  chunker :: Chunker
  branching_factor :: nat
  block_buffer :: "'b list"
  unflushed_links :: "'cid Link list"

definition with_branching_factor :: "nat \<Rightarrow> nat checked" where
  "with_branching_factor bf = (if bf > 0 then Inr bf else Inl AssertFailed)"

definition BalancedCollector_default :: nat where
  "BalancedCollector_default = 174"

definition FileAdder_build :: "Chunker \<Rightarrow> nat \<Rightarrow> ('cid, 'b) FileAdder" where
  "FileAdder_build ch bf = \<lparr>chunker = ch, branching_factor = bf, block_buffer = [], unflushed_links = []\<rparr>"

fun Chunker_size_hint :: "Chunker \<Rightarrow> nat" where
  "Chunker_size_hint (Size mx) = mx"

fun Chunker_accept :: "Chunker \<Rightarrow> 'b list \<Rightarrow> 'b list \<Rightarrow> ('b list \<times> bool) checked" where
  "Chunker_accept (Size mx) input buffered =
     rbind (checked_sub mx (length buffered)) (\<lambda>space.
       let l = min (length input) space in Inr (take l input, length buffered + l \<ge> mx))"

definition leaf_flat :: "'b list \<Rightarrow> 'b FlatUnixFs" where
  "leaf_flat input =
     \<lparr>fl_links = [],
      fl_data = UnixFs_default\<lparr>Type := Ufs_File, Data := (if input \<noteq> [] then Some input else None),
        filesize := Some (length input)\<rparr>\<rparr>"

definition flush_buffered_leaf ::
  "('cid, 'b) unixfs_api \<Rightarrow> 'b list \<Rightarrow> 'cid Link list \<Rightarrow> bool \<Rightarrow> ('cid \<times> 'b list) option \<times> 'cid Link list" where
  "flush_buffered_leaf api input links finishing =
     (if input = [] \<and> (\<not> finishing \<or> links \<noteq> []) then (None, links)
      else let (cid, vec) = render_and_hash api (leaf_flat input)
           in (Some (cid, vec), links @ [\<lparr>depth = 0, target = cid, total_size = length vec, file_size = length input\<rparr>]))"

text \<open>
  \<open>partition_link\<close> over the links of a group: the protobuf links, the block sizes and the two sums. The sums are of
  the type \<open>u64\<close> in the code; they count bytes that have been pushed or written and are natural numbers here.
\<close>

definition partition_link ::
  "('cid, 'b) unixfs_api \<Rightarrow> 'cid Link \<Rightarrow> 'b PBLink list \<times> nat list \<times> nat \<times> nat \<Rightarrow> 'b PBLink list \<times> nat list \<times> nat \<times> nat" where
  "partition_link api l = (\<lambda>(links, sizes, nested, tot).
     (links @ [\<lparr>Hash = Some (ucid_to_bytes api (target l)), Name = Some [], Tsize = Some (total_size l)\<rparr>],
      sizes @ [file_size l], nested + file_size l, tot + total_size l))"

text \<open>The link block of a group and the link to it.\<close>

definition link_block :: "('cid, 'b) unixfs_api \<Rightarrow> nat \<Rightarrow> 'cid Link list \<Rightarrow> ('cid \<times> 'b list) \<times> 'cid Link" where
  "link_block api level grp =
     (let (links, sizes, nested, tot) = fold (partition_link api) grp ([], [], 0, 0);
          (cid, vec) = render_and_hash api
            \<lparr>fl_links = links, fl_data = UnixFs_default\<lparr>Type := Ufs_File, filesize := Some nested, blocksizes := sizes\<rparr>\<rparr>
      in ((cid, vec), \<lparr>depth = level + 1, target = cid, total_size = tot + length vec, file_size = nested\<rparr>))"

fun position :: "('a \<Rightarrow> bool) \<Rightarrow> 'a list \<Rightarrow> nat option" where
  "position P [] = None"
| "position P (x # xs) = (if P x then Some 0 else map_option Suc (position P xs))"

text \<open>
  The inner loop over the links of one level, from the index \<open>start\<close>; the result says whether the outer loop is left, and
  where the last link was overwritten.
\<close>

partial_function (option) flush_level ::
  "('cid, 'b) unixfs_api \<Rightarrow> nat \<Rightarrow> bool \<Rightarrow> nat \<Rightarrow> 'cid Link list \<Rightarrow> nat \<Rightarrow> nat option \<Rightarrow> ('cid \<times> 'b list) list \<Rightarrow>
   (bool \<times> 'cid Link list \<times> nat option \<times> ('cid \<times> 'b list) list) checked option" where
  "flush_level api bf finishing level pending start lo ret =
     (case position (\<lambda>l. depth l = level) (drop start pending) of
        None \<Rightarrow> Some (Inr (False, pending, lo, ret))
      | Some i \<Rightarrow>
          (let first_at = start + i
           in if \<not> finishing \<and> length (drop first_at pending) \<le> bf
              then Some (Inr (True, (case lo of Some k \<Rightarrow> take (k + 1) pending @ drop first_at pending | None \<Rightarrow> pending), lo, ret))
              else let last = min (first_at + bf) (length pending); grp = take (last - first_at) (drop first_at pending)
                   in if \<not> list_all (\<lambda>l. depth l = level) grp then Some (Inl AssertFailed)
                      else let (blk, link) = link_block api level grp;
                               index = (case lo of Some k \<Rightarrow> k + 1 | None \<Rightarrow> first_at)
                           in flush_level api bf finishing level (pending[index := link]) last (Some index) (ret @ [blk])))"

partial_function (option) flush_levels ::
  "('cid, 'b) unixfs_api \<Rightarrow> nat \<Rightarrow> bool \<Rightarrow> nat \<Rightarrow> 'cid Link list \<Rightarrow> ('cid \<times> 'b list) list \<Rightarrow>
   ('cid Link list \<times> ('cid \<times> 'b list) list) checked option" where
  "flush_levels api bf finishing level pending ret =
     (if length pending = 1 \<and> finishing \<or> length pending \<le> bf \<and> \<not> finishing then Some (Inr (pending, ret))
      else case flush_level api bf finishing level pending 0 None ret of
             None \<Rightarrow> None
           | Some (Inl p) \<Rightarrow> Some (Inl p)
           | Some (Inr (brk, pending1, lo, ret1)) \<Rightarrow>
               (if brk then Some (Inr (pending1, ret1))
                else let pending2 = (case lo of Some k \<Rightarrow> take (k + 1) pending1 | None \<Rightarrow> pending1)
                     in if position (\<lambda>l. depth l = level) pending2 \<noteq> None then Some (Inl AssertFailed)
                        else flush_levels api bf finishing (level + 1) pending2 ret1))"

definition flush_links ::
  "('cid, 'b) unixfs_api \<Rightarrow> bool \<Rightarrow> ('cid, 'b) FileAdder \<Rightarrow> (('cid \<times> 'b list) list \<times> ('cid, 'b) FileAdder) checked option" where
  "flush_links api finishing a =
     (case flush_levels api (branching_factor a) finishing 0 (unflushed_links a) [] of
        None \<Rightarrow> None
      | Some (Inl p) \<Rightarrow> Some (Inl p)
      | Some (Inr (pending, ret)) \<Rightarrow> Some (Inr (ret, a\<lparr>unflushed_links := pending\<rparr>)))"

text \<open>A chunk has been completed: its leaf must be produced, and possibly a link block.\<close>

definition push_ready ::
  "('cid, 'b) unixfs_api \<Rightarrow> 'b list \<Rightarrow> nat \<Rightarrow> ('cid, 'b) FileAdder \<Rightarrow>
   (('cid \<times> 'b list) list \<times> nat \<times> ('cid, 'b) FileAdder) checked option" where
  "push_ready api chunk written a =
     (case flush_buffered_leaf api chunk (unflushed_links a) False of
        (None, _) \<Rightarrow> Some (Inl AssertFailed)
      | (Some leaf, links) \<Rightarrow>
          (case flush_links api False (a\<lparr>block_buffer := [], unflushed_links := links\<rparr>) of
             None \<Rightarrow> None
           | Some (Inl p) \<Rightarrow> Some (Inl p)
           | Some (Inr (ret, a')) \<Rightarrow> Some (Inr (leaf # ret, written, a'))))"

definition FileAdder_push ::
  "('cid, 'b) unixfs_api \<Rightarrow> 'b list \<Rightarrow> ('cid, 'b) FileAdder \<Rightarrow>
   (('cid \<times> 'b list) list \<times> nat \<times> ('cid, 'b) FileAdder) checked option" where
  "FileAdder_push api input a =
     (case Chunker_accept (chunker a) input (block_buffer a) of
        Inl p \<Rightarrow> Some (Inl p)
      | Inr (accepted, ready) \<Rightarrow>
          (if block_buffer a = [] \<and> ready then push_ready api accepted (length accepted) a
           else let a1 = a\<lparr>block_buffer := block_buffer a @ accepted\<rparr>
                in if \<not> ready then Some (Inr ([], length accepted, a1))
                   else push_ready api (block_buffer a1) (length accepted) a1))"

definition FileAdder_finish ::
  "('cid, 'b) unixfs_api \<Rightarrow> ('cid, 'b) FileAdder \<Rightarrow> ('cid \<times> 'b list) list checked option" where
  "FileAdder_finish api a =
     (case flush_buffered_leaf api (block_buffer a) (unflushed_links a) True of
        (leaf, links) \<Rightarrow>
          (case flush_links api True (a\<lparr>unflushed_links := links\<rparr>) of
             None \<Rightarrow> None
           | Some (Inl p) \<Rightarrow> Some (Inl p)
           | Some (Inr (ret, _)) \<Rightarrow> Some (Inr ((case leaf of Some l \<Rightarrow> [l] | None \<Rightarrow> []) @ ret))))"

section \<open>The trees behind links\<close>

datatype 'b ftree = Leaf "'b list" | Node "'b ftree list"

fun content :: "'b ftree \<Rightarrow> 'b list" where
  "content (Leaf bs) = bs"
| "content (Node ts) = concat (map content ts)"

abbreviation contents :: "'b ftree list \<Rightarrow> 'b list" where
  "contents ts \<equiv> concat (map content ts)"

definition pb_link :: "('cid, 'b) unixfs_api \<Rightarrow> 'cid Link \<Rightarrow> 'b PBLink" where
  "pb_link api l = \<lparr>Hash = Some (ucid_to_bytes api (target l)), Name = Some [], Tsize = Some (total_size l)\<rparr>"

definition node_flat :: "('cid, 'b) unixfs_api \<Rightarrow> 'cid Link list \<Rightarrow> 'b FlatUnixFs" where
  "node_flat api ls =
     \<lparr>fl_links = map (pb_link api) ls,
      fl_data = UnixFs_default\<lparr>Type := Ufs_File, filesize := Some (sum_list (map file_size ls)), blocksizes := map file_size ls\<rparr>\<rparr>"

text \<open>A link leads to a tree if the blocks of the tree are among the given blocks.\<close>

inductive stored :: "('cid, 'b) unixfs_api \<Rightarrow> ('cid \<times> 'b list) set \<Rightarrow> 'cid Link \<Rightarrow> 'b ftree \<Rightarrow> bool" for api E where
  stored_leaf: "(target l, flat_write api (leaf_flat bs)) \<in> E \<Longrightarrow> file_size l = length bs \<Longrightarrow> stored api E l (Leaf bs)"
| stored_node: "list_all2 (stored api E) ls ts \<Longrightarrow> ls \<noteq> [] \<Longrightarrow> (target l, flat_write api (node_flat api ls)) \<in> E \<Longrightarrow>
    file_size l = sum_list (map file_size ls) \<Longrightarrow> stored api E l (Node ts)"
  monos list.rel_mono

lemma list_all2_file_size:
  "list_all2 (\<lambda>l t. file_size l = length (content t)) ls ts \<Longrightarrow> sum_list (map file_size ls) = length (contents ts)"
  by (induction rule: list_all2_induct) simp_all

lemma stored_file_size: "stored api E l t \<Longrightarrow> file_size l = length (content t)"
proof (induction rule: stored.induct)
  case (stored_node ls ts l)
  have "list_all2 (\<lambda>l t. file_size l = length (content t)) ls ts"
    using stored_node(1) by (rule list_all2_mono) simp
  then show ?case using stored_node(4) list_all2_file_size by simp
qed simp

lemma stored_mono: "stored api E l t \<Longrightarrow> E \<subseteq> E' \<Longrightarrow> stored api E' l t"
proof (induction rule: stored.induct)
  case (stored_node ls ts l)
  have "list_all2 (stored api E') ls ts" using stored_node(1) stored_node.prems by (auto elim: list_all2_mono)
  then show ?case using stored_node by (intro stored.stored_node) auto
qed (auto intro: stored_leaf)

lemma stored_list_mono: "list_all2 (stored api E) ls ts \<Longrightarrow> E \<subseteq> E' \<Longrightarrow> list_all2 (stored api E') ls ts"
  by (erule list_all2_mono) (rule stored_mono)

definition hashed :: "('cid, 'b) unixfs_api \<Rightarrow> ('cid \<times> 'b list) list \<Rightarrow> bool" where
  "hashed api blks \<longleftrightarrow> list_all (\<lambda>(c, v). c = hash_block api v) blks"

lemma hashed_simps [simp]:
  "hashed api []" "hashed api (b # bs) \<longleftrightarrow> fst b = hash_block api (snd b) \<and> hashed api bs"
  "hashed api (xs @ ys) \<longleftrightarrow> hashed api xs \<and> hashed api ys"
  by (auto simp: hashed_def)

lemma fold_partition:
  "fold (partition_link api) ls (links, sizes, nested, tot) =
     (links @ map (pb_link api) ls, sizes @ map file_size ls, nested + sum_list (map file_size ls),
      tot + sum_list (map total_size ls))"
  by (induction ls arbitrary: links sizes nested tot) (simp_all add: partition_link_def pb_link_def)

lemma link_block_stored:
  assumes "link_block api level ls = (blk, l)" "list_all2 (stored api E) ls ts" "ls \<noteq> []"
  shows "stored api (insert blk E) l (Node ts)" "depth l = level + 1" "fst blk = target l" "fst blk = hash_block api (snd blk)"
proof -
  have b: "blk = (hash_block api (flat_write api (node_flat api ls)), flat_write api (node_flat api ls))"
    "target l = fst blk" "file_size l = sum_list (map file_size ls)" "depth l = level + 1"
    using assms(1) by (auto simp: link_block_def fold_partition render_and_hash_def node_flat_def Let_def)
  show "stored api (insert blk E) l (Node ts)"
    using b assms(3) stored_list_mono [OF assms(2), of "insert blk E"] by (intro stored_node [of _ _ ls]) auto
  show "depth l = level + 1" "fst blk = target l" "fst blk = hash_block api (snd blk)" using b by simp_all
qed

section \<open>One level\<close>

lemma position_hd: "xs \<noteq> [] \<Longrightarrow> P (hd xs) \<Longrightarrow> position P xs = Some 0"
  by (cases xs) simp_all

lemma position_append: "list_all (\<lambda>x. \<not> P x) xs \<Longrightarrow> position P (xs @ ys) = map_option ((+) (length xs)) (position P ys)"
  by (induction xs) (cases "position P ys"; simp)+

lemma position_None: "position P xs = None \<longleftrightarrow> list_all (\<lambda>x. \<not> P x) xs"
  by (induction xs) simp_all

text \<open>
  The effect of collecting the links \<open>rest\<close> of one level: new links one level up, and a remainder if more links are to come.
\<close>

definition collected ::
  "('cid, 'b) unixfs_api \<Rightarrow> nat \<Rightarrow> bool \<Rightarrow> nat \<Rightarrow> ('cid \<times> 'b list) set \<Rightarrow> 'cid Link list \<Rightarrow> 'b ftree list \<Rightarrow>
   'cid Link list \<Rightarrow> 'cid Link list \<Rightarrow> 'b ftree list \<Rightarrow> ('cid \<times> 'b list) list \<Rightarrow> bool" where
  "collected api bf finishing level E rest ts news rem ts' ret' \<longleftrightarrow>
     list_all2 (stored api (E \<union> set ret')) (news @ rem) ts' \<and> contents ts' = contents ts \<and> hashed api ret' \<and>
     list_all (\<lambda>l. depth l = level + 1) news \<and> list_all (\<lambda>l. depth l = level) rem \<and>
     (finishing \<longrightarrow> rem = []) \<and> (\<not> finishing \<and> rest \<noteq> [] \<longrightarrow> rem \<noteq> []) \<and>
     (news \<noteq> [] \<longrightarrow> ret' \<noteq> [] \<and> fst (last ret') = target (last news)) \<and> (news = [] \<longrightarrow> ret' = []) \<and>
     length news + length rem \<le> length rest \<and> (rest \<noteq> [] \<longrightarrow> news @ rem \<noteq> []) \<and>
     (finishing \<and> bf \<ge> 2 \<and> length rest \<ge> 2 \<longrightarrow> length news < length rest) \<and>
     (length rest > bf \<longrightarrow> news \<noteq> []) \<and> (finishing \<and> bf = 1 \<longrightarrow> length news = length rest)"

lemma collected_Cons:
  assumes lb: "link_block api level (take bf rest) = (blk, l)" and bf: "bf > 0" and rest: "rest \<noteq> []"
    and long: "finishing \<or> length rest > bf"
    and st: "list_all2 (stored api E) rest ts"
    and c: "collected api bf finishing level (insert blk E) (drop bf rest) (drop bf ts) news rem ts' ret'"
  shows "collected api bf finishing level E rest ts (l # news) rem (Node (take bf ts) # ts') (blk # ret')"
proof -
  have "list_all2 (stored api E) (take bf rest) (take bf ts)" "take bf rest \<noteq> []"
    using st bf rest by (auto intro: list_all2_takeI)
  note b = link_block_stored [OF lb this]
  have "contents (take bf ts) @ contents (drop bf ts) = contents ts"
    by (metis append_take_drop_id concat_append map_append)
  moreover have "stored api (insert blk (E \<union> set ret')) l (Node (take bf ts))" by (rule stored_mono [OF b(1)]) auto
  moreover have cl: "length news + length rem \<le> length rest - bf" using c by (simp add: collected_def)
  then have "length (l # news) + length rem \<le> length rest"
    using bf rest by (cases rest) simp_all
  moreover have "length (l # news) < length rest" if "bf \<ge> 2" "length rest \<ge> 2"
    using cl that by simp
  moreover have "length (l # news) = length rest" if "finishing" "bf = 1"
    using c rest that by (cases rest) (simp_all add: collected_def)
  moreover have "\<not> finishing \<Longrightarrow> drop bf rest \<noteq> []" using long by simp
  ultimately show ?thesis using c b(2-4) unfolding collected_def by (intro conjI impI) simp_all
qed

lemma collected_Nil:
  assumes "list_all2 (stored api E) rest ts" "list_all (\<lambda>l. depth l = level) rest" "\<not> finishing \<and> length rest \<le> bf \<or> rest = []"
  shows "collected api bf finishing level E rest ts [] rest ts []"
  using assms by (auto simp: collected_def)

lemma take_min_length: "take (min n (length xs)) xs = take n xs"
  by (simp add: min_def)

lemma overwrite_step:
  assumes "xs \<noteq> []"
  shows "(pre @ xs @ zs)[length pre := y] = (pre @ [y]) @ tl xs @ zs"
  using assms by (cases xs) (simp_all add: list_update_append)

lemma flush_level_group:
  assumes "bf > 0" "rest \<noteq> []" "list_all (\<lambda>l. depth l = level) rest" "finishing \<or> length rest > bf"
    and "link_block api level (take bf rest) = (blk, l)" "start \<le> length pre" "list_all (\<lambda>l. depth l \<noteq> level) (drop start pre)"
  shows "flush_level api bf finishing level (pre @ rest) start lo ret =
    (let index = (case lo of Some k \<Rightarrow> k + 1 | None \<Rightarrow> length pre)
     in flush_level api bf finishing level ((pre @ rest)[index := l]) (length (pre @ take bf rest)) (Some index) (ret @ [blk]))"
proof -
  have "position (\<lambda>l. depth l = level) rest = Some 0" using assms(2,3) by (cases rest) simp_all
  then have pos: "position (\<lambda>l. depth l = level) (drop start pre @ rest) = Some (length pre - start)"
    using assms(6) position_append [OF assms(7), of rest] by simp
  have m: "min (length pre + bf) (length pre + length rest) = length pre + min bf (length rest)" by simp
  have "list_all (\<lambda>l. depth l = level) (take bf rest)" using assms(3) by (auto simp: list_all_iff dest: in_set_takeD)
  moreover have "\<not> (\<not> finishing \<and> length rest \<le> bf)" using assms(4) by auto
  ultimately show ?thesis
    using assms(5,6) by (subst flush_level.simps, cases finishing) (simp_all add: pos m Let_def take_min_length min.commute [of "length rest"])
qed

lemma flush_level_overwriting:
  assumes "bf > 0" "list_all (\<lambda>l. depth l = level) rest" "list_all2 (stored api E) rest ts" "k + 1 = length pre"
  shows "\<exists>news rem ts' ret' P k'.
     flush_level api bf finishing level (pre @ garb @ rest) (length (pre @ garb)) (Some k) ret =
       Some (Inr (rem \<noteq> [], P, Some k', ret @ ret')) \<and>
     (if rem = [] then take (k' + 1) P = pre @ news else P = pre @ news @ rem) \<and>
     collected api bf finishing level E rest ts news rem ts' ret'"
  using assms
proof (induction "length rest" arbitrary: E rest ts pre garb k ret rule: less_induct)
  case less
  consider (none) "rest = []" | (leave) "rest \<noteq> []" "\<not> finishing" "length rest \<le> bf"
    | (collect) "rest \<noteq> []" "finishing \<or> length rest > bf" by force
  then show ?case
  proof cases
    case none
    have "flush_level api bf finishing level (pre @ garb @ rest) (length (pre @ garb)) (Some k) ret =
        Some (Inr (False, pre @ garb, Some k, ret))"
      using none by (subst flush_level.simps) simp
    then show ?thesis
      using none less.prems(3,4) by - (rule exI [of _ "[]"], rule exI [of _ "[]"], rule exI [of _ ts], rule exI [of _ "[]"],
        rule exI [of _ "pre @ garb"], rule exI [of _ k], simp add: collected_Nil)
  next
    case leave
    then have "position (\<lambda>l. depth l = level) rest = Some 0" using less.prems(2) by (cases rest) simp_all
    then have "flush_level api bf finishing level (pre @ garb @ rest) (length (pre @ garb)) (Some k) ret =
        Some (Inr (True, pre @ rest, Some k, ret))"
      using leave less.prems(4) by (subst flush_level.simps) simp
    then show ?thesis
      using leave less.prems(2,3) by - (rule exI [of _ "[]"], rule exI [of _ rest], rule exI [of _ ts], rule exI [of _ "[]"],
        rule exI [of _ "pre @ rest"], rule exI [of _ k], simp add: collected_Nil)
  next
    case collect
    obtain blk l where lb: "link_block api level (take bf rest) = (blk, l)" by (meson surj_pair)
    define garb' where "garb' = tl (garb @ take bf rest)"
    have ne: "garb @ take bf rest \<noteq> []" using collect(1) less.prems(1) by simp
    have upd: "((pre @ garb) @ rest)[length pre := l] = (pre @ [l]) @ garb' @ drop bf rest"
      using overwrite_step [OF ne, of pre "drop bf rest" l] by (simp add: garb'_def)
    have len: "length ((pre @ garb) @ take bf rest) = length ((pre @ [l]) @ garb')"
      using ne by (cases "garb @ take bf rest") (auto simp: garb'_def)
    have eq: "flush_level api bf finishing level (pre @ garb @ rest) (length (pre @ garb)) (Some k) ret =
        flush_level api bf finishing level ((pre @ [l]) @ garb' @ drop bf rest) (length ((pre @ [l]) @ garb')) (Some (k + 1)) (ret @ [blk])"
      using flush_level_group [OF less.prems(1) collect(1) less.prems(2) collect(2) lb, of "length (pre @ garb)" "pre @ garb" "Some k" ret]
        upd len less.prems(4) by (simp add: Let_def)
    have "list_all2 (stored api (insert blk E)) (drop bf rest) (drop bf ts)"
      using less.prems(3) by (intro list_all2_dropI) (rule stored_list_mono, auto)
    moreover have "list_all (\<lambda>l. depth l = level) (drop bf rest)"
      using less.prems(2) by (auto simp: list_all_iff dest: in_set_dropD)
    moreover have "length (drop bf rest) < length rest" using less.prems(1) collect(1) by (cases rest) simp_all
    moreover have "k + 1 + 1 = length (pre @ [l])" using less.prems(4) by simp
    ultimately have "\<exists>news rem ts' ret' P k'.
        flush_level api bf finishing level ((pre @ [l]) @ garb' @ drop bf rest) (length ((pre @ [l]) @ garb')) (Some (k + 1))
          (ret @ [blk]) = Some (Inr (rem \<noteq> [], P, Some k', (ret @ [blk]) @ ret')) \<and>
        (if rem = [] then take (k' + 1) P = (pre @ [l]) @ news else P = (pre @ [l]) @ news @ rem) \<and>
        collected api bf finishing level (insert blk E) (drop bf rest) (drop bf ts) news rem ts' ret'"
      using less.hyps [OF _ less.prems(1)] by metis
    then obtain news rem ts' ret' P k' where
      ih: "flush_level api bf finishing level ((pre @ [l]) @ garb' @ drop bf rest) (length ((pre @ [l]) @ garb')) (Some (k + 1))
          (ret @ [blk]) = Some (Inr (rem \<noteq> [], P, Some k', (ret @ [blk]) @ ret'))"
        "if rem = [] then take (k' + 1) P = (pre @ [l]) @ news else P = (pre @ [l]) @ news @ rem"
        "collected api bf finishing level (insert blk E) (drop bf rest) (drop bf ts) news rem ts' ret'"
      by (elim exE conjE)
    note c = collected_Cons [OF lb less.prems(1) collect(1) collect(2) less.prems(3) ih(3)]
    show ?thesis
      using ih(1,2) c unfolding eq
      by - (rule exI [of _ "l # news"], rule exI [of _ rem], rule exI [of _ "Node (take bf ts) # ts'"], rule exI [of _ "blk # ret'"],
        rule exI [of _ P], rule exI [of _ k'], simp split: if_splits)
  qed
qed

lemma flush_level_start:
  assumes "bf > 0" "list_all (\<lambda>l. depth l \<noteq> level) hi" "list_all (\<lambda>l. depth l = level) rest" "list_all2 (stored api E) rest ts"
  shows "\<exists>news rem ts' ret' P lo.
     flush_level api bf finishing level (hi @ rest) 0 None ret = Some (Inr (rem \<noteq> [], P, lo, ret @ ret')) \<and>
     (if rem = [] then (case lo of Some k \<Rightarrow> take (k + 1) P | None \<Rightarrow> P) = hi @ news else P = hi @ news @ rem) \<and>
     collected api bf finishing level E rest ts news rem ts' ret'"
proof -
  consider (none) "rest = []" | (leave) "rest \<noteq> []" "\<not> finishing" "length rest \<le> bf"
    | (collect) "rest \<noteq> []" "finishing \<or> length rest > bf" by force
  then show ?thesis
  proof cases
    case none
    have "flush_level api bf finishing level (hi @ rest) 0 None ret = Some (Inr (False, hi, None, ret))"
      using none assms(2) position_None [of "\<lambda>l. depth l = level" hi] by (subst flush_level.simps) simp
    then show ?thesis
      using none assms(4) by - (rule exI [of _ "[]"], rule exI [of _ "[]"], rule exI [of _ ts], rule exI [of _ "[]"],
        rule exI [of _ hi], rule exI [of _ None], simp add: collected_Nil)
  next
    case leave
    then have "position (\<lambda>l. depth l = level) rest = Some 0" using assms(3) by (cases rest) simp_all
    then have "flush_level api bf finishing level (hi @ rest) 0 None ret = Some (Inr (True, hi @ rest, None, ret))"
      using leave assms(2) by (subst flush_level.simps) (simp add: position_append)
    then show ?thesis
      using leave assms(3,4) by - (rule exI [of _ "[]"], rule exI [of _ rest], rule exI [of _ ts], rule exI [of _ "[]"],
        rule exI [of _ "hi @ rest"], rule exI [of _ None], simp add: collected_Nil)
  next
    case collect
    obtain blk l where lb: "link_block api level (take bf rest) = (blk, l)" by (meson surj_pair)
    define garb where "garb = tl (take bf rest)"
    have ne: "take bf rest \<noteq> []" using collect(1) assms(1) by simp
    have upd: "(hi @ rest)[length hi := l] = (hi @ [l]) @ garb @ drop bf rest"
      using overwrite_step [OF ne, of hi "drop bf rest" l] by (simp add: garb_def)
    have len: "length (hi @ take bf rest) = length ((hi @ [l]) @ garb)"
      using ne by (cases "take bf rest") (auto simp: garb_def)
    have eq: "flush_level api bf finishing level (hi @ rest) 0 None ret =
        flush_level api bf finishing level ((hi @ [l]) @ garb @ drop bf rest) (length ((hi @ [l]) @ garb)) (Some (length hi)) (ret @ [blk])"
      using flush_level_group [OF assms(1) collect(1) assms(3) collect(2) lb, of 0 hi None ret] upd len assms(2)
      by (simp add: Let_def)
    have st: "list_all2 (stored api (insert blk E)) (drop bf rest) (drop bf ts)"
      using assms(4) by (intro list_all2_dropI) (rule stored_list_mono, auto)
    have dp: "list_all (\<lambda>l. depth l = level) (drop bf rest)" using assms(3) by (auto simp: list_all_iff dest: in_set_dropD)
    have k: "length hi + 1 = length (hi @ [l])" by simp
    obtain news rem ts' ret' P k' where
      o: "flush_level api bf finishing level ((hi @ [l]) @ garb @ drop bf rest) (length ((hi @ [l]) @ garb)) (Some (length hi))
          (ret @ [blk]) = Some (Inr (rem \<noteq> [], P, Some k', (ret @ [blk]) @ ret'))"
        "if rem = [] then take (k' + 1) P = (hi @ [l]) @ news else P = (hi @ [l]) @ news @ rem"
        "collected api bf finishing level (insert blk E) (drop bf rest) (drop bf ts) news rem ts' ret'"
      using flush_level_overwriting [OF assms(1) dp st k, where finishing = finishing and garb = garb and ret = "ret @ [blk]"]
      by (elim exE conjE)
    note c = collected_Cons [OF lb assms(1) collect(1) collect(2) assms(4) o(3)]
    show ?thesis
      using o(1,2) c unfolding eq
      by - (rule exI [of _ "l # news"], rule exI [of _ rem], rule exI [of _ "Node (take bf ts) # ts'"], rule exI [of _ "blk # ret'"],
        rule exI [of _ P], rule exI [of _ "Some k'"], simp split: if_splits)
  qed
qed

section \<open>All levels\<close>

definition descending :: "'cid Link list \<Rightarrow> bool" where
  "descending ls \<longleftrightarrow> sorted_wrt (\<lambda>a b. depth a \<ge> depth b) ls"

lemma descending_split:
  assumes "descending ls" "list_all (\<lambda>l. depth l \<ge> level) ls"
  obtains hi rest where "ls = hi @ rest" "list_all (\<lambda>l. depth l > level) hi" "list_all (\<lambda>l. depth l = level) rest"
proof -
  have "\<exists>hi rest. ls = hi @ rest \<and> list_all (\<lambda>l. depth l > level) hi \<and> list_all (\<lambda>l. depth l = level) rest"
    using assms
  proof (induction ls)
    case (Cons a ls)
    then obtain hi rest where o: "ls = hi @ rest" "list_all (\<lambda>l. depth l > level) hi" "list_all (\<lambda>l. depth l = level) rest"
      by (auto simp: descending_def)
    show ?case
    proof (cases "depth a > level")
      case True
      then show ?thesis using o by (intro exI [of _ "a # hi"] exI [of _ rest]) simp
    next
      case False
      then have "depth a = level" "\<forall>b \<in> set ls. depth b \<le> level" using Cons.prems by (auto simp: descending_def)
      moreover have "\<forall>b \<in> set ls. depth b \<ge> level" using Cons.prems by (auto simp: list_all_iff)
      ultimately show ?thesis by (intro exI [of _ "[]"] exI [of _ "a # ls"]) (auto simp: list_all_iff intro: antisym)
    qed
  qed simp
  then show thesis using that by blast
qed

lemma descending_join:
  assumes "descending hi" "list_all (\<lambda>l. depth l > level) hi" "list_all (\<lambda>l. depth l = level + 1) news"
    "list_all (\<lambda>l. depth l = level) rem"
  shows "descending (hi @ news @ rem)"
  using assms unfolding descending_def list_all_iff
  by (auto simp: sorted_wrt_append Suc_le_eq intro!: sorted_wrt_mono_rel [where P = "\<lambda>_ _. True" and Q = "\<lambda>a b. depth a \<ge> depth b"])

lemma flush_levels_adding:
  assumes "bf > 0" "descending ls" "ls \<noteq> []" "depth (last ls) = 0" "list_all2 (stored api E) ls ts"
  shows "\<exists>ls' ts' ret'. flush_levels api bf False 0 ls ret = Some (Inr (ls', ret @ ret')) \<and>
     list_all2 (stored api (E \<union> set ret')) ls' ts' \<and> contents ts' = contents ts \<and> hashed api ret' \<and> descending ls' \<and> ls' \<noteq> [] \<and>
     (length ls' = 1 \<longleftrightarrow> length ls = 1)"
proof (cases "length ls \<le> bf")
  case True
  then have "flush_levels api bf False 0 ls ret = Some (Inr (ls, ret))" by (subst flush_levels.simps) simp
  then show ?thesis using assms(2,3,5) by (intro exI [of _ ls] exI [of _ ts] exI [of _ "[]"]) simp
next
  case False
  obtain hi rest where sp: "ls = hi @ rest" "list_all (\<lambda>l. depth l > 0) hi" "list_all (\<lambda>l. depth l = 0) rest"
    using descending_split [OF assms(2), of 0] by (auto simp: list_all_iff)
  have ne: "rest \<noteq> []"
  proof
    assume "rest = []"
    then have "depth (last ls) > 0" using sp(1,2) assms(3) by (simp add: list_all_iff)
    then show False using assms(4) by simp
  qed
  obtain tsh tsr where ts: "ts = tsh @ tsr" "list_all2 (stored api E) hi tsh" "list_all2 (stored api E) rest tsr"
    using assms(5) unfolding sp(1) by (auto simp: list_all2_append1)
  have hi: "list_all (\<lambda>l. depth l \<noteq> 0) hi" using sp(2) by (auto simp: list_all_iff)
  obtain news rem ts' ret' P lo where
    f: "flush_level api bf False 0 (hi @ rest) 0 None ret = Some (Inr (rem \<noteq> [], P, lo, ret @ ret'))"
      "if rem = [] then (case lo of Some k \<Rightarrow> take (k + 1) P | None \<Rightarrow> P) = hi @ news else P = hi @ news @ rem"
      "collected api bf False 0 E rest tsr news rem ts' ret'"
    using flush_level_start [OF assms(1) hi sp(3) ts(3), where finishing = False and ret = ret] by (elim exE conjE)
  have c: "rem \<noteq> []" "list_all2 (stored api (E \<union> set ret')) (news @ rem) ts'" "contents ts' = contents tsr" "hashed api ret'"
    "list_all (\<lambda>l. depth l = 0 + 1) news" "list_all (\<lambda>l. depth l = 0) rem" "length rest > bf \<longrightarrow> news \<noteq> []"
    using f(3) ne by (simp_all add: collected_def)
  have "hi @ news \<noteq> []" using c(7) False sp(1) by (cases "hi = []") simp_all
  then have "0 < length (hi @ news)" "0 < length rem" using c(1) by blast+
  then have two: "length (hi @ news @ rem) \<noteq> 1" "length ls \<noteq> 1" using False assms(1) unfolding length_append by linarith+
  have "flush_levels api bf False 0 ls ret = Some (Inr (hi @ news @ rem, ret @ ret'))"
    using False f(1,2) c(1) by (subst flush_levels.simps) (simp add: sp(1))
  moreover have "list_all2 (stored api (E \<union> set ret')) (hi @ news @ rem) (tsh @ ts')"
    using stored_list_mono [OF ts(2), of "E \<union> set ret'"] c(2) by (intro list_all2_appendI) auto
  moreover have "descending (hi @ news @ rem)"
    using assms(2) sp(1,2) c(5,6) by (intro descending_join [of _ 0]) (auto simp: descending_def sorted_wrt_append)
  ultimately show ?thesis
    using c(1,3,4) ts(1) two by - (rule exI [of _ "hi @ news @ rem"], rule exI [of _ "tsh @ ts'"], rule exI [of _ ret'], simp)
qed

text \<open>One level when finishing: the links of the level are all collected, and there are fewer links or fewer levels left.\<close>

lemma flush_levels_finish_step:
  assumes "bf \<ge> 2" "descending ls" "list_all (\<lambda>l. depth l \<ge> level) ls" "length ls > 1" "list_all2 (stored api E) ls ts"
  shows "\<exists>ls' ts' ret'. flush_levels api bf True level ls ret = flush_levels api bf True (level + 1) ls' (ret @ ret') \<and>
     list_all2 (stored api (E \<union> set ret')) ls' ts' \<and> contents ts' = contents ts \<and> hashed api ret' \<and>
     descending ls' \<and> list_all (\<lambda>l. depth l \<ge> level + 1) ls' \<and> ls' \<noteq> [] \<and>
     (ret' \<noteq> [] \<longrightarrow> fst (last ret') = target (last ls')) \<and> (ret' = [] \<longrightarrow> ls' = ls) \<and>
     length ls' + (depth (hd ls') - (level + 1)) < length ls + (depth (hd ls) - level)"
proof -
  obtain hi rest where sp: "ls = hi @ rest" "list_all (\<lambda>l. depth l > level) hi" "list_all (\<lambda>l. depth l = level) rest"
    using descending_split [OF assms(2,3)] by blast
  obtain tsh tsr where ts: "ts = tsh @ tsr" "list_all2 (stored api E) hi tsh" "list_all2 (stored api E) rest tsr"
    using assms(5) unfolding sp(1) by (auto simp: list_all2_append1)
  have hi: "list_all (\<lambda>l. depth l \<noteq> level) hi" using sp(2) by (auto simp: list_all_iff)
  have bf: "bf > 0" using assms(1) by simp
  obtain news rem ts' ret' P lo where
    f: "flush_level api bf True level (hi @ rest) 0 None ret = Some (Inr (rem \<noteq> [], P, lo, ret @ ret'))"
      "if rem = [] then (case lo of Some k \<Rightarrow> take (k + 1) P | None \<Rightarrow> P) = hi @ news else P = hi @ news @ rem"
      "collected api bf True level E rest tsr news rem ts' ret'"
    using flush_level_start [OF bf hi sp(3) ts(3), where finishing = True and ret = ret] by (elim exE conjE)
  have c: "rem = []" "list_all2 (stored api (E \<union> set ret')) news ts'" "contents ts' = contents tsr" "hashed api ret'"
    "list_all (\<lambda>l. depth l = level + 1) news" "news \<noteq> [] \<longrightarrow> ret' \<noteq> [] \<and> fst (last ret') = target (last news)"
    "length news \<le> length rest" "rest \<noteq> [] \<longrightarrow> news \<noteq> []" "length rest \<ge> 2 \<longrightarrow> length news < length rest" "news = [] \<longrightarrow> ret' = []"
    using f(3) assms(1) by (auto simp: collected_def)
  have dp: "list_all (\<lambda>l. depth l \<ge> level + 1) (hi @ news)" using sp(2) c(5) by (auto simp: list_all_iff)
  then have "position (\<lambda>l. depth l = level) (hi @ news) = None"
    unfolding position_None by (rule list.pred_mono_strong) auto
  then have "flush_levels api bf True level ls ret = flush_levels api bf True (level + 1) (hi @ news) (ret @ ret')"
    using assms(4) f(1,2) c(1) by (subst flush_levels.simps) (simp add: sp(1))
  moreover have "list_all2 (stored api (E \<union> set ret')) (hi @ news) (tsh @ ts')"
    using stored_list_mono [OF ts(2), of "E \<union> set ret'"] c(2) by (intro list_all2_appendI) auto
  moreover have "descending (hi @ news)"
    using assms(2) sp(1,2) c(5) descending_join [of hi level news "[]"] by (auto simp: descending_def sorted_wrt_append)
  moreover have "hi @ news \<noteq> []" using assms(4) c(8) sp(1) by auto
  moreover have "length (hi @ news) + (depth (hd (hi @ news)) - (level + 1)) < length ls + (depth (hd ls) - level)"
  proof (cases "hi = []")
    case True
    then have "length news < length ls" "news \<noteq> []" using assms(4) sp(1) c(8,9) by auto
    moreover have "depth (hd news) = level + 1" using c(5) \<open>news \<noteq> []\<close> by (simp add: list_all_iff)
    ultimately show ?thesis using True by simp
  next
    case False
    then have "depth (hd hi) > level" using sp(2) by (simp add: list_all_iff)
    then show ?thesis using False c(7) sp(1) by simp
  qed
  moreover have "ret' \<noteq> [] \<longrightarrow> fst (last ret') = target (last (hi @ news))" "ret' = [] \<longrightarrow> hi @ news = ls"
    using c(6,8,10) sp(1) by auto
  ultimately show ?thesis
    using c(3,4) dp ts(1) by - (rule exI [of _ "hi @ news"], rule exI [of _ "tsh @ ts'"], rule exI [of _ ret'], simp)
qed

theorem flush_levels_finish:
  assumes "bf \<ge> 2" "descending ls" "list_all (\<lambda>l. depth l \<ge> level) ls" "ls \<noteq> []" "list_all2 (stored api E) ls ts"
  shows "\<exists>root t ret'. flush_levels api bf True level ls ret = Some (Inr ([root], ret @ ret')) \<and>
     stored api (E \<union> set ret') root t \<and> content t = contents ts \<and> hashed api ret' \<and>
     (ret' \<noteq> [] \<longrightarrow> fst (last ret') = target root) \<and> (ret' = [] \<longleftrightarrow> ls = [root])"
  using assms(2-)
proof (induction "length ls + (depth (hd ls) - level)" arbitrary: level ls E ts ret rule: less_induct)
  case less
  show ?case
  proof (cases "length ls = 1")
    case True
    then obtain l t where one: "ls = [l]" "ts = [t]" "stored api E l t"
      using less.prems(4) by (cases ls; cases ts; cases "tl ls"; cases "tl ts") auto
    have "flush_levels api bf True level ls ret = Some (Inr ([l], ret))" by (subst flush_levels.simps) (simp add: one)
    then show ?thesis using one by (intro exI [of _ l] exI [of _ t] exI [of _ "[]"]) simp
  next
    case False
    then have long: "length ls > 1" using less.prems(3) by (cases ls) auto
    obtain ls' ts' ret' where
      s: "flush_levels api bf True level ls ret = flush_levels api bf True (level + 1) ls' (ret @ ret')"
        "list_all2 (stored api (E \<union> set ret')) ls' ts'" "contents ts' = contents ts" "hashed api ret'" "descending ls'"
        "list_all (\<lambda>l. depth l \<ge> level + 1) ls'" "ls' \<noteq> []" "ret' \<noteq> [] \<longrightarrow> fst (last ret') = target (last ls')"
        "ret' = [] \<longrightarrow> ls' = ls" "length ls' + (depth (hd ls') - (level + 1)) < length ls + (depth (hd ls) - level)"
      using flush_levels_finish_step [OF assms(1) less.prems(1,2) long less.prems(4), of ret] by (elim exE conjE)
    obtain root t ret'' where
      r: "flush_levels api bf True (level + 1) ls' (ret @ ret') = Some (Inr ([root], (ret @ ret') @ ret''))"
        "stored api ((E \<union> set ret') \<union> set ret'') root t" "content t = contents ts'" "hashed api ret''"
        "ret'' \<noteq> [] \<longrightarrow> fst (last ret'') = target root" "ret'' = [] \<longleftrightarrow> ls' = [root]"
      using less.hyps [OF s(10,5,6,7,2), of "ret @ ret'"] by (elim exE conjE)
    have "(ret' @ ret'' \<noteq> [] \<longrightarrow> fst (last (ret' @ ret'')) = target root) \<and> (ret' @ ret'' = [] \<longleftrightarrow> ls = [root])"
      using r(5,6) s(8,9) False by (cases "ret'' = []") auto
    moreover have "flush_levels api bf True level ls ret = Some (Inr ([root], ret @ ret' @ ret''))"
      "stored api (E \<union> set (ret' @ ret'')) root t" "content t = contents ts" "hashed api (ret' @ ret'')"
      using r(1-4) s(1,3,4) by (simp_all add: Un_assoc)
    ultimately show ?thesis by - (rule exI [of _ root], rule exI [of _ t], rule exI [of _ "ret' @ ret''"], intro conjI; (assumption | elim conjE, assumption))
  qed
qed

section \<open>Adding a file\<close>

text \<open>
  The bytes pushed so far are in the trees of the pending links, whose blocks have been returned, and in the buffer.
\<close>

definition adder_inv :: "('cid, 'b) unixfs_api \<Rightarrow> ('cid \<times> 'b list) set \<Rightarrow> 'b list \<Rightarrow> ('cid, 'b) FileAdder \<Rightarrow> bool" where
  "adder_inv api E pushed a \<longleftrightarrow>
     length (block_buffer a) < Chunker_size_hint (chunker a) \<and> branching_factor a > 0 \<and> descending (unflushed_links a) \<and>
     (\<exists>ts. list_all2 (stored api E) (unflushed_links a) ts \<and> contents ts @ block_buffer a = pushed \<and>
       (unflushed_links a = [] \<longleftrightarrow> contents ts = []) \<and>
       (unflushed_links a \<noteq> [] \<longrightarrow> length (contents ts) \<ge> Chunker_size_hint (chunker a)) \<and>
       (length (unflushed_links a) = 1 \<longleftrightarrow> length (contents ts) = Chunker_size_hint (chunker a)))"

lemma adder_inv_build: "n > 0 \<Longrightarrow> bf > 0 \<Longrightarrow> adder_inv api E [] (FileAdder_build (Size n) bf)"
  by (simp add: adder_inv_def FileAdder_build_def descending_def)

lemma leaf_stored:
  assumes "flush_buffered_leaf api bs links finishing = (Some blk, links')" "list_all2 (stored api E) links ts"
  shows "list_all2 (stored api (insert blk E)) links' (ts @ [Leaf bs])" "fst blk = hash_block api (snd blk)"
    "depth (last links') = 0" "links' \<noteq> []" "descending links \<Longrightarrow> descending links'" "target (last links') = fst blk" "length links' = Suc (length links)"
proof -
  define l where "l = \<lparr>depth = 0, target = hash_block api (flat_write api (leaf_flat bs)),
    total_size = length (flat_write api (leaf_flat bs)), file_size = length bs\<rparr>"
  have b: "blk = (hash_block api (flat_write api (leaf_flat bs)), flat_write api (leaf_flat bs))" "links' = links @ [l]"
    using assms(1) by (auto simp: flush_buffered_leaf_def render_and_hash_def l_def Let_def split: if_splits)
  have "stored api (insert blk E) l (Leaf bs)" by (rule stored_leaf) (simp_all add: l_def b)
  then show "list_all2 (stored api (insert blk E)) links' (ts @ [Leaf bs])"
    using stored_list_mono [OF assms(2), of "insert blk E"] b(2) by (auto intro: list_all2_appendI)
  show "fst blk = hash_block api (snd blk)" "depth (last links') = 0" "links' \<noteq> []" "target (last links') = fst blk"
    "descending links \<Longrightarrow> descending links'" "length links' = Suc (length links)"
    using b by (simp_all add: l_def descending_def sorted_wrt_append)
qed

lemma push_ready_correct:
  assumes "length chunk = Chunker_size_hint (chunker a)" "branching_factor a > 0" "descending (unflushed_links a)"
    "Chunker_size_hint (chunker a) > 0"
    and "list_all2 (stored api E) (unflushed_links a) ts" "unflushed_links a = [] \<longleftrightarrow> contents ts = []"
  shows "\<exists>blks a'. push_ready api chunk written a = Some (Inr (blks, written, a')) \<and> hashed api blks \<and>
     adder_inv api (E \<union> set blks) (contents ts @ chunk) a' \<and> block_buffer a' = [] \<and> unflushed_links a' \<noteq> [] \<and>
     chunker a' = chunker a \<and> branching_factor a' = branching_factor a"
proof -
  obtain blk links where lf: "flush_buffered_leaf api chunk (unflushed_links a) False = (Some blk, links)"
    using assms(1,4) by (cases "chunk = []") (auto simp: flush_buffered_leaf_def render_and_hash_def Let_def)
  note l = leaf_stored [OF lf assms(5)]
  obtain ls' ts' ret' where
    f: "flush_levels api (branching_factor a) False 0 links [] = Some (Inr (ls', [] @ ret'))"
      "list_all2 (stored api (insert blk E \<union> set ret')) ls' ts'" "contents ts' = contents (ts @ [Leaf chunk])" "hashed api ret'"
      "descending ls'" "ls' \<noteq> []" "length ls' = 1 \<longleftrightarrow> length links = 1"
    using flush_levels_adding [OF assms(2) l(5) [OF assms(3)] l(4,3,1), of "[]"] by (elim exE conjE)
  have "push_ready api chunk written a =
      Some (Inr (blk # ret', written, a\<lparr>block_buffer := [], unflushed_links := ls'\<rparr>))"
    using f(1) by (simp add: push_ready_def lf flush_links_def)
  moreover have "adder_inv api (E \<union> set (blk # ret')) (contents ts @ chunk) (a\<lparr>block_buffer := [], unflushed_links := ls'\<rparr>)"
    using f(2,3,5,6) f(7) l(7) assms(1,2,4,6) by (auto simp: adder_inv_def simp del: concat_eq_Nil_conv intro!: exI [of _ ts'])
  ultimately show ?thesis
    using f(4,6) l(2) by (intro exI [of _ "blk # ret'"] exI [of _ "a\<lparr>block_buffer := [], unflushed_links := ls'\<rparr>"]) simp
qed

theorem FileAdder_push_correct:
  assumes "adder_inv api E pushed a" "input \<noteq> []"
  shows "\<exists>blks n a'. FileAdder_push api input a = Some (Inr (blks, n, a')) \<and> 0 < n \<and> n \<le> length input \<and> hashed api blks \<and>
     adder_inv api (E \<union> set blks) (pushed @ take n input) a' \<and>
     chunker a' = chunker a \<and> branching_factor a' = branching_factor a"
proof -
  obtain mx where mx: "chunker a = Size mx" by (cases "chunker a")
  obtain ts where inv: "length (block_buffer a) < mx" "branching_factor a > 0" "descending (unflushed_links a)"
    "list_all2 (stored api E) (unflushed_links a) ts" "contents ts @ block_buffer a = pushed"
    "unflushed_links a = [] \<longleftrightarrow> contents ts = []" "length (unflushed_links a) = 1 \<longleftrightarrow> length (contents ts) = mx"
    "unflushed_links a \<noteq> [] \<longrightarrow> length (contents ts) \<ge> mx"
    using assms(1) mx by (auto simp: adder_inv_def)
  define n where "n = min (length input) (mx - length (block_buffer a))"
  have n: "0 < n" "n \<le> length input" "length (take n input) = n" using inv(1) assms(2) by (auto simp: n_def)
  have acc: "Chunker_accept (chunker a) input (block_buffer a) = Inr (take n input, length (block_buffer a) + n \<ge> mx)"
    using inv(1) mx by (simp add: n_def checked_sub_def Let_def)
  show ?thesis
  proof (cases "length (block_buffer a) + n \<ge> mx")
    case False
    then have "FileAdder_push api input a = Some (Inr ([], n, a\<lparr>block_buffer := block_buffer a @ take n input\<rparr>))"
      using n by (simp add: FileAdder_push_def acc)
    moreover have "adder_inv api E (pushed @ take n input) (a\<lparr>block_buffer := block_buffer a @ take n input\<rparr>)"
      using inv False n mx by (auto simp: adder_inv_def)
    ultimately show ?thesis using n by (intro exI [of _ "[]"] exI [of _ n]) auto
  next
    case True
    define chunk where "chunk = block_buffer a @ take n input"
    define a1 where "a1 = (if block_buffer a = [] then a else a\<lparr>block_buffer := chunk\<rparr>)"
    have eq: "FileAdder_push api input a = push_ready api chunk n a1"
      using n True by (simp add: FileAdder_push_def acc chunk_def a1_def)
    have "length chunk = Chunker_size_hint (chunker a1)" "branching_factor a1 > 0" "descending (unflushed_links a1)" "Chunker_size_hint (chunker a1) > 0"
      "list_all2 (stored api E) (unflushed_links a1) ts" "unflushed_links a1 = [] \<longleftrightarrow> contents ts = []"
      "chunker a1 = chunker a" "branching_factor a1 = branching_factor a"
      using inv n mx True by (auto simp: chunk_def a1_def n_def)
    note r = push_ready_correct [OF this(1-6), of n] this(7,8)
    show ?thesis unfolding eq using r n inv(5) by (auto simp: chunk_def)
  qed
qed

text \<open>The chunks in the trees are full, so the last leaf never completes exactly one chunk.\<close>

lemma finish_leaf_size:
  assumes "flush_buffered_leaf api (block_buffer a) (unflushed_links a) True = (Some blk, links)" "adder_inv api E pushed a"
  shows "length pushed \<noteq> Chunker_size_hint (chunker a)"
proof -
  have "block_buffer a \<noteq> [] \<or> unflushed_links a = []" using assms(1) by (auto simp: flush_buffered_leaf_def split: if_splits)
  then show ?thesis using assms(2) by (auto simp: adder_inv_def)
qed

theorem FileAdder_finish_correct:
  assumes "adder_inv api E pushed a" "branching_factor a \<ge> 2"
  shows "\<exists>blks root t. FileAdder_finish api a = Some (Inr blks) \<and> hashed api blks \<and> stored api (E \<union> set blks) root t \<and>
     content t = pushed \<and> (blks \<noteq> [] \<longrightarrow> fst (last blks) = target root) \<and>
     (blks = [] \<longrightarrow> unflushed_links a = [root]) \<and> (blks = [] \<longleftrightarrow> length pushed = Chunker_size_hint (chunker a))"
proof -
  obtain ts where inv: "descending (unflushed_links a)" "list_all2 (stored api E) (unflushed_links a) ts"
    "contents ts @ block_buffer a = pushed" "unflushed_links a = [] \<longleftrightarrow> contents ts = []"
    "length (unflushed_links a) = 1 \<longleftrightarrow> length (contents ts) = Chunker_size_hint (chunker a)"
    "length (block_buffer a) < Chunker_size_hint (chunker a)"
    using assms(1) by (auto simp: adder_inv_def)
  obtain leaf links where lf: "flush_buffered_leaf api (block_buffer a) (unflushed_links a) True = (leaf, links)"
    by (meson surj_pair)
  show ?thesis
  proof (cases leaf)
    case None
    then have l: "links = unflushed_links a" "block_buffer a = []" "links \<noteq> []"
      using lf by (auto simp: flush_buffered_leaf_def render_and_hash_def Let_def split: if_splits)
    obtain root t ret where r: "flush_levels api (branching_factor a) True 0 links [] = Some (Inr ([root], [] @ ret))"
      "stored api (E \<union> set ret) root t" "content t = contents ts" "hashed api ret"
      "ret \<noteq> [] \<longrightarrow> fst (last ret) = target root" "ret = [] \<longleftrightarrow> links = [root]"
      using flush_levels_finish [OF assms(2) _ _ l(3), of 0 api E ts "[]"] inv(1,2) l(1) by (auto simp: list_all_iff)
    have len: "ret = [] \<longleftrightarrow> length links = 1" using r(1,6) by (subst (asm) flush_levels.simps) (auto simp: length_Suc_conv)
    have "FileAdder_finish api a = Some (Inr ret)" using r(1) by (simp add: FileAdder_finish_def lf None flush_links_def)
    then show ?thesis using r inv(3,5) l len by (intro exI [of _ ret] exI [of _ root] exI [of _ t]) simp
  next
    case (Some blk)
    note l = leaf_stored [OF lf [unfolded Some] inv(2)]
    obtain root t ret where r: "flush_levels api (branching_factor a) True 0 links [] = Some (Inr ([root], [] @ ret))"
      "stored api (insert blk E \<union> set ret) root t" "content t = contents (ts @ [Leaf (block_buffer a)])" "hashed api ret"
      "ret \<noteq> [] \<longrightarrow> fst (last ret) = target root" "ret = [] \<longleftrightarrow> links = [root]"
      using flush_levels_finish [OF assms(2) l(5) [OF inv(1)] _ l(4,1), of 0 "[]"] by (auto simp: list_all_iff)
    have "FileAdder_finish api a = Some (Inr (blk # ret))" using r(1) by (simp add: FileAdder_finish_def lf Some flush_links_def)
    moreover have "length pushed \<noteq> Chunker_size_hint (chunker a)" using finish_leaf_size [OF lf [unfolded Some] assms(1)] .
    moreover have "fst (last (blk # ret)) = target root" using r(5,6) l(6) by (cases "ret = []") auto
    ultimately show ?thesis using r l(2) inv(3) by (intro exI [of _ "blk # ret"] exI [of _ root] exI [of _ t]) auto
  qed
qed

section \<open>A branching factor of one\<close>

text \<open>
  With a branching factor of one every link block has one link, so the links never become fewer and \<open>finish\<close> does not return.
\<close>

definition unary :: "('cid, 'b) unixfs_api \<Rightarrow> nat \<Rightarrow> bool \<Rightarrow> nat \<Rightarrow> 'cid Link list \<Rightarrow> bool" where
  "unary api bf finishing level ls \<longleftrightarrow> bf = 1 \<and> finishing \<and> descending ls \<and> list_all (\<lambda>l. depth l \<ge> level) ls \<and>
     length ls \<ge> 2 \<and> (\<exists>E ts. list_all2 (stored api E) ls ts)"

lemma flush_levels_unary: "flush_levels api bf finishing level ls ret = Some y \<Longrightarrow> \<not> unary api bf finishing level ls"
proof (erule flush_levels.raw_induct [where P = "\<lambda>api bf finishing level ls ret y. \<not> unary api bf finishing level ls", rotated])
  fix f api bf finishing level ls ret y
  assume ih: "\<And>api bf finishing level ls ret y. f api bf finishing level ls ret = Some y \<Longrightarrow> \<not> unary api bf finishing level ls"
    and body: "(if length ls = 1 \<and> finishing \<or> length ls \<le> bf \<and> \<not> finishing then Some (Inr (ls, ret))
      else case flush_level api bf finishing level ls 0 None ret of
             None \<Rightarrow> None
           | Some (Inl p) \<Rightarrow> Some (Inl p)
           | Some (Inr (brk, pending1, lo, ret1)) \<Rightarrow>
               (if brk then Some (Inr (pending1, ret1))
                else let pending2 = (case lo of Some k \<Rightarrow> take (k + 1) pending1 | None \<Rightarrow> pending1)
                     in if position (\<lambda>l. depth l = level) pending2 \<noteq> None then Some (Inl AssertFailed)
                        else f api bf finishing (level + 1) pending2 ret1)) = Some y"
  show "\<not> unary api bf finishing level ls"
  proof
    assume "unary api bf finishing level ls"
    then obtain E ts where a: "bf = 1" "finishing" "descending ls" "list_all (\<lambda>l. depth l \<ge> level) ls" "length ls \<ge> 2"
      "list_all2 (stored api E) ls ts" by (auto simp: unary_def)
    obtain hi rest where sp: "ls = hi @ rest" "list_all (\<lambda>l. depth l > level) hi" "list_all (\<lambda>l. depth l = level) rest"
      using descending_split [OF a(3,4)] by blast
    obtain tsh tsr where ts: "list_all2 (stored api E) hi tsh" "list_all2 (stored api E) rest tsr"
      using a(6) unfolding sp(1) by (auto simp: list_all2_append1)
    have hi: "list_all (\<lambda>l. depth l \<noteq> level) hi" using sp(2) by (auto simp: list_all_iff)
    have bf: "bf > 0" using a by simp
    obtain news rem ts' ret' P lo where
      f: "flush_level api bf True level (hi @ rest) 0 None ret = Some (Inr (rem \<noteq> [], P, lo, ret @ ret'))"
        "if rem = [] then (case lo of Some k \<Rightarrow> take (k + 1) P | None \<Rightarrow> P) = hi @ news else P = hi @ news @ rem"
        "collected api bf True level E rest tsr news rem ts' ret'"
      using flush_level_start [OF bf hi sp(3) ts(2), where finishing = True and ret = ret] by (elim exE conjE)
    have c: "rem = []" "list_all2 (stored api (E \<union> set ret')) news ts'" "list_all (\<lambda>l. depth l = level + 1) news"
      "length news = length rest"
      using f(3) a by (auto simp: collected_def)
    have dp: "list_all (\<lambda>l. depth l \<ge> level + 1) (hi @ news)" using sp(2) c(3) by (auto simp: list_all_iff)
    then have "position (\<lambda>l. depth l = level) (hi @ news) = None"
      unfolding position_None by (rule list.pred_mono_strong) auto
    then have "f api bf finishing (level + 1) (hi @ news) (ret @ ret') = Some y"
      using body a(2,5) f(1,2) c(1) sp(1) by simp
    then have "\<not> unary api bf finishing (level + 1) (hi @ news)" by (rule ih)
    moreover have "descending (hi @ news)"
      using a(3) sp(1,2) c(3) descending_join [of hi level news "[]"] by (auto simp: descending_def sorted_wrt_append)
    moreover have "list_all2 (stored api (E \<union> set ret')) (hi @ news) (tsh @ ts')"
      using stored_list_mono [OF ts(1), of "E \<union> set ret'"] c(2) by (intro list_all2_appendI) auto
    moreover have "length (hi @ news) \<ge> 2" using a(5) sp(1) c(4) by simp
    ultimately show False using a(1,2) dp unfolding unary_def by blast
  qed
qed

theorem FileAdder_finish_diverges:
  assumes "adder_inv api E pushed a" "branching_factor a = 1" "length pushed > Chunker_size_hint (chunker a)"
  shows "FileAdder_finish api a = None"
proof -
  obtain ts where inv: "descending (unflushed_links a)" "list_all2 (stored api E) (unflushed_links a) ts"
    "contents ts @ block_buffer a = pushed" "unflushed_links a = [] \<longleftrightarrow> contents ts = []"
    "length (unflushed_links a) = 1 \<longleftrightarrow> length (contents ts) = Chunker_size_hint (chunker a)"
    "length (block_buffer a) < Chunker_size_hint (chunker a)"
    using assms(1) by (auto simp: adder_inv_def)
  have ne: "unflushed_links a \<noteq> []" using inv(3,4,6) assms(3) by (auto simp del: concat_eq_Nil_conv)
  obtain leaf links where lf: "flush_buffered_leaf api (block_buffer a) (unflushed_links a) True = (leaf, links)"
    by (meson surj_pair)
  have "\<exists>E ts. list_all2 (stored api E) links ts \<and> descending links \<and> length links \<ge> 2"
  proof (cases leaf)
    case None
    then have "links = unflushed_links a" "block_buffer a = []"
      using lf by (auto simp: flush_buffered_leaf_def render_and_hash_def Let_def split: if_splits)
    moreover have "length (unflushed_links a) \<noteq> 1" using inv(3,5) assms(3) calculation(2) by auto
    ultimately show ?thesis using inv(1,2) ne by (cases "unflushed_links a"; cases "tl (unflushed_links a)") auto
  next
    case (Some blk)
    note l = leaf_stored [OF lf [unfolded Some] inv(2)]
    have "length links \<ge> 2" using l(7) ne by (cases "unflushed_links a") simp_all
    then show ?thesis using l(1,5) inv(1) by blast
  qed
  then obtain E' ts' where l: "list_all2 (stored api E') links ts'" "descending links" "length links \<ge> 2" by blast
  have "flush_levels api 1 True 0 links [] = None"
    using flush_levels_unary [of api 1 True 0 links "[]"] l
    by (cases "flush_levels api 1 True 0 links []") (auto simp: unary_def list_all_iff)
  then show ?thesis using assms(2) by (simp add: FileAdder_finish_def lf flush_links_def)
qed

end
