(* ===== verification/Unixfs_Visit.thy ===== *)
theory Unixfs_Visit
  imports Unixfs_Adder
begin

text \<open>
  Reading UnixFS files block by block (\<open>unixfs/src/file/reader.rs\<close>, \<open>unixfs/src/file/visit.rs\<close>) over the ranges of
  \<open>unixfs/src/pb.rs\<close> and the errors of \<open>unixfs/src/file.rs\<close>. Blocks come from other nodes, so every
  addition of sizes is checked, and a slice that is out of range is a panic. The links still to visit are kept as in the
  source with the next one at the end. The cache that visits share only saves allocations: it is emptied whenever it is stored.
\<close>

section \<open>Reading one block\<close>

definition u64_add :: "nat \<Rightarrow> nat \<Rightarrow> nat checked" where
  "u64_add a b = (if a + b < 2 ^ 64 then Inr (a + b) else Inl Overflow)"

record Metadata =
  meta_mode :: "nat option"
  meta_mtime :: "(int \<times> nat) option"

datatype FileError =
    LinksAndBlocksizesMismatch
  | NoLinksNoContent
  | NonRootDefinesMetadata Metadata
  | IntermediateNodeWithoutFileSize
  | TreeExpandsOnLinks
  | TreeOverlapsBetweenLinks
  | EarlierLink
  | TreeJumpsBetweenLinks
  | UnexpectedRawOrFileProperties "nat option" "nat option"

text \<open>\<open>Read\<close> tells whether there is an error of the protobuf reader; an invalid cid is reported with the link and its position.\<close>

datatype 'b FileReadFailed = File FileError | UnexpectedType UnixFsType | Read bool | InvalidCid nat "'b PBLink"

type_synonym ('b, 'a) file_result = "('b FileReadFailed + 'a) checked"

definition Metadata_from :: "'b UnixFs \<Rightarrow> Metadata" where
  "Metadata_from data =
     \<lparr>meta_mode = mode data, meta_mtime = map_option (\<lambda>(s, ns). (s, case ns of Some n \<Rightarrow> n | None \<Rightarrow> 0)) (mtime data)\<rparr>"

fun FileReadFailed_from :: "ParsingFailed \<Rightarrow> 'b FileReadFailed" where
  "FileReadFailed_from InvalidDagPb = Read True"
| "FileReadFailed_from InvalidUnixFs = Read True"
| "FileReadFailed_from NoData = Read False"

datatype Ending = TreeCoverage nat | Chunk nat

fun check_is_suitable_next :: "Ending \<Rightarrow> nat \<Rightarrow> nat \<times> nat \<Rightarrow> FileError option" where
  "check_is_suitable_next (TreeCoverage cover_end) offset (s, e) =
     (if s \<le> offset \<and> e > cover_end then Some TreeExpandsOnLinks
      else if s < cover_end \<and> e > cover_end then Some TreeOverlapsBetweenLinks
      else if s < offset then Some EarlierLink
      else None)"
| "check_is_suitable_next (Chunk chunk_end) offset (s, e) = (if s \<noteq> chunk_end then Some TreeJumpsBetweenLinks else None)"

record 'b FileReader =
  fr_offset :: nat
  fr_end :: Ending
  fr_links :: "'b PBLink list"
  fr_data :: "'b list"
  fr_blocksizes :: "nat list"
  fr_metadata :: Metadata
  fr_file_size :: nat

record Traversal =
  last_ending :: Ending
  last_offset :: nat
  tr_file_size :: nat
  tr_metadata :: Metadata

definition from_parts :: "'b FlatUnixFs \<Rightarrow> nat \<Rightarrow> Metadata \<Rightarrow> ('b, 'b FileReader) file_result" where
  "from_parts inner offset metadata =
     (let d = fl_data inner;
          empty_or_no_content = (case Data d of Some bs \<Rightarrow> bs = [] | None \<Rightarrow> True);
          is_zero_bytes = (case filesize d of Some n \<Rightarrow> n = 0 | None \<Rightarrow> True);
          data = (case Data d of Some bs \<Rightarrow> bs | None \<Rightarrow> [])
      in if Type d \<noteq> Ufs_File \<and> Type d \<noteq> Ufs_Raw then Inr (Inl (UnexpectedType (Type d)))
         else if length (fl_links inner) \<noteq> length (blocksizes d) then Inr (Inl (File LinksAndBlocksizesMismatch))
         else if empty_or_no_content \<and> \<not> is_zero_bytes \<and> fl_links inner = [] then Inr (Inl (File NoLinksNoContent))
         else if hashType d \<noteq> None \<or> fanout d \<noteq> None
              then Inr (Inl (File (UnexpectedRawOrFileProperties (hashType d) (fanout d))))
         else let reader = (\<lambda>end. case filesize d of
                  None \<Rightarrow> Inl ExpectFailed
                | Some n \<Rightarrow> Inr (Inr \<lparr>fr_offset = offset, fr_end = end, fr_links = fl_links inner, fr_data = data,
                    fr_blocksizes = blocksizes d, fr_metadata = metadata, fr_file_size = n\<rparr>))
              in if fl_links inner = []
                 then rbind (u64_add offset (case filesize d of Some n \<Rightarrow> n | None \<Rightarrow> length data)) (\<lambda>e. reader (Chunk e))
                 else case filesize d of
                        Some n \<Rightarrow> rbind (u64_add offset n) (\<lambda>e. reader (TreeCoverage e))
                      | None \<Rightarrow> Inr (Inl (File IntermediateNodeWithoutFileSize)))"

definition from_parsed :: "'b FlatUnixFs \<Rightarrow> ('b, 'b FileReader) file_result" where
  "from_parsed inner = from_parts inner 0 (Metadata_from (fl_data inner))"

definition from_block :: "('cid, 'b) unixfs_api \<Rightarrow> 'b list \<Rightarrow> ('b, 'b FileReader) file_result" where
  "from_block api data =
     (case FlatUnixFs_try_from api data of Inl e \<Rightarrow> Inr (Inl (FileReadFailed_from e)) | Inr inner \<Rightarrow> from_parsed inner)"

definition from_continued ::
  "('cid, 'b) unixfs_api \<Rightarrow> Traversal \<Rightarrow> nat \<Rightarrow> 'b list \<Rightarrow> ('b, 'b FileReader) file_result" where
  "from_continued api traversal offset data =
     (case FlatUnixFs_try_from api data of
        Inl e \<Rightarrow> Inr (Inl (FileReadFailed_from e))
      | Inr inner \<Rightarrow>
          (if mode (fl_data inner) \<noteq> None \<or> mtime (fl_data inner) \<noteq> None
           then Inr (Inl (File (NonRootDefinesMetadata (Metadata_from (fl_data inner)))))
           else from_parts inner offset (tr_metadata traversal)))"

datatype 'b FileContent = Bytes "'b list" | Links "('b PBLink \<times> nat) list" nat

definition FileReader_content :: "'b FileReader \<Rightarrow> 'b FileContent \<times> Traversal" where
  "FileReader_content fr =
     (if fr_links fr = [] then Bytes (fr_data fr) else Links (zip (fr_links fr) (fr_blocksizes fr)) (fr_offset fr),
      \<lparr>last_ending = fr_end fr, last_offset = fr_offset fr, tr_file_size = fr_file_size fr, tr_metadata = fr_metadata fr\<rparr>)"

definition Traversal_continue_walk ::
  "('cid, 'b) unixfs_api \<Rightarrow> Traversal \<Rightarrow> 'b list \<Rightarrow> nat \<times> nat \<Rightarrow> ('b, 'b FileReader) file_result" where
  "Traversal_continue_walk api tr next_block tree_range =
     (case check_is_suitable_next (last_ending tr) (last_offset tr) tree_range of
        Some e \<Rightarrow> Inr (Inl (File e))
      | None \<Rightarrow> from_continued api tr (fst tree_range) next_block)"

section \<open>Visiting a file\<close>

definition to_pending ::
  "('cid, 'b) unixfs_api \<Rightarrow> nat \<Rightarrow> 'b PBLink \<Rightarrow> nat \<times> nat \<Rightarrow> 'b FileReadFailed + ('cid \<times> nat \<times> nat)" where
  "to_pending api i link rng =
     (case ucid_try_from api (case Hash link of Some h \<Rightarrow> h | None \<Rightarrow> []) of
        Some cid \<Rightarrow> Inr (cid, rng)
      | None \<Rightarrow> Inl (InvalidCid i link))"

fun block_is_in_target_range :: "nat \<times> nat \<Rightarrow> (nat \<times> nat) option \<Rightarrow> bool" where
  "block_is_in_target_range (bs, be) (Some (ts, te)) \<longleftrightarrow> max bs ts \<le> min be te"
| "block_is_in_target_range _ None \<longleftrightarrow> True"

definition slice :: "'b list \<Rightarrow> nat \<Rightarrow> nat \<Rightarrow> 'b list checked" where
  "slice cont start end = (if start \<le> end \<and> end \<le> length cont then Inr (take (end - start) (drop start cont)) else Inl OutOfRange)"

fun target_slice :: "'b list \<Rightarrow> nat \<times> nat \<Rightarrow> nat \<times> nat \<Rightarrow> 'b list checked" where
  "target_slice cont (bs, be) (ts, te) =
     (if \<not> block_is_in_target_range (bs, be) (Some (ts, te)) then Inr []
      else if ts < bs then rbind (checked_sub (min te be) bs) (\<lambda>end. slice cont 0 end)
      else if te > be
           then rbind (checked_sub ts bs) (\<lambda>start. rbind (checked_sub (min te be) bs) (\<lambda>end. slice cont start end))
      else rbind (checked_sub ts bs) (\<lambda>start. rbind (checked_sub te ts) (\<lambda>n. slice cont start (start + n))))"

definition maybe_target_slice :: "'b list \<Rightarrow> nat \<times> nat \<Rightarrow> (nat \<times> nat) option \<Rightarrow> 'b list checked" where
  "maybe_target_slice cont block tgt =
     (case tgt of Some t \<Rightarrow> target_slice cont block t | None \<Rightarrow> Inr cont)"

text \<open>
  The links in the target range with their ranges; the iteration \<open>RangeLinks::next\<close> adds the size of each link to the base.
\<close>

fun select_links ::
  "('cid, 'b) unixfs_api \<Rightarrow> (nat \<times> nat) option \<Rightarrow> nat \<Rightarrow> nat \<Rightarrow> ('b PBLink \<times> nat) list \<Rightarrow> ('b, ('cid \<times> nat \<times> nat) list) file_result" where
  "select_links api tgt i base [] = Inr (Inr [])"
| "select_links api tgt i base ((link, sz) # rest) =
     rbind (u64_add base sz) (\<lambda>end.
       if \<not> block_is_in_target_range (base, end) tgt then select_links api tgt (i + 1) end rest
       else case to_pending api i link (base, end) of
              Inl e \<Rightarrow> Inr (Inl e)
            | Inr p \<Rightarrow> rbind (select_links api tgt (i + 1) end rest) (\<lambda>r. Inr (map_sum (\<lambda>e. e) ((#) p) r)))"

record ('cid) FileVisit =
  fv_pending :: "('cid \<times> nat \<times> nat) list"
  fv_range :: "(nat \<times> nat) option"
  fv_state :: Traversal

definition start_from_reader ::
  "('cid, 'b) unixfs_api \<Rightarrow> (nat \<times> nat) option \<Rightarrow> 'b FileReader \<Rightarrow> ('b, 'b list \<times> nat \<times> Metadata \<times> 'cid FileVisit option) file_result" where
  "start_from_reader api rng fr =
     (let metadata = fr_metadata fr; (cont, traversal) = FileReader_content fr
      in case cont of
           Bytes bs \<Rightarrow>
             rbind (maybe_target_slice bs (0, length bs) rng) (\<lambda>bs'. Inr (Inr (bs', tr_file_size traversal, metadata, None)))
         | Links zipped base \<Rightarrow>
             rbind (select_links api rng 0 base zipped) (\<lambda>r. case r of
               Inl e \<Rightarrow> Inr (Inl e)
             | Inr links \<Rightarrow>
                 Inr (Inr ([], tr_file_size traversal, metadata,
                   if links = [] then None else Some \<lparr>fv_pending = rev links, fv_range = rng, fv_state = traversal\<rparr>))))"

definition IdleFileVisit_start ::
  "('cid, 'b) unixfs_api \<Rightarrow> (nat \<times> nat) option \<Rightarrow> 'b list \<Rightarrow> ('b, 'b list \<times> nat \<times> Metadata \<times> 'cid FileVisit option) file_result" where
  "IdleFileVisit_start api rng block =
     rbind (from_block api block) (\<lambda>r. case r of Inl e \<Rightarrow> Inr (Inl e) | Inr fr \<Rightarrow> start_from_reader api rng fr)"

definition start_from_parsed ::
  "('cid, 'b) unixfs_api \<Rightarrow> (nat \<times> nat) option \<Rightarrow> 'b FlatUnixFs \<Rightarrow> ('b, 'b list \<times> nat \<times> Metadata \<times> 'cid FileVisit option) file_result" where
  "start_from_parsed api rng block =
     rbind (from_parsed block) (\<lambda>r. case r of Inl e \<Rightarrow> Inr (Inl e) | Inr fr \<Rightarrow> start_from_reader api rng fr)"

definition pending_links :: "'cid FileVisit \<Rightarrow> ('cid \<times> 'cid list) checked" where
  "pending_links v = (case rev (fv_pending v) of [] \<Rightarrow> Inl ExpectFailed | (cid, _) # ps \<Rightarrow> Inr (cid, map fst ps))"

definition FileVisit_continue_walk ::
  "('cid, 'b) unixfs_api \<Rightarrow> 'b list \<Rightarrow> 'cid FileVisit \<Rightarrow> ('b, 'b list \<times> 'cid FileVisit option) file_result" where
  "FileVisit_continue_walk api next_block v =
     (if fv_pending v = [] then Inl ExpectFailed
      else let rng = snd (last (fv_pending v)); rest = butlast (fv_pending v)
           in rbind (Traversal_continue_walk api (fv_state v) next_block rng) (\<lambda>r. case r of
                Inl e \<Rightarrow> Inr (Inl e)
              | Inr fr \<Rightarrow>
                  (case FileReader_content fr of
                     (Bytes bs, traversal) \<Rightarrow>
                       rbind (maybe_target_slice bs rng (fv_range v)) (\<lambda>bs'.
                         Inr (Inr (bs', if rest \<noteq> [] then Some (v\<lparr>fv_pending := rest, fv_state := traversal\<rparr>) else None)))
                   | (Links zipped base, traversal) \<Rightarrow>
                       rbind (select_links api (fv_range v) 0 base zipped) (\<lambda>r. case r of
                         Inl e \<Rightarrow> Inr (Inl e)
                       | Inr links \<Rightarrow> Inr (Inr ([], Some (v\<lparr>fv_pending := rest @ rev links, fv_state := traversal\<rparr>)))))))"

section \<open>The bytes of a target range\<close>

text \<open>The part of \<open>bs\<close>, which starts at offset \<open>a\<close> of the file, that lies in the target range.\<close>

fun clip :: "(nat \<times> nat) option \<Rightarrow> nat \<Rightarrow> 'b list \<Rightarrow> 'b list" where
  "clip None a bs = bs"
| "clip (Some (s, e)) a bs = take (e - max s a) (drop (s - a) bs)"

lemma clip_Nil [simp]: "clip r a [] = []"
  by (cases r) auto

lemma clip_append: "clip r a (xs @ ys) = clip r a xs @ clip r (a + length xs) ys"
proof (cases r)
  case (Some se)
  then show ?thesis by (cases se) (auto simp: max_def)
qed simp

lemma clip_out_of_range: "\<not> block_is_in_target_range (a, a + length bs) r \<Longrightarrow> clip r a bs = []"
  by (induction "(a, a + length bs)" r rule: block_is_in_target_range.induct) (auto simp: max_def min_def split: if_splits)

lemma maybe_target_slice_clip:
  "maybe_target_slice bs (a, a + length bs) r = Inr (clip r a bs)"
proof (cases "block_is_in_target_range (a, a + length bs) r")
  case False
  then show ?thesis using clip_out_of_range [OF False] by (cases r) (auto simp: maybe_target_slice_def)
next
  case True
  then show ?thesis
    by (cases r) (auto simp: maybe_target_slice_def checked_sub_def slice_def max_def min_def split: if_splits)
qed

section \<open>Entries\<close>

text \<open>A pending link together with its offset and the tree it leads to.\<close>

type_synonym ('cid, 'b) entry = "'cid Link \<times> nat \<times> 'b ftree"

definition entry_range :: "('cid, 'b) entry \<Rightarrow> nat \<times> nat" where
  "entry_range = (\<lambda>(l, a, t). (a, a + length (content t)))"

definition pending_entry :: "('cid, 'b) entry \<Rightarrow> 'cid \<times> nat \<times> nat" where
  "pending_entry x = (target (fst x), entry_range x)"

definition in_target :: "(nat \<times> nat) option \<Rightarrow> ('cid, 'b) entry \<Rightarrow> bool" where
  "in_target r x \<longleftrightarrow> block_is_in_target_range (entry_range x) r"

definition adjacent :: "('cid, 'b) entry \<Rightarrow> ('cid, 'b) entry \<Rightarrow> bool" where
  "adjacent x y \<longleftrightarrow> snd (entry_range x) = fst (entry_range y)"

definition bytes_of :: "(nat \<times> nat) option \<Rightarrow> ('cid, 'b) entry list \<Rightarrow> 'b list" where
  "bytes_of r es = concat (map (\<lambda>(l, a, t). clip r a (content t)) es)"

fun kids :: "nat \<Rightarrow> 'cid Link list \<Rightarrow> 'b ftree list \<Rightarrow> ('cid, 'b) entry list" where
  "kids a (l # ls) (t # ts) = (l, a, t) # kids (a + length (content t)) ls ts"
| "kids a _ _ = []"

lemma bytes_of_simps [simp]:
  "bytes_of r [] = []" "bytes_of r ((l, a, t) # es) = clip r a (content t) @ bytes_of r es"
  "bytes_of r (xs @ ys) = bytes_of r xs @ bytes_of r ys"
  by (simp_all add: bytes_of_def)

lemma bytes_of_kids: "length ls = length ts \<Longrightarrow> bytes_of r (kids a ls ts) = clip r a (contents ts)"
  by (induction a ls ts rule: kids.induct) (simp_all add: clip_append)

lemma bytes_of_filter: "bytes_of r (filter (in_target r) es) = bytes_of r es"
proof (induction es)
  case (Cons x es)
  obtain l a t where x: "x = (l, a, t)" by (cases x)
  show ?case using Cons clip_out_of_range [of a "content t" r] by (simp add: x in_target_def entry_range_def)
qed simp

lemma kids_adjacent: "successively adjacent (kids a ls ts)"
proof (induction a ls ts rule: kids.induct)
  case (1 a l ls t ts)
  then show ?case by (cases ls; cases ts) (auto simp: adjacent_def entry_range_def)
qed auto

lemma kids_bounds: "length ls = length ts \<Longrightarrow> x \<in> set (kids a ls ts) \<Longrightarrow>
    a \<le> fst (entry_range x) \<and> snd (entry_range x) \<le> a + length (contents ts)"
proof (induction a ls ts rule: kids.induct)
  case (1 a l ls t ts)
  then show ?case by (auto simp: entry_range_def)
qed simp_all

lemma kids_last: "length ls = length ts \<Longrightarrow> ls \<noteq> [] \<Longrightarrow>
    kids a ls ts \<noteq> [] \<and> snd (entry_range (last (kids a ls ts))) = a + length (contents ts)"
proof (induction a ls ts rule: kids.induct)
  case (1 a l ls t ts)
  then show ?case by (cases ls; cases ts) (auto simp: entry_range_def)
qed simp_all

lemma kids_stored: "list_all2 (stored api E) ls ts \<Longrightarrow> list_all (\<lambda>(l, a, t). stored api E l t) (kids a ls ts)"
  by (induction arbitrary: a rule: list_all2_induct) simp_all

lemma entry_range_le: "fst (entry_range x) \<le> snd (entry_range x)"
  by (cases x) (simp add: entry_range_def)

lemma beyond_target:
  "successively adjacent (x # es) \<Longrightarrow> e < fst (entry_range x) \<Longrightarrow> filter (in_target (Some (s, e))) (x # es) = []"
proof (induction es arbitrary: x)
  case Nil
  then show ?case by (cases "entry_range x") (auto simp: in_target_def)
next
  case (Cons y es)
  have "e < fst (entry_range y)" using Cons.prems entry_range_le [of x] by (simp add: adjacent_def)
  then have "filter (in_target (Some (s, e))) (y # es) = []" using Cons by simp
  moreover have "\<not> in_target (Some (s, e)) x" using Cons.prems(2) by (cases "entry_range x") (auto simp: in_target_def)
  ultimately show ?case by simp
qed

lemma filter_adjacent: "successively adjacent es \<Longrightarrow> successively adjacent (filter (in_target r) es)"
proof (cases r)
  case None
  then show "successively adjacent es \<Longrightarrow> ?thesis" by (simp add: in_target_def [abs_def])
next
  case (Some se)
  obtain s e where r: "r = Some (s, e)" using Some by (cases se) simp
  show "successively adjacent es \<Longrightarrow> ?thesis"
  proof (induction es)
    case (Cons x es)
    show ?case
    proof (cases "in_target r x \<and> es \<noteq> []")
      case False
      then show ?thesis using Cons by (cases es) auto
    next
      case True
      then obtain y ys where es: "es = y # ys" by (cases es) auto
      have adj: "snd (entry_range x) = fst (entry_range y)" using Cons.prems es by (simp add: adjacent_def)
      show ?thesis
      proof (cases "in_target r y")
        case in_y: True
        then show ?thesis using Cons es True by (auto simp: adjacent_def)
      next
        case False
        then have "e < fst (entry_range y)"
          using True adj entry_range_le [of y] entry_range_le [of x]
          by (cases "entry_range x"; cases "entry_range y") (auto simp: in_target_def r max_def min_def split: if_splits)
        then have "filter (in_target r) es = []" using beyond_target [of y ys e s] Cons.prems es r by simp
        then show ?thesis using True by simp
      qed
    qed
  qed simp
qed

text \<open>A node in the target range has a child in the target range; its last child is in the range if the file goes on in it.\<close>

lemma kids_in_target:
  assumes "length ls = length ts" "ls \<noteq> []" "block_is_in_target_range (a, a + length (contents ts)) r"
  shows "filter (in_target r) (kids a ls ts) \<noteq> []"
proof (cases r)
  case None
  then show ?thesis using kids_last [OF assms(1,2), of a] by (simp add: in_target_def [abs_def])
next
  case (Some se)
  obtain s e where r: "r = Some (s, e)" using Some by (cases se) simp
  show ?thesis
    using assms unfolding r
  proof (induction a ls ts rule: kids.induct)
    case (1 a l ls t ts)
    show ?case
    proof (cases "s \<le> a + length (content t)")
      case True
      then have "in_target (Some (s, e)) (l, a, t)"
        using "1.prems"(3) by (auto simp: in_target_def entry_range_def max_def min_def split: if_splits)
      then show ?thesis by simp
    next
      case False
      then have "ls \<noteq> []" using "1.prems" by (cases ls; cases ts) auto
      then show ?thesis using 1 False by (auto simp: max_def min_def split: if_splits)
    qed
  qed auto
qed

lemma last_kid_in_target:
  assumes "length ls = length ts" "ls \<noteq> []" "block_is_in_target_range (a, a + length (contents ts)) r"
    and "block_is_in_target_range (a + length (contents ts), b) r"
  shows "last (filter (in_target r) (kids a ls ts)) = last (kids a ls ts)"
proof -
  define k where "k = last (kids a ls ts)"
  have k: "kids a ls ts \<noteq> []" "snd (entry_range k) = a + length (contents ts)" using kids_last [OF assms(1,2)] by (simp_all add: k_def)
  have "in_target r k"
    using assms(3,4) k(2) entry_range_le [of k]
    by (cases r; cases "entry_range k") (auto simp: in_target_def max_def min_def split: if_splits)
  then have "filter (in_target r) (butlast (kids a ls ts) @ [k]) = filter (in_target r) (butlast (kids a ls ts)) @ [k]" by simp
  moreover have "kids a ls ts = butlast (kids a ls ts) @ [k]" using k(1) by (simp add: k_def)
  ultimately show ?thesis unfolding k_def by (metis last_snoc)
qed

lemma select_links_kids:
  assumes "unixfs_laws api" "list_all2 (stored api E) ls ts" "a + length (contents ts) < 2 ^ 64"
  shows "select_links api r i a (zip (map (pb_link api) ls) (map file_size ls)) =
    Inr (Inr (map pending_entry (filter (in_target r) (kids a ls ts))))"
  using assms(2,3)
proof (induction arbitrary: i a rule: list_all2_induct)
  case (Cons l ls t ts)
  have sz: "file_size l = length (content t)" using Cons.hyps(1) by (rule stored_file_size)
  have "to_pending api i (pb_link api l) (a, a + length (content t)) = Inr (pending_entry (l, a, t))"
    using assms(1) by (simp add: to_pending_def pb_link_def unixfs_laws_def pending_entry_def entry_range_def)
  moreover have "u64_add a (length (content t)) = Inr (a + length (content t))" using Cons.prems by (simp add: u64_add_def)
  moreover have "a + length (content t) + length (contents ts) < 2 ^ 64" using Cons.prems by simp
  ultimately show ?case using Cons.IH [of "a + length (content t)" "i + 1"] sz by (simp add: in_target_def entry_range_def)
qed simp

section \<open>One step of a visit\<close>

definition suitable :: "Traversal \<Rightarrow> ('cid, 'b) entry \<Rightarrow> bool" where
  "suitable tr x \<longleftrightarrow> (case last_ending tr of
     Chunk e \<Rightarrow> fst (entry_range x) = e
   | TreeCoverage e \<Rightarrow> last_offset tr \<le> fst (entry_range x) \<and> snd (entry_range x) \<le> e)"

definition visiting ::
  "('cid, 'b) unixfs_api \<Rightarrow> ('cid \<times> 'b list) set \<Rightarrow> (nat \<times> nat) option \<Rightarrow> ('cid, 'b) entry list \<Rightarrow> 'cid FileVisit \<Rightarrow> bool" where
  "visiting api E r es v \<longleftrightarrow>
     es \<noteq> [] \<and> fv_pending v = rev (map pending_entry es) \<and> fv_range v = r \<and> successively adjacent es \<and>
     list_all (\<lambda>(l, a, t). stored api E l t) es \<and> list_all (in_target r) es \<and>
     list_all (\<lambda>x. snd (entry_range x) < 2 ^ 64) es \<and> suitable (fv_state v) (hd es)"

lemma suitable_check: "suitable tr x \<Longrightarrow> check_is_suitable_next (last_ending tr) (last_offset tr) (entry_range x) = None"
  by (cases "last_ending tr"; cases "entry_range x") (auto simp: suitable_def)

lemma from_parts_leaf:
  assumes "offset + length bs < 2 ^ 64"
  shows "from_parts (leaf_flat bs) offset m =
    Inr (Inr \<lparr>fr_offset = offset, fr_end = Chunk (offset + length bs), fr_links = [], fr_data = bs, fr_blocksizes = [],
      fr_metadata = m, fr_file_size = length bs\<rparr>)"
  using assms by (cases bs) (simp_all add: from_parts_def leaf_flat_def UnixFs_default_def u64_add_def Let_def)

lemma from_parts_node:
  assumes "ls \<noteq> []" "offset + sum_list (map file_size ls) < 2 ^ 64"
  shows "from_parts (node_flat api ls) offset m =
    Inr (Inr \<lparr>fr_offset = offset, fr_end = TreeCoverage (offset + sum_list (map file_size ls)), fr_links = map (pb_link api) ls,
      fr_data = [], fr_blocksizes = map file_size ls, fr_metadata = m, fr_file_size = sum_list (map file_size ls)\<rparr>)"
  using assms by (simp add: from_parts_def node_flat_def UnixFs_default_def u64_add_def Let_def)

lemma from_continued_flat:
  assumes "unixfs_laws api" "mode (fl_data f) = None" "mtime (fl_data f) = None"
  shows "from_continued api tr offset (flat_write api f) = from_parts f offset (tr_metadata tr)"
  using assms by (simp add: from_continued_def flat_round_trip)

lemma flat_no_metadata [simp]:
  "mode (fl_data (leaf_flat bs)) = None" "mtime (fl_data (leaf_flat bs)) = None"
  "mode (fl_data (node_flat api ls)) = None" "mtime (fl_data (node_flat api ls)) = None"
  by (simp_all add: leaf_flat_def node_flat_def UnixFs_default_def)

lemma continue_walk_leaf:
  assumes "unixfs_laws api" "visiting api E r ((l, a, Leaf bs) # es) v"
  shows "\<exists>v'. FileVisit_continue_walk api (flat_write api (leaf_flat bs)) v =
      Inr (Inr (clip r a bs, if es = [] then None else Some v')) \<and> (es \<noteq> [] \<longrightarrow> visiting api E r es v')"
proof -
  define x where "x = (l, a, Leaf bs)"
  define tr where "tr = \<lparr>last_ending = Chunk (a + length bs), last_offset = a, tr_file_size = length bs, tr_metadata = tr_metadata (fv_state v)\<rparr>"
  have rg: "entry_range x = (a, a + length bs)" by (simp add: x_def entry_range_def)
  have v: "fv_pending v = rev (map pending_entry es) @ [pending_entry x]" "fv_range v = r" "suitable (fv_state v) x" "a + length bs < 2 ^ 64"
    using assms(2) rg by (simp_all add: visiting_def x_def)
  have "Traversal_continue_walk api (fv_state v) (flat_write api (leaf_flat bs)) (entry_range x) =
      Inr (Inr \<lparr>fr_offset = a, fr_end = Chunk (a + length bs), fr_links = [], fr_data = bs, fr_blocksizes = [],
        fr_metadata = tr_metadata (fv_state v), fr_file_size = length bs\<rparr>)"
    using suitable_check [OF v(3)] v(4) assms(1) rg
    by (simp add: Traversal_continue_walk_def from_continued_flat from_parts_leaf)
  then have "FileVisit_continue_walk api (flat_write api (leaf_flat bs)) v =
      Inr (Inr (clip r a bs, if es = [] then None else Some (v\<lparr>fv_pending := rev (map pending_entry es), fv_state := tr\<rparr>)))"
    by (simp add: FileVisit_continue_walk_def v(1,2) pending_entry_def FileReader_content_def rg maybe_target_slice_clip tr_def Let_def)
  moreover have "visiting api E r es (v\<lparr>fv_pending := rev (map pending_entry es), fv_state := tr\<rparr>)" if "es \<noteq> []"
    using assms(2) that by (cases es) (auto simp: visiting_def suitable_def tr_def adjacent_def entry_range_def)
  ultimately show ?thesis by blast
qed

lemma continue_walk_node:
  assumes "unixfs_laws api" "visiting api E r ((l, a, Node ts) # es) v" "list_all2 (stored api E) ls ts" "ls \<noteq> []"
  shows "\<exists>v'. FileVisit_continue_walk api (flat_write api (node_flat api ls)) v = Inr (Inr ([], Some v')) \<and>
      visiting api E r (filter (in_target r) (kids a ls ts) @ es) v'"
proof -
  define x where "x = (l, a, Node ts)"
  define n where "n = length (contents ts)"
  define ks where "ks = filter (in_target r) (kids a ls ts)"
  define tr where "tr = \<lparr>last_ending = TreeCoverage (a + n), last_offset = a, tr_file_size = n, tr_metadata = tr_metadata (fv_state v)\<rparr>"
  define v' where "v' = v\<lparr>fv_pending := rev (map pending_entry es) @ rev (map pending_entry ks), fv_state := tr\<rparr>"
  have len: "length ls = length ts" using assms(3) by (rule list_all2_lengthD)
  have sz: "sum_list (map file_size ls) = n"
    using assms(3) unfolding n_def by (intro list_all2_file_size) (erule list_all2_mono, rule stored_file_size)
  have rg: "entry_range x = (a, a + n)" by (simp add: x_def entry_range_def n_def)
  have v: "fv_pending v = rev (map pending_entry es) @ [pending_entry x]" "fv_range v = r" "suitable (fv_state v) x" "a + n < 2 ^ 64"
    "successively adjacent (x # es)" "list_all (\<lambda>(l, a, t). stored api E l t) es" "list_all (in_target r) (x # es)"
    "list_all (\<lambda>x. snd (entry_range x) < 2 ^ 64) es"
    using assms(2) rg by (simp_all add: visiting_def x_def)
  have "Traversal_continue_walk api (fv_state v) (flat_write api (node_flat api ls)) (entry_range x) =
      Inr (Inr \<lparr>fr_offset = a, fr_end = TreeCoverage (a + n), fr_links = map (pb_link api) ls, fr_data = [],
        fr_blocksizes = map file_size ls, fr_metadata = tr_metadata (fv_state v), fr_file_size = n\<rparr>)"
    using suitable_check [OF v(3)] v(4) assms(1,4) rg sz
    by (simp add: Traversal_continue_walk_def from_continued_flat from_parts_node)
  moreover have "select_links api r 0 a (zip (map (pb_link api) ls) (map file_size ls)) = Inr (Inr (map pending_entry ks))"
    using select_links_kids [OF assms(1,3), of a r 0] v(4) by (simp add: ks_def n_def)
  ultimately have "FileVisit_continue_walk api (flat_write api (node_flat api ls)) v = Inr (Inr ([], Some v'))"
    using assms(4) by (simp add: FileVisit_continue_walk_def v(1,2) pending_entry_def FileReader_content_def v'_def tr_def Let_def)
  moreover have "visiting api E r (ks @ es) v'"
  proof -
    have inx: "block_is_in_target_range (a, a + length (contents ts)) r" using v(7) rg by (simp add: in_target_def n_def)
    have ne: "ks \<noteq> []" using kids_in_target [OF len assms(4) inx] by (simp add: ks_def)
    have sub: "set ks \<subseteq> set (kids a ls ts)" by (auto simp: ks_def)
    have "adjacent (last ks) (hd es)" if "es \<noteq> []"
    proof -
      have ad: "a + n = fst (entry_range (hd es))" using v(5) rg that by (cases es) (simp_all add: adjacent_def)
      then have "block_is_in_target_range (a + length (contents ts), snd (entry_range (hd es))) r"
        using v(7) that by (cases es) (simp_all add: in_target_def n_def)
      then have "last ks = last (kids a ls ts)" using last_kid_in_target [OF len assms(4) inx] by (simp add: ks_def)
      then show ?thesis using kids_last [OF len assms(4), of a] ad by (simp add: adjacent_def n_def)
    qed
    then have "successively adjacent (ks @ es)"
      using v(5) filter_adjacent [OF kids_adjacent, of r a ls ts] by (auto simp: successively_append_iff successively_Cons ks_def)
    moreover have "list_all (\<lambda>(l, a, t). stored api E l t) (ks @ es)"
      using kids_stored [OF assms(3), of a] sub v(6) by (auto simp: list_all_iff)
    moreover have "list_all (in_target r) (ks @ es)" using v(7) by (auto simp: list_all_iff ks_def)
    moreover have bd: "\<And>y. y \<in> set ks \<Longrightarrow> a \<le> fst (entry_range y) \<and> snd (entry_range y) \<le> a + n"
      using kids_bounds [OF len] sub by (auto simp: n_def)
    moreover have "suitable tr (hd ks)" using bd [of "hd ks"] ne by (simp add: suitable_def tr_def)
    moreover have "list_all (\<lambda>y. snd (entry_range y) < 2 ^ 64) (ks @ es)"
      using bd v(4,8) unfolding list_all_append by (metis (no_types, lifting) list_all_iff le_less_trans)
    ultimately show ?thesis using ne v(2) by (simp add: visiting_def v'_def)
  qed
  ultimately show ?thesis by (auto simp: ks_def)
qed

text \<open>The first block of a file: a leaf is returned at once, a node starts a visit of its children.\<close>

lemma start_leaf:
  assumes "unixfs_laws api" "length bs < 2 ^ 64"
  shows "IdleFileVisit_start api r (flat_write api (leaf_flat bs)) =
    Inr (Inr (clip r 0 bs, length bs, Metadata_from (fl_data (leaf_flat bs)), None))"
  using assms maybe_target_slice_clip [of bs 0 r]
  by (simp add: IdleFileVisit_start_def from_block_def flat_round_trip from_parsed_def from_parts_leaf start_from_reader_def
      FileReader_content_def)

lemma start_node:
  assumes "unixfs_laws api" "list_all2 (stored api E) ls ts" "ls \<noteq> []" "length (contents ts) < 2 ^ 64"
  shows "\<exists>m v. IdleFileVisit_start api r (flat_write api (node_flat api ls)) =
      Inr (Inr ([], length (contents ts), m, if filter (in_target r) (kids 0 ls ts) = [] then None else Some v)) \<and>
      (filter (in_target r) (kids 0 ls ts) \<noteq> [] \<longrightarrow> visiting api E r (filter (in_target r) (kids 0 ls ts)) v)"
proof -
  define n where "n = length (contents ts)"
  define m where "m = Metadata_from (fl_data (node_flat api ls))"
  define ks where "ks = filter (in_target r) (kids 0 ls ts)"
  define tr where "tr = \<lparr>last_ending = TreeCoverage n, last_offset = 0, tr_file_size = n, tr_metadata = m\<rparr>"
  define v where "v = \<lparr>fv_pending = rev (map pending_entry ks), fv_range = r, fv_state = tr\<rparr>"
  have len: "length ls = length ts" using assms(2) by (rule list_all2_lengthD)
  have sz: "sum_list (map file_size ls) = n"
    using assms(2) unfolding n_def by (intro list_all2_file_size) (erule list_all2_mono, rule stored_file_size)
  have sel: "select_links api r 0 0 (zip (map (pb_link api) ls) (map file_size ls)) = Inr (Inr (map pending_entry ks))"
    using select_links_kids [OF assms(1,2), of 0 r 0] assms(4) by (simp add: ks_def)
  have "IdleFileVisit_start api r (flat_write api (node_flat api ls)) = Inr (Inr ([], n, m, if ks = [] then None else Some v))"
    using assms(1,3,4) sz sel
    by (simp add: IdleFileVisit_start_def from_block_def flat_round_trip from_parsed_def from_parts_node start_from_reader_def
        FileReader_content_def n_def v_def tr_def m_def)
  moreover have "visiting api E r ks v" if "ks \<noteq> []"
  proof -
    have sub: "set ks \<subseteq> set (kids 0 ls ts)" by (auto simp: ks_def)
    have bd: "\<And>y. y \<in> set ks \<Longrightarrow> snd (entry_range y) \<le> n" using kids_bounds [OF len, of _ 0] sub by (auto simp: n_def)
    have "list_all (\<lambda>(l, a, t). stored api E l t) ks" using kids_stored [OF assms(2), of 0] sub by (auto simp: list_all_iff)
    moreover have "suitable tr (hd ks)" using bd [of "hd ks"] that by (simp add: suitable_def tr_def)
    moreover have "list_all (\<lambda>x. snd (entry_range x) < 2 ^ 64) ks"
      using bd assms(4) by (auto simp: list_all_iff n_def dest: le_less_trans)
    ultimately show ?thesis
      using that filter_adjacent [OF kids_adjacent, of r 0 ls ts] by (simp add: visiting_def v_def list_all_iff ks_def)
  qed
  ultimately show ?thesis unfolding ks_def n_def by blast
qed

section \<open>Blocks that make the reader panic\<close>

text \<open>A leaf without a filesize passes every check.\<close>

lemma leaf_without_filesize_panics:
  assumes "unixfs_laws api" "bs \<noteq> []" "length bs < 2 ^ 64"
  shows "IdleFileVisit_start api rng (flat_write api \<lparr>fl_links = [], fl_data = UnixFs_default\<lparr>Type := Ufs_File, Data := Some bs\<rparr>\<rparr>) =
    Inl ExpectFailed"
  using assms
  by (simp add: IdleFileVisit_start_def from_block_def flat_round_trip from_parsed_def from_parts_def UnixFs_default_def u64_add_def)

text \<open>A leaf may be shorter than its parent says; a target range in the missing part is sliced out of range.\<close>

lemma short_leaf_panics:
  assumes "unixfs_laws api"
  shows "FileVisit_continue_walk api (flat_write api (leaf_flat []))
      \<lparr>fv_pending = [(c, 0, 5)], fv_range = Some (2, 4),
       fv_state = \<lparr>last_ending = TreeCoverage 5, last_offset = 0, tr_file_size = 5, tr_metadata = m\<rparr>\<rparr> = Inl OutOfRange"
  using assms
  by (simp add: FileVisit_continue_walk_def Traversal_continue_walk_def from_continued_flat from_parts_leaf FileReader_content_def
      maybe_target_slice_def checked_sub_def slice_def)

text \<open>A node may be shorter than its parent says; if the rest of the file lies in the missing part, the visit goes on with no link.\<close>

lemma short_node_panics:
  assumes "unixfs_laws api" "file_size l = 0"
  shows "\<exists>v. FileVisit_continue_walk api (flat_write api (node_flat api [l]))
      \<lparr>fv_pending = [(c, 0, 5)], fv_range = Some (2, 4),
       fv_state = \<lparr>last_ending = TreeCoverage 5, last_offset = 0, tr_file_size = 5, tr_metadata = m\<rparr>\<rparr> = Inr (Inr ([], Some v)) \<and>
    pending_links v = Inl ExpectFailed"
  using assms
  by (simp add: FileVisit_continue_walk_def Traversal_continue_walk_def from_continued_flat from_parts_node FileReader_content_def
      u64_add_def pending_links_def)

end
