(* ===== verification/Unixfs_Files.thy ===== *)
theory Unixfs_Files
  imports Unixfs_Visit Repo
begin

text \<open>
  Adding a file to the repository and reading it back: \<open>src/unixfs/add.rs\<close> and \<open>src/unixfs/cat.rs\<close>, which join the file
  adder and the file visit with the blocks of the repository.

  The stream that is added is the list of its buffers, with \<open>None\<close> for an input error; a stream that is returned is the
  list of its items. Whether \<open>Block::new\<close> accepts a cid for some bytes is an argument. While a file is read other tasks
  may change the repository, so the repository at the \<open>k\<close>-th lookup is \<open>repos k\<close>. Reading starts from a block; resolving
  a path to its block, adding with the option to wrap the file in a directory and announcing the file to other nodes, which
  happens in a task of its own, are not modelled.
\<close>

section \<open>Adding\<close>

record AddOption =
  opt_chunk :: "Chunker option"
  opt_pin :: bool

definition AddOption_default :: AddOption where
  "AddOption_default = \<lparr>opt_chunk = Some (Size (256 * 1024)), opt_pin = False\<rparr>"

datatype add_error = StreamError | InvalidBlock

datatype ('cid, 'peer) UnixfsStatus =
    ProgressStatus nat "nat option"
  | CompletedStatus "('cid, 'peer) IpfsPath" nat "nat option"
  | FailedStatus nat "nat option" "add_error option"

text \<open>The loop that stores the blocks of the adder; it ends early if a block is refused.\<close>

fun put_blocks ::
  "('cid \<Rightarrow> 'b list \<Rightarrow> bool) \<Rightarrow> ('cid \<times> 'b list) list \<Rightarrow> ('cid, 'peer, 'b list) Repo \<Rightarrow> bool \<times> ('cid, 'peer, 'b list) Repo" where
  "put_blocks accepts [] r = (True, r)"
| "put_blocks accepts ((cid, block) # blocks) r =
     (if accepts cid block then put_blocks accepts blocks (snd (snd (put_block \<lparr>rb_cid = cid, rb_data = block\<rparr> r))) else (False, r))"

text \<open>One buffer of the stream: push until all of it is consumed.\<close>

partial_function (option) add_buffer ::
  "('cid, 'b) unixfs_api \<Rightarrow> ('cid \<Rightarrow> 'b list \<Rightarrow> bool) \<Rightarrow> 'b list \<Rightarrow> nat \<Rightarrow> ('cid, 'b) FileAdder \<Rightarrow> ('cid, 'peer, 'b list) Repo \<Rightarrow>
   (bool \<times> nat \<times> ('cid, 'b) FileAdder \<times> ('cid, 'peer, 'b list) Repo) checked option" where
  "add_buffer api accepts buf written a r =
     (if buf = [] then Some (Inr (True, written, a, r))
      else case FileAdder_push api buf a of
             None \<Rightarrow> None
           | Some (Inl p) \<Rightarrow> Some (Inl p)
           | Some (Inr (blocks, consumed, a')) \<Rightarrow>
               (case put_blocks accepts blocks r of
                  (ok, r') \<Rightarrow>
                    (if \<not> ok then Some (Inr (False, written, a', r'))
                     else add_buffer api accepts (drop consumed buf) (written + consumed) a' r')))"

text \<open>The whole stream. The result is the items so far and, unless adding has failed, the adder.\<close>

fun add_stream ::
  "('cid, 'b) unixfs_api \<Rightarrow> ('cid \<Rightarrow> 'b list \<Rightarrow> bool) \<Rightarrow> nat option \<Rightarrow> 'b list option list \<Rightarrow> nat \<Rightarrow> ('cid, 'peer) UnixfsStatus list \<Rightarrow>
   ('cid, 'b) FileAdder \<Rightarrow> ('cid, 'peer, 'b list) Repo \<Rightarrow>
   (('cid, 'peer) UnixfsStatus list \<times> (nat \<times> ('cid, 'b) FileAdder) option \<times> ('cid, 'peer, 'b list) Repo) checked option" where
  "add_stream api accepts total_sz [] written ys a r = Some (Inr (ys, Some (written, a), r))"
| "add_stream api accepts total_sz (None # _) written ys a r =
     Some (Inr (ys @ [FailedStatus written total_sz (Some StreamError)], None, r))"
| "add_stream api accepts total_sz (Some buf # items) written ys a r =
     (case add_buffer api accepts buf written a r of
        None \<Rightarrow> None
      | Some (Inl p) \<Rightarrow> Some (Inl p)
      | Some (Inr (False, written', _, r')) \<Rightarrow> Some (Inr (ys @ [FailedStatus written' total_sz (Some InvalidBlock)], None, r'))
      | Some (Inr (True, written', a', r')) \<Rightarrow>
          add_stream api accepts total_sz items written' (ys @ [ProgressStatus written' total_sz]) a' r')"

text \<open>Pinning the added file; the flag of the result tells that the walk over its links waits for a block.\<close>

definition pin_added ::
  "('cid, char) pin_api \<Rightarrow> ('cid, ('cid, 'b list) RBlock) ipld_api \<Rightarrow> nat \<Rightarrow> 'cid \<Rightarrow> ('cid, 'peer, 'b list) Repo \<Rightarrow>
   (bool \<times> ('cid, 'peer, 'b list) Repo) checked option" where
  "pin_added pa ia ch cid r =
     (if Repo_is_pinned pa cid r then Some (Inr (False, r))
      else case Repo_insert_pin pa ia ch cid True True r of
             None \<Rightarrow> None
           | Some (PinDone _, r') \<Rightarrow> Some (Inr (False, r'))
           | Some (PinWaiting, r') \<Rightarrow> Some (Inr (True, r'))
           | Some (PinPanicked p, r') \<Rightarrow> Some (Inl p))"

definition finish_add ::
  "('cid, 'b) unixfs_api \<Rightarrow> ('cid, char) pin_api \<Rightarrow> ('cid, ('cid, 'b list) RBlock) ipld_api \<Rightarrow> nat \<Rightarrow> ('cid \<Rightarrow> 'b list \<Rightarrow> bool) \<Rightarrow>
   nat option \<Rightarrow> AddOption option \<Rightarrow> nat \<Rightarrow> ('cid, 'peer) UnixfsStatus list \<Rightarrow> ('cid, 'b) FileAdder \<Rightarrow> ('cid, 'peer, 'b list) Repo \<Rightarrow>
   (('cid, 'peer) UnixfsStatus list \<times> ('cid, 'peer, 'b list) Repo) checked option" where
  "finish_add api pa ia ch accepts total_sz opt written ys a r =
     (case FileAdder_finish api a of
        None \<Rightarrow> None
      | Some (Inl p) \<Rightarrow> Some (Inl p)
      | Some (Inr blocks) \<Rightarrow>
          (case put_blocks accepts blocks r of
             (False, r1) \<Rightarrow> Some (Inr (ys @ [FailedStatus written total_sz (Some InvalidBlock)], r1))
           | (True, r1) \<Rightarrow>
               (if blocks = [] then Some (Inr (ys @ [FailedStatus written total_sz None], r1))
                else let cid = fst (last blocks); done = ys @ [CompletedStatus (IpfsPath_new (Ipld cid)) written total_sz]
                     in case opt of
                          Some op \<Rightarrow>
                            (if opt_pin op
                             then case pin_added pa ia ch cid r1 of
                                    None \<Rightarrow> None
                                  | Some (Inl p) \<Rightarrow> Some (Inl p)
                                  | Some (Inr (waiting, r2)) \<Rightarrow> Some (Inr (if waiting then ys else done, r2))
                             else Some (Inr (done, r1)))
                        | None \<Rightarrow> Some (Inr (done, r1)))))"

definition chunker_of :: "AddOption option \<Rightarrow> Chunker" where
  "chunker_of opt =
     (case opt of Some op \<Rightarrow> (case opt_chunk op of Some c \<Rightarrow> c | None \<Rightarrow> Chunker_default) | None \<Rightarrow> Chunker_default)"

definition unixfs_add ::
  "('cid, 'b) unixfs_api \<Rightarrow> ('cid, char) pin_api \<Rightarrow> ('cid, ('cid, 'b list) RBlock) ipld_api \<Rightarrow> nat \<Rightarrow> ('cid \<Rightarrow> 'b list \<Rightarrow> bool) \<Rightarrow>
   nat option \<Rightarrow> 'b list option list \<Rightarrow> AddOption option \<Rightarrow> ('cid, 'peer, 'b list) Repo \<Rightarrow>
   (('cid, 'peer) UnixfsStatus list \<times> ('cid, 'peer, 'b list) Repo) checked option" where
  "unixfs_add api pa ia ch accepts total_sz items opt r =
     (case add_stream api accepts total_sz items 0 [ProgressStatus 0 total_sz]
         (FileAdder_build (chunker_of opt) BalancedCollector_default) r of
        None \<Rightarrow> None
      | Some (Inl p) \<Rightarrow> Some (Inl p)
      | Some (Inr (ys, None, r')) \<Rightarrow> Some (Inr (ys, r'))
      | Some (Inr (ys, Some (written, a), r')) \<Rightarrow> finish_add api pa ia ch accepts total_sz opt written ys a r')"

section \<open>Reading\<close>

datatype ('cid, 'b) TraversalFailed = Loading 'cid "'cid repo_error" | Walking 'cid "'b FileReadFailed"

datatype 'cid cat_end = CatEnded | CatWaiting 'cid | CatPanicked panic

partial_function (option) cat_loop ::
  "('cid, 'b) unixfs_api \<Rightarrow> nat \<Rightarrow> nat option \<Rightarrow> 'peer list \<Rightarrow> bool \<Rightarrow> (nat \<Rightarrow> ('cid, 'peer, 'b list) Repo) \<Rightarrow> nat \<Rightarrow>
   'cid FileVisit \<Rightarrow> (('cid, 'b) TraversalFailed + 'b list) list \<Rightarrow> ((('cid, 'b) TraversalFailed + 'b list) list \<times> 'cid cat_end) option" where
  "cat_loop api ch session providers local_only repos k v ys =
     (case pending_links v of
        Inl p \<Rightarrow> Some (ys, CatPanicked p)
      | Inr (cid, _) \<Rightarrow>
          (case fst (get_block_with_session ch session cid providers local_only (repos k)) of
             GetFailed e \<Rightarrow> Some (ys @ [Inl (Loading cid e)], CatEnded)
           | GetWaiting \<Rightarrow> Some (ys, CatWaiting cid)
           | GotBlock block \<Rightarrow>
               (case FileVisit_continue_walk api (rb_data block) v of
                  Inl p \<Rightarrow> Some (ys, CatPanicked p)
                | Inr (Inl e) \<Rightarrow> Some (ys @ [Inl (Walking (rb_cid block) e)], CatEnded)
                | Inr (Inr (bytes, next_visit)) \<Rightarrow>
                    (let ys' = (if bytes \<noteq> [] then ys @ [Inr bytes] else ys)
                     in case next_visit of
                          None \<Rightarrow> Some (ys', CatEnded)
                        | Some v' \<Rightarrow> cat_loop api ch session providers local_only repos (k + 1) v' ys'))))"

text \<open>Reading from a starting block; an error in it is returned before the stream.\<close>

definition unixfs_cat ::
  "('cid, 'b) unixfs_api \<Rightarrow> nat \<Rightarrow> nat option \<Rightarrow> (nat \<times> nat) option \<Rightarrow> 'peer list \<Rightarrow> bool \<Rightarrow> (nat \<Rightarrow> ('cid, 'peer, 'b list) Repo) \<Rightarrow>
   ('cid, 'b list) RBlock \<Rightarrow>
   (('cid, 'b) TraversalFailed + ((('cid, 'b) TraversalFailed + 'b list) list \<times> 'cid cat_end)) checked option" where
  "unixfs_cat api ch session rng providers local_only repos block =
     (case IdleFileVisit_start api rng (rb_data block) of
        Inl p \<Rightarrow> Some (Inl p)
      | Inr (Inl e) \<Rightarrow> Some (Inr (Inl (Walking (rb_cid block) e)))
      | Inr (Inr (bytes, _, _, visit)) \<Rightarrow>
          (let ys = (if bytes \<noteq> [] then [Inr bytes] else [])
           in case visit of
                None \<Rightarrow> Some (Inr (Inr (ys, CatEnded)))
              | Some v \<Rightarrow> map_option (\<lambda>z. Inr (Inr z)) (cat_loop api ch session providers local_only repos 0 v ys)))"

section \<open>Reading gives the bytes of the tree\<close>

text \<open>The blocks of a set are in the repository.\<close>

definition holds_blocks :: "('cid \<times> 'b list) set \<Rightarrow> ('cid, 'peer, 'b list) Repo \<Rightarrow> bool" where
  "holds_blocks E r \<longleftrightarrow> (\<forall>(c, v) \<in> E. \<exists>b. get_block_now c r = Some b \<and> rb_data b = v)"

fun blocks_in :: "'b ftree \<Rightarrow> nat" where
  "blocks_in (Leaf bs) = 1"
| "blocks_in (Node ts) = 1 + sum_list (map blocks_in ts)"

definition blocks_left :: "('cid, 'b) entry list \<Rightarrow> nat" where
  "blocks_left es = sum_list (map (\<lambda>(l, a, t). blocks_in t) es)"

lemma blocks_left_simps [simp]: "blocks_left [] = 0" "blocks_left ((l, a, t) # es) = blocks_in t + blocks_left es" "blocks_left (xs @ ys) = blocks_left xs + blocks_left ys"
  by (simp_all add: blocks_left_def)

lemma blocks_left_filter: "blocks_left (filter P es) \<le> blocks_left es"
  unfolding blocks_left_def by (rule sum_list_filter_le_nat)

lemma blocks_left_kids: "length ls = length ts \<Longrightarrow> blocks_left (kids a ls ts) = sum_list (map blocks_in ts)"
  by (induction a ls ts rule: kids.induct) simp_all

lemma got_block:
  assumes "holds_blocks E r" "(c, v) \<in> E"
  obtains b where "fst (get_block_with_session ch session c providers local_only r) = GotBlock b" "rb_data b = v"
proof -
  obtain b where "get_block_now c r = Some b" "rb_data b = v" using assms by (auto simp: holds_blocks_def)
  then show thesis using that by (simp add: get_block_with_session_def)
qed

lemma cat_loop_reads:
  assumes "unixfs_laws api" "\<And>k. holds_blocks E (repos k)" "visiting api E rng es v"
  shows "\<exists>zs. cat_loop api ch session providers local_only repos k v ys = Some (ys @ map Inr zs, CatEnded) \<and>
    concat zs = bytes_of rng es \<and> [] \<notin> set zs"
  using assms(3)
proof (induction "blocks_left es" arbitrary: es v k ys rule: less_induct)
  case less
  obtain l a t es' where es: "es = (l, a, t) # es'" using less.prems by (cases es) (auto simp: visiting_def)
  have pl: "pending_links v = Inr (target l, map (fst \<circ> pending_entry) es')"
    using less.prems by (simp add: es visiting_def pending_links_def pending_entry_def rev_map)
  have "stored api E l t" using less.prems by (simp add: es visiting_def)
  then show ?case
  proof cases
    case (stored_leaf bs)
    obtain b where b: "fst (get_block_with_session ch session (target l) providers local_only (repos k)) = GotBlock b"
      "rb_data b = flat_write api (leaf_flat bs)" using got_block [OF assms(2) stored_leaf(2)] by metis
    obtain v' where v': "FileVisit_continue_walk api (flat_write api (leaf_flat bs)) v =
        Inr (Inr (clip rng a bs, if es' = [] then None else Some v'))" "es' \<noteq> [] \<longrightarrow> visiting api E rng es' v'"
      using continue_walk_leaf [OF assms(1)] less.prems by (metis es stored_leaf(1))
    define ys' where "ys' = (if clip rng a bs \<noteq> [] then ys @ [Inr (clip rng a bs)] else ys)"
    have zs: "ys' = ys @ map Inr (if clip rng a bs = [] then [] else [clip rng a bs])" by (simp add: ys'_def)
    show ?thesis
    proof (cases "es' = []")
      case True
      have "cat_loop api ch session providers local_only repos k v ys = Some (ys', CatEnded)"
        by (subst cat_loop.simps) (simp add: pl b v'(1) True ys'_def)
      then show ?thesis
        using es True stored_leaf(1) unfolding zs
        by (intro exI [of _ "if clip rng a bs = [] then [] else [clip rng a bs]"]) simp
    next
      case False
      have eq: "cat_loop api ch session providers local_only repos k v ys =
          cat_loop api ch session providers local_only repos (k + 1) v' ys'"
        by (subst cat_loop.simps) (simp add: pl b v'(1) False ys'_def)
      obtain zs' where ih: "cat_loop api ch session providers local_only repos (k + 1) v' ys' = Some (ys' @ map Inr zs', CatEnded)"
        "concat zs' = bytes_of rng es'" "[] \<notin> set zs'"
        using less.hyps [of es' v' "k + 1" ys'] v'(2) False es stored_leaf(1) by auto
      then show ?thesis
        using es stored_leaf(1) unfolding eq zs
        by (intro exI [of _ "(if clip rng a bs = [] then [] else [clip rng a bs]) @ zs'"]) simp
    qed
  next
    case (stored_node ls ts)
    obtain b where b: "fst (get_block_with_session ch session (target l) providers local_only (repos k)) = GotBlock b"
      "rb_data b = flat_write api (node_flat api ls)" using got_block [OF assms(2) stored_node(4)] by metis
    obtain v' where v': "FileVisit_continue_walk api (flat_write api (node_flat api ls)) v = Inr (Inr ([], Some v'))"
      "visiting api E rng (filter (in_target rng) (kids a ls ts) @ es') v'"
      using continue_walk_node [OF assms(1) _ stored_node(2,3)] less.prems by (metis es stored_node(1))
    have len: "length ls = length ts" using stored_node(2) by (rule list_all2_lengthD)
    have eq: "cat_loop api ch session providers local_only repos k v ys =
        cat_loop api ch session providers local_only repos (k + 1) v' ys"
      by (subst cat_loop.simps) (simp add: pl b v'(1))
    have "blocks_left (filter (in_target rng) (kids a ls ts) @ es') < blocks_left es"
      using blocks_left_filter [of "in_target rng" "kids a ls ts"] blocks_left_kids [OF len, of a] es stored_node(1) by simp
    then show ?thesis
      using less.hyps [OF _ v'(2), of "k + 1" ys] es stored_node(1) len unfolding eq
      by (simp add: bytes_of_filter bytes_of_kids)
  qed
qed

theorem unixfs_cat_reads:
  assumes "unixfs_laws api" "\<And>k. holds_blocks E (repos k)" "stored api E rl t" "length (content t) < 2 ^ 64"
    and "(target rl, rb_data block) \<in> E" "\<And>v. (target rl, v) \<in> E \<Longrightarrow> v = rb_data block"
  shows "\<exists>zs. unixfs_cat api ch session rng providers local_only repos block = Some (Inr (Inr (map Inr zs, CatEnded))) \<and>
    concat zs = clip rng 0 (content t) \<and> [] \<notin> set zs"
  using assms(3)
proof cases
  case (stored_leaf bs)
  have d: "rb_data block = flat_write api (leaf_flat bs)" using assms(6) stored_leaf(2) by metis
  have "unixfs_cat api ch session rng providers local_only repos block =
      Some (Inr (Inr (map Inr (if clip rng 0 bs = [] then [] else [clip rng 0 bs]), CatEnded)))"
    using start_leaf [OF assms(1)] assms(4) stored_leaf(1) by (simp add: unixfs_cat_def d)
  then show ?thesis using stored_leaf(1) by (intro exI [of _ "if clip rng 0 bs = [] then [] else [clip rng 0 bs]"]) simp
next
  case (stored_node ls ts)
  have d: "rb_data block = flat_write api (node_flat api ls)" using assms(6) stored_node(4) by metis
  have len: "length ls = length ts" using stored_node(2) by (rule list_all2_lengthD)
  define ks where "ks = filter (in_target rng) (kids 0 ls ts)"
  obtain m v where s: "IdleFileVisit_start api rng (flat_write api (node_flat api ls)) =
      Inr (Inr ([], length (contents ts), m, if ks = [] then None else Some v))" "ks \<noteq> [] \<longrightarrow> visiting api E rng ks v"
    using start_node [OF assms(1) stored_node(2,3), of rng] assms(4) stored_node(1) unfolding ks_def by auto
  have out: "bytes_of rng ks = clip rng 0 (content t)" using bytes_of_kids [OF len] by (simp add: ks_def bytes_of_filter stored_node(1))
  show ?thesis
  proof (cases "ks = []")
    case True
    then have "unixfs_cat api ch session rng providers local_only repos block = Some (Inr (Inr (map Inr [], CatEnded)))"
      using s(1) by (simp add: unixfs_cat_def d)
    then show ?thesis using out True by (intro exI [of _ "[]"]) simp
  next
    case False
    then show ?thesis
      using cat_loop_reads [OF assms(1,2), where v = v and es = ks and rng = rng and k = 0 and ys = "[]"] s out
      by (auto simp: unixfs_cat_def d)
  qed
qed

section \<open>Adding stores the tree\<close>

text \<open>A block that is stored under a hash of the adder is the block with that hash; blocks under other cids may be anything.\<close>

definition content_addressed :: "('cid, 'b) unixfs_api \<Rightarrow> ('cid, 'peer, 'b list) Repo \<Rightarrow> bool" where
  "content_addressed api r \<longleftrightarrow> (\<forall>v b. get_block_now (hash_block api v) r = Some b \<longrightarrow> rb_data b = v)"

definition keeps_blocks :: "('cid, 'peer, 'b list) Repo \<Rightarrow> ('cid, 'peer, 'b list) Repo \<Rightarrow> bool" where
  "keeps_blocks r r' \<longleftrightarrow> (\<forall>c b. get_block_now c r = Some b \<longrightarrow> get_block_now c r' = Some b)"

lemma keeps_blocks_refl [simp]: "keeps_blocks r r"
  by (simp add: keeps_blocks_def)

lemma keeps_blocks_trans: "keeps_blocks r r1 \<Longrightarrow> keeps_blocks r1 r2 \<Longrightarrow> keeps_blocks r r2"
  by (simp add: keeps_blocks_def)

lemma holds_blocks_keep: "holds_blocks E r \<Longrightarrow> keeps_blocks r r' \<Longrightarrow> holds_blocks E r'"
  unfolding holds_blocks_def keeps_blocks_def by fast

lemma get_after_put:
  "get_block_now c (snd (snd (put_block b r))) =
     (if c = rb_cid b \<and> get_block_now c r = None then Some b else get_block_now c r)"
  by (auto simp: put_block_def bs_put_def get_block_now_def bs_get_def update_conv Let_def split: option.splits)

text \<open>
  What the theorems on adding assume of the code outside: \<open>Block::new\<close> accepts the hash of a block, and no two blocks
  have the same hash.
\<close>

definition hash_laws :: "('cid, 'b) unixfs_api \<Rightarrow> ('cid \<Rightarrow> 'b list \<Rightarrow> bool) \<Rightarrow> bool" where
  "hash_laws api accepts \<longleftrightarrow>
     (\<forall>v. accepts (hash_block api v) v) \<and> (\<forall>v w. hash_block api v = hash_block api w \<longrightarrow> v = w)"

lemma put_blocks_stores:
  assumes "hash_laws api accepts" "hashed api blks" "content_addressed api r"
  shows "\<exists>r'. put_blocks accepts blks r = (True, r') \<and> content_addressed api r' \<and> holds_blocks (set blks) r' \<and> keeps_blocks r r'"
  using assms(2,3)
proof (induction blks arbitrary: r)
  case (Cons b blks)
  obtain c v where b: "b = (c, v)" by (cases b)
  define r1 where "r1 = snd (snd (put_block \<lparr>rb_cid = c, rb_data = v\<rparr> r))"
  have c: "c = hash_block api v" "accepts c v" using Cons.prems(1) assms(1) b by (auto simp: hash_laws_def)
  have get: "get_block_now d r1 = (if d = c \<and> get_block_now d r = None then Some \<lparr>rb_cid = c, rb_data = v\<rparr> else get_block_now d r)" for d
    by (simp add: r1_def get_after_put)
  have k: "keeps_blocks r r1" by (simp add: keeps_blocks_def get)
  have ca: "content_addressed api r1"
    using Cons.prems(2) c(1) assms(1) by (auto simp: content_addressed_def hash_laws_def get split: if_splits)
  have h: "\<exists>b. get_block_now c r1 = Some b \<and> rb_data b = v"
    using Cons.prems(2) c(1) by (cases "get_block_now c r") (auto simp: get content_addressed_def)
  obtain r' where r': "put_blocks accepts blks r1 = (True, r')" "content_addressed api r'" "holds_blocks (set blks) r'" "keeps_blocks r1 r'"
    using Cons.IH [OF _ ca] Cons.prems(1) by auto
  have "holds_blocks {(c, v)} r1" using h by (simp add: holds_blocks_def)
  then have "holds_blocks {(c, v)} r'" using r'(4) by (rule holds_blocks_keep)
  then show ?case using r' c(2) k keeps_blocks_trans b by (auto simp: r1_def holds_blocks_def)
qed (simp add: holds_blocks_def)

definition adding ::
  "('cid, 'b) unixfs_api \<Rightarrow> nat \<Rightarrow> ('cid \<times> 'b list) set \<Rightarrow> 'b list \<Rightarrow> ('cid, 'b) FileAdder \<Rightarrow> ('cid, 'peer, 'b list) Repo \<Rightarrow> bool" where
  "adding api n E pushed a r \<longleftrightarrow>
     adder_inv api E pushed a \<and> chunker a = Size n \<and> branching_factor a = BalancedCollector_default \<and>
     content_addressed api r \<and> holds_blocks E r \<and> (\<forall>(c, v) \<in> E. c = hash_block api v)"

lemma add_buffer_stores:
  assumes "hash_laws api accepts" "adding api n E pushed a r"
  shows "\<exists>E' a' r'. add_buffer api accepts buf written a r = Some (Inr (True, written + length buf, a', r')) \<and>
    adding api n E' (pushed @ buf) a' r' \<and> keeps_blocks r r'"
  using assms(2)
proof (induction "length buf" arbitrary: buf E pushed a r written rule: less_induct)
  case less
  show ?case
  proof (cases "buf = []")
    case True
    then show ?thesis using less.prems by (subst add_buffer.simps) auto
  next
    case False
    obtain blks m a' where p: "FileAdder_push api buf a = Some (Inr (blks, m, a'))" "0 < m" "m \<le> length buf" "hashed api blks"
      "adder_inv api (E \<union> set blks) (pushed @ take m buf) a'" "chunker a' = chunker a" "branching_factor a' = branching_factor a"
      using FileAdder_push_correct [OF _ False] less.prems unfolding adding_def by blast
    obtain r1 where r1: "put_blocks accepts blks r = (True, r1)" "content_addressed api r1" "holds_blocks (set blks) r1" "keeps_blocks r r1"
      using put_blocks_stores [OF assms(1) p(4)] less.prems unfolding adding_def by blast
    have "holds_blocks E r1" using less.prems r1(4) holds_blocks_keep by (auto simp: adding_def)
    then have ad: "adding api n (E \<union> set blks) (pushed @ take m buf) a' r1"
      using less.prems p(4-7) r1(2,3) by (auto simp: adding_def holds_blocks_def hashed_def list_all_iff)
    have lt: "length (drop m buf) < length buf" using p(2,3) by simp
    obtain E' a2 r2 where ih: "add_buffer api accepts (drop m buf) (written + m) a' r1 =
        Some (Inr (True, (written + m) + length (drop m buf), a2, r2))" "adding api n E' ((pushed @ take m buf) @ drop m buf) a2 r2"
        "keeps_blocks r1 r2"
      using less.hyps [OF lt ad, of "written + m"] by (elim exE conjE)
    have "add_buffer api accepts buf written a r = add_buffer api accepts (drop m buf) (written + m) a' r1"
      using False p(1) r1(1) by (subst add_buffer.simps) simp
    then show ?thesis
      using ih p(3) keeps_blocks_trans [OF r1(4) ih(3)] by (intro exI [of _ E'] exI [of _ a2] exI [of _ r2]) simp
  qed
qed

lemma add_stream_stores:
  assumes "hash_laws api accepts" "adding api n E pushed a r"
  shows "\<exists>E' ys' a' r'. add_stream api accepts total_sz (map Some bufs) written ys a r =
      Some (Inr (ys @ ys', Some (written + length (concat bufs), a'), r')) \<and>
    adding api n E' (pushed @ concat bufs) a' r' \<and> keeps_blocks r r'"
  using assms(2)
proof (induction bufs arbitrary: E pushed a r written ys)
  case Nil
  then show ?case by auto
next
  case (Cons buf bufs)
  obtain E1 a1 r1 where b: "add_buffer api accepts buf written a r = Some (Inr (True, written + length buf, a1, r1))"
    "adding api n E1 (pushed @ buf) a1 r1" "keeps_blocks r r1"
    using add_buffer_stores [OF assms(1) Cons.prems, of buf written] by (elim exE conjE)
  obtain E2 ys2 a2 r2 where s: "add_stream api accepts total_sz (map Some bufs) (written + length buf)
      (ys @ [ProgressStatus (written + length buf) total_sz]) a1 r1 =
      Some (Inr ((ys @ [ProgressStatus (written + length buf) total_sz]) @ ys2, Some ((written + length buf) + length (concat bufs), a2), r2))"
    "adding api n E2 ((pushed @ buf) @ concat bufs) a2 r2" "keeps_blocks r1 r2"
    using Cons.IH [OF b(2), of "written + length buf" "ys @ [ProgressStatus (written + length buf) total_sz]"] by (elim exE conjE)
  show ?case
    using b(1) s keeps_blocks_trans [OF b(3) s(3)]
    by (intro exI [of _ E2] exI [of _ "ProgressStatus (written + length buf) total_sz # ys2"] exI [of _ a2] exI [of _ r2]) (simp add: add.assoc)
qed

text \<open>A tree whose blocks are in the repository can be read as long as they stay.\<close>

lemma stored_file_readable:
  assumes "unixfs_laws api" "hash_laws api accepts" "holds_blocks E r" "\<forall>(c, v) \<in> E. c = hash_block api v" "stored api E rl t"
    and "length (content t) < 2 ^ 64"
  shows "\<exists>block. get_block_now (target rl) r = Some block \<and>
    (\<forall>repos ch session rng providers local_only. (\<forall>k. keeps_blocks r (repos k)) \<longrightarrow>
      (\<exists>zs. unixfs_cat api ch session rng providers local_only repos block = Some (Inr (Inr (map Inr zs, CatEnded))) \<and>
        concat zs = clip rng 0 (content t)))"
proof -
  obtain v where v: "(target rl, v) \<in> E" using assms(5) by cases auto
  obtain block where b: "get_block_now (target rl) r = Some block" "rb_data block = v"
    using bspec [OF assms(3) [unfolded holds_blocks_def] v] by auto
  have uniq: "w = rb_data block" if "(target rl, w) \<in> E" for w
  proof -
    have "hash_block api w = hash_block api v" using bspec [OF assms(4) that] bspec [OF assms(4) v] by simp
    then show ?thesis using assms(2) b(2) by (simp add: hash_laws_def)
  qed
  have "\<exists>zs. unixfs_cat api ch session rng providers local_only repos block = Some (Inr (Inr (map Inr zs, CatEnded))) \<and>
      concat zs = clip rng 0 (content t)" if "\<forall>k. keeps_blocks r (repos k)" for repos ch session rng providers local_only
  proof -
    have hk: "\<And>k. holds_blocks E (repos k)" using holds_blocks_keep [OF assms(3)] that by blast
    have "\<exists>zs. unixfs_cat api ch session rng providers local_only repos block = Some (Inr (Inr (map Inr zs, CatEnded))) \<and>
      concat zs = clip rng 0 (content t) \<and> [] \<notin> set zs"
    proof (rule unixfs_cat_reads [OF assms(1) _ assms(5,6)])
      show "\<And>k. holds_blocks E (repos k)" by (rule hk)
      show "\<And>w. (target rl, w) \<in> E \<Longrightarrow> w = rb_data block" by (rule uniq)
      show "(target rl, rb_data block) \<in> E" using v b(2) by simp
    qed
    then show ?thesis by blast
  qed
  then show ?thesis using b(1) by blast
qed

lemma unixfs_add_stream:
  assumes "hash_laws api accepts" "content_addressed api r" "chunker_of opt = Size n" "n > 0"
  shows "\<exists>E ys a r'. adding api n E (concat bufs) a r' \<and> keeps_blocks r r' \<and>
    unixfs_add api pa ia ch accepts total_sz (map Some bufs) opt r =
      finish_add api pa ia ch accepts total_sz opt (length (concat bufs)) ys a r'"
proof -
  define a0 :: "('a, 'b) FileAdder" where "a0 = FileAdder_build (Size n) BalancedCollector_default"
  have "adding api n {} [] a0 r"
    using assms(2,4) adder_inv_build [of n BalancedCollector_default api "{}"]
    by (simp add: adding_def a0_def FileAdder_build_def BalancedCollector_default_def holds_blocks_def)
  then obtain E ys a r' where s: "add_stream api accepts total_sz (map Some bufs) 0 [ProgressStatus 0 total_sz] a0 r =
      Some (Inr ([ProgressStatus 0 total_sz] @ ys, Some (0 + length (concat bufs), a), r'))"
    "adding api n E ([] @ concat bufs) a r'" "keeps_blocks r r'"
    using add_stream_stores [OF assms(1), of n "{}" "[]" a0 r total_sz bufs 0 "[ProgressStatus 0 total_sz]"] by auto
  have "unixfs_add api pa ia ch accepts total_sz (map Some bufs) opt r =
      finish_add api pa ia ch accepts total_sz opt (length (concat bufs)) ([ProgressStatus 0 total_sz] @ ys) a r'"
    using s(1) assms(3) by (simp add: unixfs_add_def a0_def)
  then show ?thesis using s(2,3) by auto
qed

text \<open>A sample of the messages: a byte is a number or a whole message, and the cid of a block is the block.\<close>

datatype sample_byte =
    Plain nat
  | NodeMessage "(sample_byte list option \<times> string option \<times> nat option) list" "sample_byte list"
  | DataMessage UnixFsType "sample_byte list option" "nat option" "nat list" "nat option \<times> nat option \<times> nat option \<times> (int \<times> nat option) option"

definition sample_unixfs :: "(sample_byte list, sample_byte) unixfs_api" where
  "sample_unixfs =
     \<lparr>pbnode_write = (\<lambda>ls d. [NodeMessage (map (\<lambda>l. (Hash l, Name l, Tsize l)) ls) d]),
      pbnode_read = (\<lambda>bs. case bs of
        [NodeMessage ls d] \<Rightarrow> Some (map (\<lambda>(h, n, t). \<lparr>Hash = h, Name = n, Tsize = t\<rparr>) ls, Some d) | _ \<Rightarrow> None),
      data_write = (\<lambda>u. [DataMessage (Type u) (Data u) (filesize u) (blocksizes u) (hashType u, fanout u, mode u, mtime u)]),
      data_read = (\<lambda>bs. case bs of
        [DataMessage t d f b (h, fa, m, mt)] \<Rightarrow>
          Some \<lparr>Type = t, Data = d, filesize = f, blocksizes = b, hashType = h, fanout = fa, mode = m, mtime = mt\<rparr>
      | _ \<Rightarrow> None),
      hash_block = (\<lambda>bs. bs), ucid_to_bytes = (\<lambda>bs. bs), ucid_try_from = Some\<rparr>"

lemma sample_unixfs_laws: "unixfs_laws sample_unixfs" "hash_laws sample_unixfs (=)"
  by (simp_all add: unixfs_laws_def hash_laws_def sample_unixfs_def map_idI)

lemma new_memory_content_addressed: "content_addressed api Repo_new_memory"
  by (simp add: content_addressed_def Repo_new_memory_def get_block_now_def bs_get_def)

text \<open>C1: Adding a file and reading it. Let the chunk size be positive, let the file not be pinned while it is added, and let every
  block that the repository has under a hash of the adder be the block with that hash. Unless the file is exactly one chunk
  long, adding it completes with a path and loses no block; whatever other tasks then do to the repository as long as its
  blocks stay, reading the path gives the bytes of the file in the target range.
\<close>

theorem add_then_cat:
  assumes "unixfs_laws api" "hash_laws api accepts" "content_addressed api r" "chunker_of opt = Size n" "n > 0"
    and "case opt of Some op \<Rightarrow> \<not> opt_pin op | None \<Rightarrow> True" "length (concat bufs) \<noteq> n" "length (concat bufs) < 2 ^ 64"
  shows "\<exists>ys cid block r'. unixfs_add api pa ia ch accepts total_sz (map Some bufs) opt r =
      Some (Inr (ys @ [CompletedStatus (IpfsPath_new (Ipld cid)) (length (concat bufs)) total_sz], r')) \<and>
    keeps_blocks r r' \<and> get_block_now cid r' = Some block \<and>
    (\<forall>repos ch' session rng providers local_only. (\<forall>k. keeps_blocks r' (repos k)) \<longrightarrow>
      (\<exists>zs. unixfs_cat api ch' session rng providers local_only repos block = Some (Inr (Inr (map Inr zs, CatEnded))) \<and>
        concat zs = clip rng 0 (concat bufs)))"
proof -
  obtain E ys a r1 where s: "adding api n E (concat bufs) a r1" "keeps_blocks r r1"
    "unixfs_add api pa ia ch accepts total_sz (map Some bufs) opt r =
      finish_add api pa ia ch accepts total_sz opt (length (concat bufs)) ys a r1"
    using unixfs_add_stream [OF assms(2-5)] by blast
  have bf: "branching_factor a \<ge> 2" using s(1) by (simp add: adding_def BalancedCollector_default_def)
  obtain blks rl t where f: "FileAdder_finish api a = Some (Inr blks)" "hashed api blks" "stored api (E \<union> set blks) rl t"
    "content t = concat bufs" "blks \<noteq> [] \<longrightarrow> fst (last blks) = target rl" "blks = [] \<longleftrightarrow> length (concat bufs) = n"
    using FileAdder_finish_correct [OF _ bf, of api E "concat bufs"] s(1) unfolding adding_def by auto
  obtain r2 where p: "put_blocks accepts blks r1 = (True, r2)" "content_addressed api r2" "holds_blocks (set blks) r2" "keeps_blocks r1 r2"
    using put_blocks_stores [OF assms(2) f(2)] s(1) unfolding adding_def by blast
  have "holds_blocks E r2" using s(1) p(4) holds_blocks_keep by (auto simp: adding_def)
  then have h: "holds_blocks (E \<union> set blks) r2" using p(3) by (auto simp: holds_blocks_def)
  have hs: "\<forall>(c, v) \<in> E \<union> set blks. c = hash_block api v"
    using s(1) f(2) by (auto simp: adding_def hashed_def list_all_iff)
  have "length (content t) < 2 ^ 64" using f(4) assms(8) by simp
  note rd = stored_file_readable [OF assms(1,2) h hs f(3) this, unfolded f(4)]
  have "unixfs_add api pa ia ch accepts total_sz (map Some bufs) opt r =
      Some (Inr (ys @ [CompletedStatus (IpfsPath_new (Ipld (target rl))) (length (concat bufs)) total_sz], r2))"
    using s(3) f(1,5,6) p(1) assms(6,7) by (cases opt) (simp_all add: finish_add_def Let_def)
  with rd keeps_blocks_trans [OF s(2) p(4)] show ?thesis by blast
qed

theorem add_then_cat_witness:
  "\<forall>pa ia. \<exists>ys cid block r'. unixfs_add sample_unixfs pa ia 0 (=) None (map Some [[Plain 1, Plain 2, Plain 3], [Plain 4, Plain 5]])
      (Some \<lparr>opt_chunk = Some (Size 2), opt_pin = False\<rparr>) (Repo_new_memory :: (sample_byte list, nat, sample_byte list) Repo) =
      Some (Inr (ys @ [CompletedStatus (IpfsPath_new (Ipld cid)) (length (concat [[Plain 1, Plain 2, Plain 3], [Plain 4, Plain 5]])) None], r')) \<and>
    get_block_now cid r' = Some block \<and>
    (\<exists>zs. unixfs_cat sample_unixfs 0 None (Some (1, 4)) [] True (\<lambda>_. r') block = Some (Inr (Inr (map Inr zs, CatEnded))) \<and>
      concat zs = [Plain 2, Plain 3, Plain 4])"
proof (intro allI)
  fix pa :: "(sample_byte list, char) pin_api" and ia :: "(sample_byte list, (sample_byte list, sample_byte list) RBlock) ipld_api"
  let ?bufs = "[[Plain 1, Plain 2, Plain 3], [Plain 4, Plain 5]]"
  let ?opt = "Some \<lparr>opt_chunk = Some (Size 2), opt_pin = False\<rparr>"
  have h: "chunker_of ?opt = Size 2" "case ?opt of Some op \<Rightarrow> \<not> opt_pin op | None \<Rightarrow> True" by (simp_all add: chunker_of_def)
  have n: "(2 :: nat) > 0" "length (concat ?bufs) \<noteq> 2" "length (concat ?bufs) < 2 ^ 64" by simp_all
  obtain ys cid block and r' :: "(sample_byte list, nat, sample_byte list) Repo" where
    a: "unixfs_add sample_unixfs pa ia 0 (=) None (map Some ?bufs) ?opt Repo_new_memory =
      Some (Inr (ys @ [CompletedStatus (IpfsPath_new (Ipld cid)) (length (concat ?bufs)) None], r'))"
      "get_block_now cid r' = Some block"
      "\<forall>repos ch' session rng providers local_only. (\<forall>k. keeps_blocks r' (repos k)) \<longrightarrow>
        (\<exists>zs. unixfs_cat sample_unixfs ch' session rng providers local_only repos block = Some (Inr (Inr (map Inr zs, CatEnded))) \<and>
          concat zs = clip rng 0 (concat ?bufs))"
    using add_then_cat [OF sample_unixfs_laws new_memory_content_addressed h(1) n(1) h(2) n(2,3), of pa ia 0 None] by (elim exE conjE)
  have "\<exists>zs. unixfs_cat sample_unixfs 0 None (Some (1, 4)) [] True (\<lambda>_. r') block = Some (Inr (Inr (map Inr zs, CatEnded))) \<and>
      concat zs = clip (Some (1, 4)) 0 (concat ?bufs)" by (rule a(3) [rule_format]) simp
  then have "\<exists>zs. unixfs_cat sample_unixfs 0 None (Some (1, 4)) [] True (\<lambda>_. r') block = Some (Inr (Inr (map Inr zs, CatEnded))) \<and>
      concat zs = [Plain 2, Plain 3, Plain 4]" by simp
  with a(1,2) have "unixfs_add sample_unixfs pa ia 0 (=) None (map Some ?bufs) ?opt Repo_new_memory =
      Some (Inr (ys @ [CompletedStatus (IpfsPath_new (Ipld cid)) (length (concat ?bufs)) None], r')) \<and>
    get_block_now cid r' = Some block \<and>
    (\<exists>zs. unixfs_cat sample_unixfs 0 None (Some (1, 4)) [] True (\<lambda>_. r') block = Some (Inr (Inr (map Inr zs, CatEnded))) \<and>
      concat zs = [Plain 2, Plain 3, Plain 4])" by (intro conjI)
  then show "\<exists>ys cid block r'. unixfs_add sample_unixfs pa ia 0 (=) None (map Some ?bufs) ?opt
      (Repo_new_memory :: (sample_byte list, nat, sample_byte list) Repo) =
      Some (Inr (ys @ [CompletedStatus (IpfsPath_new (Ipld cid)) (length (concat ?bufs)) None], r')) \<and>
    get_block_now cid r' = Some block \<and>
    (\<exists>zs. unixfs_cat sample_unixfs 0 None (Some (1, 4)) [] True (\<lambda>_. r') block = Some (Inr (Inr (map Inr zs, CatEnded))) \<and>
      concat zs = [Plain 2, Plain 3, Plain 4])" by (intro exI)
qed

text \<open>C20: A file of exactly one chunk cannot be added: adding it ends with a failure that has no error. Yet the file has been
  stored before \<open>finish\<close>, which has no block left to return: no block is lost, and the repository has a block from which the
  bytes of the file are read in every target range, whatever other tasks do to the repository as long as its blocks stay.\<close>

theorem add_of_one_chunk_fails:
  assumes "unixfs_laws api" "hash_laws api accepts" "content_addressed api r" "chunker_of opt = Size n" "n > 0"
    and "length (concat bufs) = n" "n < 2 ^ 64"
  shows "\<exists>ys r' cid block. unixfs_add api pa ia ch accepts total_sz (map Some bufs) opt r =
      Some (Inr (ys @ [FailedStatus n total_sz None], r')) \<and>
    keeps_blocks r r' \<and> get_block_now cid r' = Some block \<and>
    (\<forall>repos ch' session rng providers local_only. (\<forall>k. keeps_blocks r' (repos k)) \<longrightarrow>
      (\<exists>zs. unixfs_cat api ch' session rng providers local_only repos block = Some (Inr (Inr (map Inr zs, CatEnded))) \<and>
        concat zs = clip rng 0 (concat bufs)))"
proof -
  obtain E ys a r1 where s: "adding api n E (concat bufs) a r1" "keeps_blocks r r1"
    "unixfs_add api pa ia ch accepts total_sz (map Some bufs) opt r =
      finish_add api pa ia ch accepts total_sz opt (length (concat bufs)) ys a r1"
    using unixfs_add_stream [OF assms(2-5)] by blast
  have ad: "holds_blocks E r1" "\<forall>(c, v) \<in> E. c = hash_block api v" using s(1) by (simp_all add: adding_def)
  have bf: "branching_factor a \<ge> 2" using s(1) by (simp add: adding_def BalancedCollector_default_def)
  obtain blks rl t where f: "FileAdder_finish api a = Some (Inr blks)" "stored api (E \<union> set blks) rl t"
    "content t = concat bufs" "blks = [] \<longleftrightarrow> length (concat bufs) = n"
    using FileAdder_finish_correct [OF _ bf, of api E "concat bufs"] s(1) unfolding adding_def by auto
  have e: "blks = []" using f(4) assms(6) by simp
  have "length (content t) < 2 ^ 64" using f(3) assms(6,7) by simp
  note rd = stored_file_readable [OF assms(1,2) ad f(2) [unfolded e list.set Un_empty_right] this, unfolded f(3)]
  have "unixfs_add api pa ia ch accepts total_sz (map Some bufs) opt r = Some (Inr (ys @ [FailedStatus n total_sz None], r1))"
    using s(3) assms(6) f(1) e by (simp add: finish_add_def)
  with rd s(2) show ?thesis by blast
qed

theorem add_of_one_chunk_fails_witness:
  "\<forall>pa ia. \<exists>ys r' cid block. unixfs_add sample_unixfs pa ia 0 (=) None (map Some [[Plain 1], [Plain 2]])
      (Some \<lparr>opt_chunk = Some (Size 2), opt_pin = False\<rparr>) (Repo_new_memory :: (sample_byte list, nat, sample_byte list) Repo) =
      Some (Inr (ys @ [FailedStatus 2 None None], r')) \<and>
    get_block_now cid r' = Some block \<and>
    (\<exists>zs. unixfs_cat sample_unixfs 0 None None [] True (\<lambda>_. r') block = Some (Inr (Inr (map Inr zs, CatEnded))) \<and>
      concat zs = [Plain 1, Plain 2])"
proof (intro allI)
  fix pa :: "(sample_byte list, char) pin_api" and ia :: "(sample_byte list, (sample_byte list, sample_byte list) RBlock) ipld_api"
  let ?bufs = "[[Plain 1], [Plain 2]]" and ?opt = "Some \<lparr>opt_chunk = Some (Size 2), opt_pin = False\<rparr>"
  have n: "chunker_of ?opt = Size 2" "(2 :: nat) > 0" "length (concat ?bufs) = 2" "(2 :: nat) < 2 ^ 64" by (simp_all add: chunker_of_def)
  obtain ys cid block and r' :: "(sample_byte list, nat, sample_byte list) Repo" where
    a: "unixfs_add sample_unixfs pa ia 0 (=) None (map Some ?bufs) ?opt Repo_new_memory =
      Some (Inr (ys @ [FailedStatus 2 None None], r'))" "get_block_now cid r' = Some block"
      "\<forall>repos ch' session rng providers local_only. (\<forall>k. keeps_blocks r' (repos k)) \<longrightarrow>
        (\<exists>zs. unixfs_cat sample_unixfs ch' session rng providers local_only repos block = Some (Inr (Inr (map Inr zs, CatEnded))) \<and>
          concat zs = clip rng 0 (concat ?bufs))"
    using add_of_one_chunk_fails [OF sample_unixfs_laws new_memory_content_addressed n, of pa ia 0 None] by (elim exE conjE)
  have "\<exists>zs. unixfs_cat sample_unixfs 0 None None [] True (\<lambda>_. r') block = Some (Inr (Inr (map Inr zs, CatEnded))) \<and>
      concat zs = clip None 0 (concat ?bufs)" by (rule a(3) [rule_format]) simp
  then have "\<exists>zs. unixfs_cat sample_unixfs 0 None None [] True (\<lambda>_. r') block = Some (Inr (Inr (map Inr zs, CatEnded))) \<and>
      concat zs = [Plain 1, Plain 2]" by simp
  with a(1,2) show "\<exists>ys r' cid block. unixfs_add sample_unixfs pa ia 0 (=) None (map Some ?bufs) ?opt
      (Repo_new_memory :: (sample_byte list, nat, sample_byte list) Repo) = Some (Inr (ys @ [FailedStatus 2 None None], r')) \<and>
    get_block_now cid r' = Some block \<and>
    (\<exists>zs. unixfs_cat sample_unixfs 0 None None [] True (\<lambda>_. r') block = Some (Inr (Inr (map Inr zs, CatEnded))) \<and>
      concat zs = [Plain 1, Plain 2])"
    by (intro exI [of _ ys] exI [of _ r'] exI [of _ cid] exI [of _ block] conjI)
qed

text \<open>A chunk size of zero fails the assertion of \<open>push\<close> on the first byte.\<close>

lemma zero_chunk_panics: "buf \<noteq> [] \<Longrightarrow> add_buffer api accepts buf w (FileAdder_build (Size 0) bf) r = Some (Inl AssertFailed)"
  by (subst add_buffer.simps)
    (simp add: FileAdder_push_def FileAdder_build_def checked_sub_def push_ready_def flush_buffered_leaf_def)

end
