(* ===== verification/Spec2Isabelle.thy ===== *)
theory Spec2Isabelle
  imports Ipfs_Prelude Wantlist Session_Wants Block_Presence Session_Interest Peer_Want_Manager Peer_Manager
    Task_Tracker Peer_Task_Queue Bitswap_Message Ipfs_Path Dont_Have_Timeout Message_Queue Pin_Store Ipld_Refs Repo Repo_Pinning Unixfs_Adder Unixfs_Visit
    Unixfs_Files
begin

text \<open>
  This library verifies rust-ipfs, a node of the InterPlanetary File System: content is cut into blocks named by their
  hash (a \<^emph>\<open>cid\<close>), the node stores and pins blocks, and the \<^emph>\<open>bitswap\<close> protocol exchanges them with other
  nodes. Paths below are relative to \<open>src/\<close>; \<open>bitswap\<close> abbreviates
  \<open>packages/beetle-bitswap-next/src\<close>.

  \<^bold>\<open>The program and its model.\<close> A user adds a file, pins a document or asks for a block through the node. The
  repository stores blocks and pins and asks bitswap for blocks it does not have. On the client side of bitswap a session
  collects the wants, the peer manager decides which peer is told what, and one message queue per peer packs the wants
  into messages. On the server side the ledgers record what partners want and the task queue decides what is sent next.

  \<^item> \<open>Ipfs_Prelude\<close>: hash maps as association lists, panics as values (\<open>checked\<close>, with overflow, failed
    assertions, \<open>expect\<close> and out-of-range access), and the locale \<open>component\<close> from which every component
    gets its invariant over all sequences of operations.
  \<^item> \<open>Wantlist\<close>: \<open>bitswap/client/wantlist.rs\<close>, \<open>bitswap/server/ledger.rs\<close> and
    \<open>peer_ledger.rs\<close>. The sorted cache is never stale; merging is a join; the locale \<open>want_store\<close> is the
    interface of the wantlists, with the client's and the server's as instances.
  \<^item> \<open>Session_Wants\<close>: \<open>session_wants.rs\<close>, \<open>cid_queue.rs\<close> and \<open>sent_want_blocks_tracker.rs\<close> of \<open>bitswap/client/session\<close>. Received
    blocks, the next wants under the broadcast limit, and a reachable state in which the limit underflows.
  \<^item> \<open>Block_Presence\<close> and \<open>Session_Interest\<close>: \<open>bitswap/client/block_presence_manager.rs\<close> and
    \<open>session_interest_manager.rs\<close>. The state is characterised by the history of messages; splitting incoming blocks
    and ending a session touch exactly the right keys.
  \<^item> \<open>Peer_Want_Manager\<close>: \<open>bitswap/client/peer_want_manager.rs\<close>. The reverse index lists exactly
    the peers a cid was sent to; each want and cancel is sent once.
  \<^item> \<open>Peer_Manager\<close>: \<open>bitswap/client/peer_manager.rs\<close>. The actor is a fold of its message handlers; a
    connected peer has been told exactly what is wanted of it, as long as no stopped queue is found.
  \<^item> \<open>Dont_Have_Timeout\<close> and \<open>Message_Queue\<close>:
    \<open>bitswap/client/message_queue.rs\<close> with \<open>dont_have_timeout_manager.rs\<close> and \<open>wantlist.rs\<close>. Timeouts are
    bounded, a message packs what leaves the queue, losing only want-haves
    that the peer does not support, and sending drains it; three defects of the timing are proved.
  \<^item> \<open>Bitswap_Message\<close>: \<open>bitswap/message.rs\<close>, \<open>block.rs\<close> and \<open>prefix.rs\<close>. Encoding and decoding
    round-trip; decoded messages are well formed.
  \<^item> \<open>Task_Tracker\<close> and \<open>Peer_Task_Queue\<close>: \<open>bitswap/peer_task_queue.rs\<close>, \<open>peer_task_queue/peer_task.rs\<close>, \<open>peer_task_queue/peer_tracker.rs\<close> and \<open>server/task_merger.rs\<close>.
    The locale \<open>task_merger\<close> is the interface between queue and merger; popping is ordered, loses nothing and ends;
    no assertion fails; thawing halves every freeze value.
  \<^item> \<open>Ipfs_Path\<close>: \<open>src/path.rs\<close>. Parsing and printing paths round-trip.
  \<^item> \<open>Pin_Store\<close>: \<open>src/repo/datastore/memory.rs\<close>, the key-value store and the pin store. The serialized pin documents refine an abstract map from cids to pin states,
    and listings and queries report exactly this map.
  \<^item> \<open>Ipld_Refs\<close>: \<open>src/refs.rs\<close>. The breadth-first walk ends on every finite store and is complete.
  \<^item> \<open>Repo\<close> and \<open>Repo_Pinning\<close>: \<open>src/repo/mod.rs\<close>, \<open>src/repo/blockstore/memory.rs\<close>, \<open>src/repo/lock.rs\<close> and
    unpinning of \<open>src/lib.rs\<close>. Cleanup removes exactly the unpinned blocks, stored blocks answer all waiting tasks, a
    pinned document survives every operation that removes no pin, pins round-trip unless a block is missing, migration copies
    the blocks, the entries and the pins as they are listed.
  \<^item> \<open>Unixfs_Adder\<close> and \<open>Unixfs_Visit\<close>: \<open>unixfs/src/file/adder.rs\<close>, \<open>reader.rs\<close>, \<open>visit.rs\<close> and the
    messages of \<open>unixfs/src/pb.rs\<close>. A file is cut into chunks and its links are collected into a tree whose leaves,
    from left to right, are the file (\<open>stored\<close>); a visit returns the leaves in order, cut to the target range. Finishing
    ends for every branching factor of at least two and is proved not to end for one.
  \<^item> \<open>Unixfs_Files\<close>: \<open>src/unixfs/add.rs\<close> and \<open>src/unixfs/cat.rs\<close> over the repository. A file that was added
    is read back, in every target range; a file of exactly one chunk cannot be added.

  \<^bold>\<open>Correspondence.\<close> A struct is a record, an enum a datatype, a method a function from the old state to its result
  and the new state; a handler that sends on channels returns what it sends. Tokio tasks that own a state and receive
  messages are folds of their handlers over arbitrary sequences of messages, so that the invariants hold for every
  order of arrival. Time, random choices, success of network operations and results of floating-point operations are
  arguments. Integers are unbounded where the code cannot reach a bound and checked (an overflow is a panic) where it
  can. Code outside the sources (cids, multihashes, protobuf, JSON, the keyed priority queue, IPLD codecs) is an
  argument, with its documented behaviour as a named hypothesis (\<open>cid_laws\<close>, \<open>name_laws\<close>,
  \<open>pin_laws\<close> and the like); each such theorem has a witness with concrete functions.

  \<^bold>\<open>Termination.\<close> Loops over data are structural recursion. The loops that need not end (the walk over references
  and what is built on it, collecting links and adding and reading files) are partial functions whose value is \<open>None\<close> when they do not
  return; the theorems about them state that they do return. There is no fuel.

  \<^bold>\<open>Not modelled.\<close>
  \<^item> The session want sender, sessions and the client of bitswap, the decision engine, and the score ledger: they join
    the modelled components by tasks, timers and floating-point scores.
  \<^item> Networking: the bitswap handler and protocol, the libp2p behaviours, gossipsub, the address and peer books, the
    background task of the node. They are event handlers of libp2p's swarm and consist of calls to it.
  \<^item> Generated protobuf code, IPNS records (cryptography and CBOR), DNS links, the key store.
  \<^item> On-disk stores: file system and sled input and output behind the interface of the modelled in-memory stores.
  \<^item> UnixFS directories, sharded lookups, symbolic links and listings, and DAG resolution over them.
  \<^item> The deprecated bitswap and the archived HTTP interface, which are not built into the node.
\<close>

end
